(* ===== verification/Prelude.thy ===== *)
theory Prelude
  imports Main "HOL-Library.Word"
begin

text \<open>
  Shared vocabulary of the development: the fixed-width integers of
  \<^verbatim>\<open>api/types.h\<close>, results that may fault, and small facts on lists and
  sets that several components use.

  A C++ operation that can leave the defined behaviour of the program returns
  \<^theory_text>\<open>fault + 'a\<close>: \<open>Inl\<close> names what went wrong, \<open>Inr\<close> carries the value.
\<close>

type_synonym byte = "8 word"
type_synonym u16 = "16 word"
type_synonym u32 = "32 word"
type_synonym u64 = "64 word"

text \<open>The aliases of \<^verbatim>\<open>api/types.h\<close>.\<close>

type_synonym shard_id = u32
type_synonym node_id = u32
type_synonym seq_num = u64
type_synonym timestamp = u64
type_synonym command = "byte list"

named_theorems wire_simps "sizes and decoding of the wire format"
named_theorems res_simps "evaluation of results that may fault"

section \<open>Results that may fault\<close>

text \<open>
  \<open>OutOfBounds\<close> is an access outside an object (undefined behaviour in C++),
  \<open>AssertFailed\<close> an \<^verbatim>\<open>assert\<close> that aborts (the Makefile builds without
  \<^verbatim>\<open>NDEBUG\<close>), \<open>Thrown\<close> an exception of the standard library that the
  function lets through, \<open>Overflow\<close> an arithmetic overflow of a signed integer,
  \<open>Terminated\<close> a call of \<^verbatim>\<open>std::terminate\<close>.
\<close>

datatype fault = OutOfBounds | AssertFailed | Thrown | Overflow | Terminated

definition bind_res :: "'e + 'a \<Rightarrow> ('a \<Rightarrow> 'e + 'b) \<Rightarrow> 'e + 'b" where
  "bind_res r f = (case r of Inl e \<Rightarrow> Inl e | Inr x \<Rightarrow> f x)"

definition require :: "bool \<Rightarrow> 'e \<Rightarrow> 'e + 'a \<Rightarrow> 'e + 'a" where
  "require c e k = (if c then k else Inl e)"

definition map_res :: "('a \<Rightarrow> 'b) \<Rightarrow> 'e + 'a \<Rightarrow> 'e + 'b" where
  "map_res f r = bind_res r (\<lambda>x. Inr (f x))"

lemma bind_res_Inl [simp, res_simps]: "bind_res (Inl e) f = Inl e"
  by (simp add: bind_res_def)

lemma bind_res_Inr [simp, res_simps]: "bind_res (Inr x) f = f x"
  by (simp add: bind_res_def)

lemma bind_res_eq_Inr: "bind_res r f = Inr y \<longleftrightarrow> (\<exists>x. r = Inr x \<and> f x = Inr y)"
  by (cases r) auto

lemma bind_res_assoc: "bind_res (bind_res r f) g = bind_res r (\<lambda>x. bind_res (f x) g)"
  by (cases r) auto

lemma require_True [simp, res_simps]: "require True e k = k"
  by (simp add: require_def)

lemma require_False [simp, res_simps]: "require False e k = Inl e"
  by (simp add: require_def)

lemma require_eq_Inr: "require c e k = Inr y \<longleftrightarrow> c \<and> k = Inr y"
  by (simp add: require_def)

lemma map_res_Inl [simp, res_simps]: "map_res f (Inl e) = Inl e"
  by (simp add: map_res_def)

lemma map_res_Inr [simp, res_simps]: "map_res f (Inr x) = Inr (f x)"
  by (simp add: map_res_def)

section \<open>Lists\<close>

text \<open>Overwriting a block of an array from index \<open>p\<close> on, the block inside the array.\<close>

definition blit :: "'a list \<Rightarrow> nat \<Rightarrow> 'a list \<Rightarrow> 'a list" where
  "blit xs p ys = take p xs @ ys @ drop (p + length ys) xs"

lemma length_blit [simp]: "p + length ys \<le> length xs \<Longrightarrow> length (blit xs p ys) = length xs"
  by (simp add: blit_def)

lemma take_blit [simp]: "p \<le> length xs \<Longrightarrow> n \<le> p \<Longrightarrow> take n (blit xs p ys) = take n xs"
  by (simp add: blit_def min_def)

lemma drop_blit_same [simp]: "p \<le> length xs \<Longrightarrow> drop p (blit xs p ys) = ys @ drop (p + length ys) xs"
  by (simp add: blit_def)

text \<open>The bytes \<open>[p, p + n)\<close> of an array.\<close>

definition chunk :: "nat \<Rightarrow> nat \<Rightarrow> 'a list \<Rightarrow> 'a list" where
  "chunk p n xs = take n (drop p xs)"

lemma length_chunk [simp]: "p + n \<le> length xs \<Longrightarrow> length (chunk p n xs) = n"
  by (simp add: chunk_def)

lemma chunk_0 [simp]: "chunk p 0 xs = []"
  by (simp add: chunk_def)

lemma chunk_append:
  "chunk p (m + n) xs = chunk p m xs @ chunk (p + m) n xs"
  by (simp add: chunk_def take_add add.commute)

lemma chunk_blit_before:
  assumes "p + n \<le> q" and "q \<le> length xs"
  shows "chunk p n (blit xs q ys) = chunk p n xs"
proof -
  have "chunk p n zs = drop p (take (p + n) zs)" for zs :: "'a list"
    by (simp add: chunk_def drop_take)
  then show ?thesis
    using assms by simp
qed

lemma chunk_blit_same [simp]: "p \<le> length xs \<Longrightarrow> chunk p (length ys) (blit xs p ys) = ys"
  by (simp add: chunk_def)

lemma chunk_blit_suffix:
  assumes "p + n = q" and "q \<le> length xs"
  shows "chunk p (n + length ys) (blit xs q ys) = chunk p n xs @ ys"
  using assms by (simp add: chunk_append chunk_blit_before)

lemma chunk_chunk: "i + k \<le> n \<Longrightarrow> chunk i k (chunk p n xs) = chunk (p + i) k xs"
  by (simp add: chunk_def drop_take min_def add.commute)

section \<open>Words\<close>

lemma unat_of_nat_eq: "n < 2 ^ LENGTH('a::len) \<Longrightarrow> unat (of_nat n :: 'a word) = n"
  by (simp add: unsigned_of_nat take_bit_nat_eq_self)

lemma u32_u64_u32 [simp]: "ucast (ucast (w :: u32) :: u64) = w"
  by (rule bit_word_eqI) (auto simp: bit_ucast_iff)

lemma unat_u16_bound: "unat (w :: u16) \<le> 65535"
proof -
  have "unat w < 2 ^ LENGTH(16)"
    by (rule unsigned_less)
  then show ?thesis by simp
qed

end
