(* ===== verification/Bytes.thy ===== *)
theory Bytes
  imports Prelude
begin

text \<open>
  Integers as bytes. \<^verbatim>\<open>api/common.h\<close> defines \<^verbatim>\<open>htonll\<close> and \<^verbatim>\<open>ntohll\<close> from
  \<^verbatim>\<open>htonl\<close>; every integer of a message is converted to network order and then
  copied out of memory with \<^verbatim>\<open>memcpy\<close>. The theory models both host byte orders,
  shows that what reaches the wire is the big-endian encoding on either of them,
  and gives the reads at an offset that the decoders are made of.
\<close>

unbundle bit_operations_syntax

section \<open>Big-endian encoding\<close>

fun be_bytes :: "nat \<Rightarrow> 'a::len word \<Rightarrow> byte list" where
  "be_bytes 0 w = []"
| "be_bytes (Suc n) w = ucast (drop_bit (8 * n) w) # be_bytes n w"

definition be_word :: "byte list \<Rightarrow> 'a::len word" where
  "be_word bs = foldl (\<lambda>a b. push_bit 8 a OR ucast b) 0 bs"

lemma length_be_bytes [simp, wire_simps]: "length (be_bytes n w) = n"
  by (induction n) auto

lemma be_word_Nil [simp]: "be_word [] = 0"
  by (simp add: be_word_def)

lemma be_word_snoc: "be_word (bs @ [b]) = push_bit 8 (be_word bs) OR ucast b"
  by (simp add: be_word_def)

text \<open>The last byte split off, for inductions from the low end.\<close>

lemma be_bytes_snoc: "be_bytes (Suc n) w = be_bytes n (drop_bit 8 w) @ [ucast w]"
  by (induction n) (auto simp: ac_simps)

lemma be_word_be_bytes:
  "be_word (be_bytes n (w :: 'a::len word)) = (take_bit (8 * n) w :: 'a word)"
proof (induction n arbitrary: w)
  case 0
  then show ?case by simp
next
  case (Suc n)
  have "be_word (be_bytes (Suc n) w)
    = push_bit 8 (take_bit (8 * n) (drop_bit 8 w)) OR (ucast (ucast w :: byte) :: 'a word)"
    unfolding be_bytes_snoc be_word_snoc Suc.IH ..
  also have "\<dots> = take_bit (8 * Suc n) w"
    by (rule bit_word_eqI)
      (auto simp: bit_or_iff bit_push_bit_iff bit_take_bit_iff bit_drop_bit_eq bit_ucast_iff)
  finally show ?case .
qed

lemma be_word_be_bytes_id [simp, wire_simps]:
  "LENGTH('a::len) \<le> 8 * n \<Longrightarrow> be_word (be_bytes n (w :: 'a word)) = w"
  by (simp add: be_word_be_bytes take_bit_word_eq_self)

lemma be_bytes_be_word:
  "length bs = n \<Longrightarrow> 8 * n \<le> LENGTH('a::len) \<Longrightarrow> be_bytes n (be_word bs :: 'a word) = bs"
proof (induction bs arbitrary: n rule: rev_induct)
  case Nil
  then show ?case by simp
next
  case (snoc b bs)
  define v :: "'a word" where "v = be_word bs"
  have len: "8 + 8 * length bs \<le> LENGTH('a)"
    using snoc.prems by simp
  have le: "bit v i \<Longrightarrow> i < 8 * length bs" for i
  proof -
    have "be_bytes (length bs) v = bs"
      unfolding v_def using len by (intro snoc.IH) auto
    then have "v = take_bit (8 * length bs) v"
      by (metis be_word_be_bytes v_def)
    then show "bit v i \<Longrightarrow> i < 8 * length bs"
      by (metis bit_take_bit_iff)
  qed
  have low: "(ucast (push_bit 8 v OR ucast b) :: byte) = b"
    by (rule bit_word_eqI) (use len in \<open>auto simp: bit_or_iff bit_push_bit_iff bit_ucast_iff\<close>)
  have high: "drop_bit 8 (push_bit 8 v OR ucast b) = v"
  proof (rule bit_word_eqI)
    fix i assume "i < LENGTH('a)"
    have "bit v i \<Longrightarrow> 8 + i < LENGTH('a)"
      using len le [of i] by simp
    moreover have "\<not> bit b (8 + i)"
      by (auto dest: bit_imp_le_length)
    ultimately show "bit (drop_bit 8 (push_bit 8 v OR ucast b)) i = bit v i"
      by (auto simp: bit_or_iff bit_push_bit_iff bit_drop_bit_eq bit_ucast_iff)
  qed
  have "be_bytes (Suc (length bs)) (be_word (bs @ [b]) :: 'a word)
      = be_bytes (length bs) v @ [b]"
    unfolding be_bytes_snoc be_word_snoc v_def [symmetric] high low ..
  also have "be_bytes (length bs) v = bs"
    unfolding v_def using len by (intro snoc.IH) auto
  finally have "be_bytes (Suc (length bs)) (be_word (bs @ [b]) :: 'a word) = bs @ [b]" .
  moreover have "n = Suc (length bs)"
    using snoc.prems by simp
  ultimately show ?case
    by (simp only:)
qed

section \<open>Host byte order\<close>

datatype byte_order = LittleEndian | BigEndian

text \<open>The bytes that \<^verbatim>\<open>memcpy\<close> copies out of an \<open>n\<close>-byte integer of the host.\<close>

fun mem_bytes :: "byte_order \<Rightarrow> nat \<Rightarrow> 'a::len word \<Rightarrow> byte list" where
  "mem_bytes LittleEndian n w = rev (be_bytes n w)"
| "mem_bytes BigEndian n w = be_bytes n w"

text \<open>\<^verbatim>\<open>htonl\<close> and \<^verbatim>\<open>htons\<close> swap the bytes on a little-endian host.\<close>

fun htonl :: "byte_order \<Rightarrow> u32 \<Rightarrow> u32" where
  "htonl LittleEndian w = be_word (rev (be_bytes 4 w))"
| "htonl BigEndian w = w"

fun htonll :: "byte_order \<Rightarrow> u64 \<Rightarrow> u64" where
  "htonll LittleEndian v =
    (let high = htonl LittleEndian (ucast (drop_bit 32 v));
         low = htonl LittleEndian (ucast (v AND 0xFFFFFFFF))
     in push_bit 32 (ucast low) OR ucast high)"
| "htonll BigEndian v = v"

definition ntohll :: "byte_order \<Rightarrow> u64 \<Rightarrow> u64" where
  "ntohll bo v = htonll bo v"

text \<open>Loading the bytes back, in the order of the host.\<close>

fun mem_word :: "byte_order \<Rightarrow> byte list \<Rightarrow> 'a::len word" where
  "mem_word LittleEndian bs = be_word (rev bs)"
| "mem_word BigEndian bs = be_word bs"

lemma htonl_mem_bytes [simp]: "mem_bytes bo 4 (htonl bo w) = be_bytes 4 w"
  by (cases bo) (simp_all add: be_bytes_be_word)

lemma htonl_involution [simp]: "htonl bo (htonl bo w) = w"
  by (cases bo) (simp_all add: be_bytes_be_word)

lemma be_bytes_append:
  "be_bytes (m + n) w = be_bytes m (drop_bit (8 * n) w) @ be_bytes n w"
  by (induction m) (simp_all add: algebra_simps)

lemma be_bytes_ucast:
  "8 * n \<le> LENGTH('b) \<Longrightarrow> be_bytes n (ucast (w :: 'a::len word) :: 'b::len word) = be_bytes n w"
proof (induction n)
  case 0
  then show ?case by simp
next
  case (Suc n)
  have "(ucast (drop_bit (8 * n) (ucast w :: 'b word)) :: byte) = ucast (drop_bit (8 * n) w)"
    by (rule bit_word_eqI) (use Suc.prems in \<open>auto simp: bit_ucast_iff bit_drop_bit_eq\<close>)
  with Suc show ?case by simp
qed

text \<open>
  \<open>n\<close> bytes depend on the low \<open>8 * n\<close> bits only.
\<close>

lemma be_bytes_cong:
  fixes v w :: "'a::len word"
  assumes "take_bit (8 * n) v = take_bit (8 * n) w"
  shows "be_bytes n v = be_bytes n w"
  using assms
proof (induction n)
  case 0
  then show ?case by simp
next
  case (Suc n)
  have bits: "bit v i = bit w i" if "i < 8 * Suc n" for i
    using Suc.prems that by (metis bit_take_bit_iff)
  have "take_bit (8 * n) v = take_bit (8 * n) w"
    by (rule bit_word_eqI) (auto simp: bit_take_bit_iff bits)
  moreover have "(ucast (drop_bit (8 * n) v) :: byte) = ucast (drop_bit (8 * n) w)"
    by (rule bit_word_eqI) (auto simp: bit_ucast_iff bit_drop_bit_eq bits)
  ultimately show ?case using Suc.IH by simp
qed

lemma mem_bytes_htonll: "mem_bytes bo 8 (htonll bo v) = be_bytes 8 v"
proof (cases bo)
  case BigEndian
  then show ?thesis by simp
next
  case LittleEndian
  define hi lo where "hi = htonl bo (ucast (drop_bit 32 v))"
    and "lo = htonl bo (ucast (v AND 0xFFFFFFFF))"
  define x :: u64 where "x = push_bit 32 (ucast lo) OR ucast hi"
  have x: "htonll bo v = x"
    by (simp add: LittleEndian x_def hi_def lo_def Let_def)
  have m: "v AND 0xFFFFFFFF = take_bit 32 v"
    by (simp add: take_bit_eq_mask mask_eq_exp_minus_1)
  have "drop_bit 32 x = ucast lo"
    unfolding x_def by (rule bit_word_eqI)
      (auto simp: bit_or_iff bit_push_bit_iff bit_drop_bit_eq bit_ucast_iff dest: bit_imp_le_length)
  moreover have "be_bytes 4 x = be_bytes 4 (ucast hi :: u64)"
    unfolding x_def by (rule be_bytes_cong, rule bit_word_eqI)
      (auto simp: bit_or_iff bit_push_bit_iff bit_take_bit_iff)
  ultimately have "be_bytes 8 x = be_bytes 4 lo @ be_bytes 4 hi"
    using be_bytes_append [of 4 4 x] by (simp add: be_bytes_ucast)
  then have "mem_bytes bo 8 x = rev (be_bytes 4 hi) @ rev (be_bytes 4 lo)"
    by (simp add: LittleEndian)
  also have "\<dots> = mem_bytes bo 4 hi @ mem_bytes bo 4 lo"
    by (simp add: LittleEndian)
  also have "\<dots> = be_bytes 4 (drop_bit 32 v) @ be_bytes 4 (take_bit 32 v)"
    by (simp only: hi_def lo_def htonl_mem_bytes m) (simp add: be_bytes_ucast)
  also have "\<dots> = be_bytes 8 v"
    using be_bytes_append [of 4 4 v] be_bytes_cong [of 4 "take_bit 32 v" v] by simp
  finally show ?thesis unfolding x .
qed

section \<open>Reads at an offset\<close>

text \<open>
  \<^verbatim>\<open>memcpy(&x, buf + off, n)\<close> followed by the conversion to host order: the value
  of the big-endian bytes, and a fault when they are not all inside the object.
\<close>

definition get_be :: "nat \<Rightarrow> byte list \<Rightarrow> nat \<Rightarrow> fault + 'a::len word" where
  "get_be n mem off =
    require (off + n \<le> length mem) OutOfBounds (Inr (be_word (chunk off n mem)))"

text \<open>A copy of \<open>n\<close> bytes out of an object.\<close>

definition get_bytes :: "nat \<Rightarrow> byte list \<Rightarrow> nat \<Rightarrow> fault + byte list" where
  "get_bytes n mem off = require (off + n \<le> length mem) OutOfBounds (Inr (chunk off n mem))"

lemma get_be_inside:
  "off + n \<le> length mem \<Longrightarrow> get_be n mem off = Inr (be_word (chunk off n mem))"
  by (simp add: get_be_def)

lemma get_be_outside: "length mem < off + n \<Longrightarrow> get_be n mem off = Inl OutOfBounds"
  by (simp add: get_be_def)

lemma get_bytes_inside: "off + n \<le> length mem \<Longrightarrow> get_bytes n mem off = Inr (chunk off n mem)"
  by (simp add: get_bytes_def)

lemma chunk_at: "length pre = off \<Longrightarrow> length xs = n \<Longrightarrow> chunk off n (pre @ xs @ post) = xs"
  by (simp add: chunk_def)

lemma get_be_at:
  assumes "length pre = off" and "LENGTH('a::len) \<le> 8 * n"
  shows "get_be n (pre @ be_bytes n (w :: 'a word) @ post) off = Inr w"
  using assms by (simp add: get_be_def chunk_at)

text \<open>Reading inside a window of a larger object is reading the window.\<close>

lemma get_be_window:
  "off + n \<le> sz \<Longrightarrow> base + sz \<le> length mem \<Longrightarrow>
    get_be n mem (base + off) = get_be n (chunk base sz mem) off"
  by (simp add: get_be_def chunk_chunk)

section \<open>Fixed-width codecs\<close>

text \<open>
  What the sequence of ordering values of a message needs of the encoding of one
  value: a fixed width and a left inverse.
\<close>

locale fixed_codec =
  fixes enc :: "'a \<Rightarrow> byte list" and dec :: "byte list \<Rightarrow> 'a" and width :: nat
  assumes length_enc: "length (enc x) = width"
    and dec_enc: "dec (enc x) = x"
begin

lemma length_encodes: "length (concat (map enc xs)) = width * length xs"
  by (induction xs) (simp_all add: length_enc)

lemma enc_inject: "enc x = enc y \<longleftrightarrow> x = y"
  by (metis dec_enc)

lemma chunk_encodes:
  "i < length xs \<Longrightarrow> chunk (width * i) width (concat (map enc xs)) = enc (xs ! i)"
proof (induction xs arbitrary: i)
  case Nil
  then show ?case by simp
next
  case (Cons x xs)
  show ?case
  proof (cases i)
    case 0
    then show ?thesis by (simp add: chunk_def length_enc)
  next
    case (Suc j)
    with Cons show ?thesis by (simp add: chunk_def length_enc)
  qed
qed

lemma dec_encodes:
  "i < length xs \<Longrightarrow> dec (chunk (width * i) width (concat (map enc xs))) = xs ! i"
  by (simp add: chunk_encodes dec_enc)

lemma encodes_inject: "concat (map enc xs) = concat (map enc ys) \<longleftrightarrow> xs = ys"
  if "length xs = length ys"
  using that
  by (induction xs ys rule: list_induct2) (auto simp: length_enc enc_inject)

end

interpretation be16: fixed_codec "be_bytes 2 :: u16 \<Rightarrow> _" be_word 2
  by unfold_locales simp_all

interpretation be32: fixed_codec "be_bytes 4 :: u32 \<Rightarrow> _" be_word 4
  by unfold_locales simp_all

interpretation be64: fixed_codec "be_bytes 8 :: u64 \<Rightarrow> _" be_word 8
  by unfold_locales simp_all

text \<open>The conversions are their own inverse, as the sources use them.\<close>

lemma htonll_involution [simp]: "ntohll bo (htonll bo v) = v"
proof (cases bo)
  case BigEndian
  then show ?thesis by (simp add: ntohll_def)
next
  case LittleEndian
  have le: "be_bytes 8 (htonll bo w) = rev (be_bytes 8 w)" for w
    using mem_bytes_htonll [of bo w] LittleEndian by (simp add: rev_swap)
  have "be_bytes 8 (ntohll bo (htonll bo v)) = be_bytes 8 v"
    by (simp add: ntohll_def le)
  then show ?thesis
    by (simp only: be64.enc_inject)
qed

text \<open>
  What \<^verbatim>\<open>htonll\<close> and \<^verbatim>\<open>memcpy\<close> put on the wire for a 64-bit value is its
  big-endian encoding, and loading those bytes and applying \<^verbatim>\<open>ntohll\<close> gives the
  value back, on a little-endian and on a big-endian host alike; so nodes of
  different byte order read each other's sequence numbers correctly.
\<close>

theorem htonll_wire:
  "mem_bytes bo 8 (htonll bo v) = be_bytes 8 v \<and>
   ntohll bo' (mem_word bo' (mem_bytes bo 8 (htonll bo v))) = v"
proof -
  have "mem_bytes bo' 8 (htonll bo' v) = be_bytes 8 v"
    by (rule mem_bytes_htonll)
  then have "mem_word bo' (be_bytes 8 v) = htonll bo' v"
    by (cases bo') (auto simp: rev_swap [symmetric], metis be64.dec_enc rev_rev_ident)
  then show ?thesis by (simp add: mem_bytes_htonll)
qed

end
