(* ===== verification/Message.thy ===== *)
theory Message
  imports Bytes
begin

text \<open>
  \<^verbatim>\<open>api/message.h\<close> and \<^verbatim>\<open>api/message.cpp\<close>: the message record, its accessors with
  their assertions, the encoder, the two decoders and the header peek.
\<close>

section \<open>Message types\<close>

datatype message_type =
    APPEND | SKIP | SUCCESS | FAILURE | ACK | ZIP_REQUEST | ZIP_RESPONSE | REPORT | FREEZE
  | FREEZE_RESPONSE | TRANSFER_REQUEST | FREEZE_COMPLETE | REGISTER_PROXY | REJOIN_PROXY
  | INCLUDE_PROXY | REGISTER_SUBSCRIBER | INCLUDE_SUBSCRIBER

text \<open>The enumerators are numbered from 0; the field of a message is a plain \<^verbatim>\<open>uint32_t\<close>.\<close>

fun code :: "message_type \<Rightarrow> u32" where
  "code APPEND = 0"
| "code SKIP = 1"
| "code SUCCESS = 2"
| "code FAILURE = 3"
| "code ACK = 4"
| "code ZIP_REQUEST = 5"
| "code ZIP_RESPONSE = 6"
| "code REPORT = 7"
| "code FREEZE = 8"
| "code FREEZE_RESPONSE = 9"
| "code TRANSFER_REQUEST = 10"
| "code FREEZE_COMPLETE = 11"
| "code REGISTER_PROXY = 12"
| "code REJOIN_PROXY = 13"
| "code INCLUDE_PROXY = 14"
| "code REGISTER_SUBSCRIBER = 15"
| "code INCLUDE_SUBSCRIBER = 16"

lemma code_inject [simp]: "code s = code t \<longleftrightarrow> s = t"
  by (cases s; cases t) simp_all

section \<open>The record and its accessors\<close>

record message =
  msg_type :: u32
  shard_id :: shard_id
  sender_id :: node_id
  seq_or_count :: seq_num
  msg_data :: command
  ordering_values :: "seq_num list"

text \<open>A conversion of a \<^verbatim>\<open>uint64_t\<close> to \<^verbatim>\<open>int\<close>: the low 32 bits, signed.\<close>

definition to_int :: "u64 \<Rightarrow> int" where
  "to_int v = sint (ucast v :: 32 word)"

definition has_type :: "message \<Rightarrow> message_type list \<Rightarrow> bool" where
  "has_type m ts \<longleftrightarrow> msg_type m \<in> code ` set ts"

lemma has_type_Nil [simp]: "\<not> has_type m []"
  by (simp add: has_type_def)

lemma has_type_Cons [simp]: "has_type m (t # ts) \<longleftrightarrow> msg_type m = code t \<or> has_type m ts"
  by (auto simp: has_type_def)

definition get_sequence_number :: "message \<Rightarrow> fault + seq_num" where
  "get_sequence_number m =
    require (has_type m [APPEND, SKIP, ACK, TRANSFER_REQUEST, FREEZE_RESPONSE, FREEZE_COMPLETE])
      AssertFailed
      (if has_type m [TRANSFER_REQUEST, FREEZE_RESPONSE]
       then require (1 < length (ordering_values m)) AssertFailed (Inr (ordering_values m ! 1))
       else Inr (seq_or_count m))"

definition resize2 :: "seq_num list \<Rightarrow> seq_num list" where
  "resize2 vs = (if length vs < 2 then vs @ replicate (2 - length vs) 0 else vs)"

definition set_sequence_number :: "seq_num \<Rightarrow> message \<Rightarrow> fault + message" where
  "set_sequence_number s m =
    require (has_type m [APPEND, SKIP, ACK, TRANSFER_REQUEST, FREEZE_RESPONSE, FREEZE_COMPLETE])
      AssertFailed
      (if has_type m [TRANSFER_REQUEST, FREEZE_RESPONSE]
       then Inr (m\<lparr>ordering_values := (resize2 (ordering_values m))[1 := s]\<rparr>)
       else Inr (m\<lparr>seq_or_count := s\<rparr>))"

definition get_failed_proxy :: "message \<Rightarrow> fault + node_id" where
  "get_failed_proxy m =
    (if has_type m [REPORT] then Inr (ucast (seq_or_count m))
     else if has_type m [FREEZE, FREEZE_RESPONSE, TRANSFER_REQUEST, FREEZE_COMPLETE]
     then (case ordering_values m of [] \<Rightarrow> Inl OutOfBounds | v # _ \<Rightarrow> Inr (ucast v))
     else Inl AssertFailed)"

definition set_failed_proxy :: "node_id \<Rightarrow> message \<Rightarrow> fault + message" where
  "set_failed_proxy p m =
    (if has_type m [REPORT] then Inr (m\<lparr>seq_or_count := ucast p\<rparr>)
     else if has_type m [FREEZE, FREEZE_RESPONSE, TRANSFER_REQUEST, FREEZE_COMPLETE]
     then Inr (m\<lparr>ordering_values := [ucast p]\<rparr>)
     else Inl AssertFailed)"

definition set_round :: "seq_num \<Rightarrow> message \<Rightarrow> fault + message" where
  "set_round r m =
    require (has_type m [FREEZE, FREEZE_RESPONSE, TRANSFER_REQUEST]) AssertFailed
      (Inr (m\<lparr>seq_or_count := r\<rparr>))"

definition get_round :: "message \<Rightarrow> fault + int" where
  "get_round m =
    require (has_type m [FREEZE, FREEZE_RESPONSE, TRANSFER_REQUEST]) AssertFailed
      (Inr (to_int (seq_or_count m)))"

definition get_num_requests :: "message \<Rightarrow> fault + seq_num" where
  "get_num_requests m =
    require (has_type m [ZIP_REQUEST, ZIP_RESPONSE]) AssertFailed (Inr (seq_or_count m))"

definition set_num_requests :: "seq_num \<Rightarrow> message \<Rightarrow> fault + message" where
  "set_num_requests c m =
    require (has_type m [ZIP_REQUEST, ZIP_RESPONSE]) AssertFailed (Inr (m\<lparr>seq_or_count := c\<rparr>))"

definition get_assigned_sequences :: "message \<Rightarrow> fault + seq_num list" where
  "get_assigned_sequences m =
    require (has_type m [ZIP_RESPONSE]) AssertFailed (Inr (ordering_values m))"

definition set_assigned_sequences :: "seq_num list \<Rightarrow> message \<Rightarrow> fault + message" where
  "set_assigned_sequences vs m =
    require (has_type m [ZIP_RESPONSE]) AssertFailed (Inr (m\<lparr>ordering_values := vs\<rparr>))"

definition build_message ::
  "u32 \<Rightarrow> shard_id \<Rightarrow> node_id \<Rightarrow> seq_num \<Rightarrow> command \<Rightarrow> seq_num list \<Rightarrow> message" where
  "build_message t sh sd n d vs =
    \<lparr>msg_type = t, shard_id = sh, sender_id = sd, seq_or_count = n, msg_data = d,
     ordering_values = vs\<rparr>"

text \<open>A message under construction: the fields the code leaves uninitialised have the values \<open>junk\<close>.\<close>

definition blank_message :: "u32 \<Rightarrow> shard_id \<times> node_id \<times> seq_num \<Rightarrow> message" where
  "blank_message t junk = build_message t (fst junk) (fst (snd junk)) (snd (snd junk)) [] []"

section \<open>Encoding\<close>

definition MAX_MESSAGE_SIZE :: nat where
  "MAX_MESSAGE_SIZE = 65535"

text \<open>The size computed in \<^verbatim>\<open>uint32_t\<close>, where it can wrap.\<close>

definition struct_size :: "message \<Rightarrow> u32" where
  "struct_size m =
    4 + 4 + 4 + 8 + 4 + of_nat (length (msg_data m))
      + 4 + of_nat (length (ordering_values m)) * 8"

definition serialize :: "message \<Rightarrow> byte list" where
  "serialize m =
    (if of_nat MAX_MESSAGE_SIZE < struct_size m then []
     else be_bytes 4 (msg_type m) @ be_bytes 4 (shard_id m) @ be_bytes 4 (sender_id m)
       @ be_bytes 8 (seq_or_count m)
       @ be_bytes 4 (of_nat (length (msg_data m)) :: u32) @ msg_data m
       @ be_bytes 4 (of_nat (length (ordering_values m)) :: u32)
       @ concat (map (be_bytes 8) (ordering_values m)))"

section \<open>Decoding\<close>

text \<open>The loop that reads the ordering values, \<open>k\<close> of them from \<open>off\<close> on.\<close>

fun read_values :: "nat \<Rightarrow> byte list \<Rightarrow> nat \<Rightarrow> fault + seq_num list" where
  "read_values 0 mem off = Inr []"
| "read_values (Suc k) mem off =
    bind_res (get_be 8 mem off) (\<lambda>v. map_res (Cons v) (read_values k mem (off + 8)))"

text \<open>
  \<^verbatim>\<open>Message::deserialize(const vector<uint8_t> &)\<close>. The multiplication by 8 in the
  second validity check is done on a \<^verbatim>\<open>uint32_t\<close>.
\<close>

definition deserialize :: "byte list \<Rightarrow> fault + message option" where
  "deserialize buffer =
    (if length buffer < 28 then Inr None else
     bind_res (get_be 4 buffer 0) (\<lambda>t.
     bind_res (get_be 4 buffer 4) (\<lambda>sh.
     bind_res (get_be 4 buffer 8) (\<lambda>sd.
     bind_res (get_be 8 buffer 12) (\<lambda>seq.
     bind_res (get_be 4 buffer 20) (\<lambda>data_len :: u32.
     let off = 24 in
     if length buffer < off + unat data_len then Inr None else
     bind_res (get_bytes (unat data_len) buffer off) (\<lambda>d.
     let off = off + unat data_len in
     if length buffer < off + 4 then Inr None else
     bind_res (get_be 4 buffer off) (\<lambda>ordering_len :: u32.
     let off = off + 4 in
     if length buffer < off + unat (ordering_len * 8) then Inr None else
     bind_res (read_values (unat ordering_len) buffer off) (\<lambda>vs.
       Inr (Some (build_message t sh sd seq d vs)))))))))))"

text \<open>
  The overload on a raw pointer: \<open>mem\<close> is the object the pointer points into,
  \<open>base\<close> its offset there, \<open>size\<close> the number of bytes it may use. Reads past
  \<open>size\<close> still inside \<open>mem\<close> return whatever is there.
\<close>

definition deserialize_raw :: "byte list \<Rightarrow> nat \<Rightarrow> nat \<Rightarrow> fault + message option" where
  "deserialize_raw mem base sz =
    (if sz < 28 then Inr None else
     bind_res (get_be 4 mem base) (\<lambda>t.
     bind_res (get_be 4 mem (base + 4)) (\<lambda>sh.
     bind_res (get_be 4 mem (base + 8)) (\<lambda>sd.
     bind_res (get_be 8 mem (base + 12)) (\<lambda>seq.
     bind_res (get_be 4 mem (base + 20)) (\<lambda>data_len :: u32.
     let off = 24 in
     if sz < off + unat data_len then Inr None else
     bind_res (get_bytes (unat data_len) mem (base + off)) (\<lambda>d.
     let off = off + unat data_len in
     if sz < off + 4 then Inr None else
     bind_res (get_be 4 mem (base + off)) (\<lambda>ordering_len :: u32.
     let off = off + 4 in
     if sz < off + unat (ordering_len * 8) then Inr None else
     bind_res (read_values (unat ordering_len) mem (base + off)) (\<lambda>vs.
       Inr (Some (build_message t sh sd seq d vs)))))))))))"

section \<open>The header\<close>

record message_header =
  h_type :: u32
  h_shard :: shard_id
  h_sender :: node_id
  h_seq :: seq_num

definition HEADER_SIZE :: nat where
  "HEADER_SIZE = 20"

definition peek_header_at :: "byte list \<Rightarrow> nat \<Rightarrow> nat \<Rightarrow> fault + message_header option" where
  "peek_header_at mem base available =
    (if available < HEADER_SIZE then Inr None else
     bind_res (get_be 4 mem base) (\<lambda>t.
     bind_res (get_be 4 mem (base + 4)) (\<lambda>sh.
     bind_res (get_be 4 mem (base + 8)) (\<lambda>sd.
     bind_res (get_be 8 mem (base + 12)) (\<lambda>seq.
       Inr (Some \<lparr>h_type = t, h_shard = sh, h_sender = sd, h_seq = seq\<rparr>))))))"

section \<open>The wire format\<close>

text \<open>A message that the encoder accepts.\<close>

definition fits :: "message \<Rightarrow> bool" where
  "fits m \<longleftrightarrow> 28 + length (msg_data m) + 8 * length (ordering_values m) \<le> MAX_MESSAGE_SIZE"

text \<open>The bytes of a message in the order of the fields.\<close>

definition layout ::
  "u32 \<Rightarrow> shard_id \<Rightarrow> node_id \<Rightarrow> seq_num \<Rightarrow> u32 \<Rightarrow> command \<Rightarrow> u32 \<Rightarrow> byte list \<Rightarrow> byte list" where
  "layout t sh sd s dl d ol rest =
    be_bytes 4 t @ be_bytes 4 sh @ be_bytes 4 sd @ be_bytes 8 s @ be_bytes 4 dl @ d
      @ be_bytes 4 ol @ rest"

lemma struct_size_exact:
  assumes "28 + length (msg_data m) + 8 * length (ordering_values m) < 2 ^ 32"
  shows "unat (struct_size m) = 28 + length (msg_data m) + 8 * length (ordering_values m)"
proof -
  have "struct_size m = of_nat (28 + length (msg_data m) + 8 * length (ordering_values m))"
    by (simp add: struct_size_def)
  also have "unat \<dots> = 28 + length (msg_data m) + 8 * length (ordering_values m)"
    using assms by (intro unat_of_nat_eq) simp
  finally show ?thesis .
qed

lemma length_layout [simp, wire_simps]: "length (layout t sh sd s dl d ol rest) = 28 + length d + length rest"
  by (simp add: layout_def)

lemma layout_reads:
  "get_be 4 (layout t sh sd s dl d ol rest) 0 = Inr t"
  "get_be 4 (layout t sh sd s dl d ol rest) 4 = Inr sh"
  "get_be 4 (layout t sh sd s dl d ol rest) 8 = Inr sd"
  "get_be 8 (layout t sh sd s dl d ol rest) 12 = Inr s"
  "get_be 4 (layout t sh sd s dl d ol rest) 20 = Inr dl"
  "get_bytes (length d) (layout t sh sd s dl d ol rest) 24 = Inr d"
  "get_be 4 (layout t sh sd s dl d ol rest) (24 + length d) = Inr ol"
  by (simp_all add: get_be_def get_bytes_def chunk_def layout_def)

lemma read_values_encoded:
  "read_values (length vs) (pre @ concat (map (be_bytes 8) vs) @ post) (length pre) = Inr vs"
proof (induction vs arbitrary: pre)
  case Nil
  then show ?case by simp
next
  case (Cons v vs)
  have "read_values (length vs) ((pre @ be_bytes 8 v) @ concat (map (be_bytes 8) vs) @ post)
      (length (pre @ be_bytes 8 v)) = Inr vs"
    by (rule Cons.IH)
  moreover have "get_be 8 (pre @ be_bytes 8 v @ concat (map (be_bytes 8) vs) @ post) (length pre)
      = Inr v"
    by (rule get_be_at) simp_all
  ultimately show ?case by simp
qed

lemma read_values_inside:
  "off + 8 * k \<le> length mem \<Longrightarrow>
    \<exists>vs. read_values k mem off = Inr vs \<and> length vs = k \<and>
      concat (map (be_bytes 8) vs) = chunk off (8 * k) mem"
proof (induction k arbitrary: off)
  case 0
  then show ?case by simp
next
  case (Suc k)
  then have "off + 8 + 8 * k \<le> length mem" by simp
  then obtain vs where vs: "read_values k mem (off + 8) = Inr vs" "length vs = k"
    "concat (map (be_bytes 8) vs) = chunk (off + 8) (8 * k) mem"
    using Suc.IH by blast
  have inside: "off + 8 \<le> length mem"
    using Suc.prems by simp
  then have "be_bytes 8 (be_word (chunk off 8 mem) :: u64) = chunk off 8 mem"
    by (intro be_bytes_be_word) simp_all
  with vs inside show ?case
    using chunk_append [of off 8 "8 * k" mem]
    by (simp add: get_be_inside)
qed

lemma read_values_outside: "0 < k \<Longrightarrow> length mem < off + 8 \<Longrightarrow> read_values k mem off = Inl OutOfBounds"
  by (cases k) (simp_all add: get_be_outside)

lemma decode_layout:
  assumes "unat dl = length d"
  shows "deserialize (layout t sh sd s dl d ol rest) =
    (if length rest < unat (ol * 8) then Inr None
     else map_res (\<lambda>vs. Some (build_message t sh sd s d vs))
            (read_values (unat ol) (layout t sh sd s dl d ol rest) (28 + length d)))"
  using assms
  by (simp add: deserialize_def Let_def map_res_def layout_reads)

lemma serialize_layout:
  "fits m \<Longrightarrow> serialize m = layout (msg_type m) (shard_id m) (sender_id m) (seq_or_count m)
      (of_nat (length (msg_data m))) (msg_data m) (of_nat (length (ordering_values m)))
      (concat (map (be_bytes 8) (ordering_values m)))"
  using struct_size_exact [of m]
  by (simp add: serialize_def fits_def MAX_MESSAGE_SIZE_def layout_def word_less_nat_alt)

lemma layout_append: "layout t sh sd s dl d ol rest @ junk = layout t sh sd s dl d ol (rest @ junk)"
  by (simp add: layout_def)

lemma deserialize_serialize_append:
  assumes "fits m"
  shows "deserialize (serialize m @ junk) = Inr (Some m)"
proof -
  let ?d = "msg_data m" and ?vs = "ordering_values m"
  let ?ol = "of_nat (length ?vs) :: u32" and ?dl = "of_nat (length ?d) :: u32"
  let ?L = "layout (msg_type m) (shard_id m) (sender_id m) (seq_or_count m) ?dl ?d ?ol []"
  let ?rest = "concat (map (be_bytes 8) ?vs) @ junk"
  have bound: "length ?d < 2 ^ 32" "8 * length ?vs < 2 ^ 32"
    using assms by (auto simp: fits_def MAX_MESSAGE_SIZE_def)
  then have dl: "unat ?dl = length ?d" and ol: "unat ?ol = length ?vs"
    by (simp_all add: unat_of_nat_eq)
  have "?ol * 8 = of_nat (8 * length ?vs)"
    by simp
  also have "unat \<dots> = 8 * length ?vs"
    using bound by (intro unat_of_nat_eq) simp
  finally have ol8: "unat (?ol * 8) = 8 * length ?vs" .
  have buf: "serialize m @ junk = ?L @ concat (map (be_bytes 8) ?vs) @ junk"
    by (simp add: serialize_layout [OF assms] layout_append)
  have "read_values (length ?vs) (?L @ concat (map (be_bytes 8) ?vs) @ junk) (length ?L) = Inr ?vs"
    by (rule read_values_encoded)
  then have "deserialize (serialize m @ junk) = Inr (Some (build_message (msg_type m) (shard_id m)
      (sender_id m) (seq_or_count m) ?d ?vs))"
    unfolding buf layout_append by (simp add: decode_layout dl ol ol8 be64.length_encodes)
  then show ?thesis
    by (simp add: build_message_def)
qed

lemma read_values_fault:
  "read_values k mem off = Inl e \<longleftrightarrow> e = OutOfBounds \<and> 0 < k \<and> length mem < off + 8 * k"
proof (induction k arbitrary: off)
  case 0
  then show ?case by simp
next
  case (Suc k)
  show ?case
  proof (cases "off + 8 \<le> length mem")
    case True
    then have "read_values (Suc k) mem off = Inl e \<longleftrightarrow> read_values k mem (off + 8) = Inl e"
      by (cases "read_values k mem (off + 8)") (simp_all add: get_be_inside)
    then show ?thesis
      using True Suc.IH [of "off + 8"] by auto
  next
    case False
    then show ?thesis by (auto simp: get_be_outside)
  qed
qed

lemma read_values_Inr:
  assumes "read_values k mem off = Inr vs"
  shows "length vs = k \<and> (k = 0 \<or> off + 8 * k \<le> length mem)
    \<and> (off + 8 * k \<le> length mem \<longrightarrow> concat (map (be_bytes 8) vs) = chunk off (8 * k) mem)"
proof (cases "off + 8 * k \<le> length mem")
  case True
  with read_values_inside [OF this] assms show ?thesis by auto
next
  case False
  have "k = 0"
    using read_values_fault [of k mem off OutOfBounds] assms False by auto
  with assms show ?thesis using False by simp
qed

text \<open>Every buffer of at least 28 bytes whose data length is plausible is a layout.\<close>

lemma layout_exists:
  assumes len: "28 \<le> length buf"
    and dl: "28 + unat (be_word (chunk 20 4 buf) :: u32) \<le> length buf"
  obtains t sh sd s dl d ol rest where
    "buf = layout t sh sd s dl d ol rest" and "unat dl = length d"
proof -
  define n where "n = unat (be_word (chunk 20 4 buf) :: u32)"
  have split: "chunk p (a + b) buf = chunk p a buf @ chunk (p + a) b buf" for p a b
    by (rule chunk_append)
  have enc: "be_bytes k (be_word (chunk p k buf) :: 'b::len word) = chunk p k buf"
    if "p + k \<le> length buf" "8 * k \<le> LENGTH('b)" for p k
    using that by (intro be_bytes_be_word) simp_all
  have "buf = chunk 0 (length buf) buf"
    by (simp add: chunk_def)
  also have "length buf = 4 + (4 + (4 + (8 + (4 + (n + (4 + (length buf - (28 + n))))))))"
    using dl by (simp add: n_def)
  also have "chunk 0 \<dots> buf = layout (be_word (chunk 0 4 buf)) (be_word (chunk 4 4 buf))
      (be_word (chunk 8 4 buf)) (be_word (chunk 12 8 buf)) (be_word (chunk 20 4 buf))
      (chunk 24 n buf) (be_word (chunk (24 + n) 4 buf))
      (chunk (28 + n) (length buf - (28 + n)) buf)"
    unfolding split layout_def using len dl
    by (simp add: enc n_def)
  finally have "buf = \<dots>" .
  moreover have "unat (be_word (chunk 20 4 buf) :: u32) = length (chunk 24 n buf)"
    using dl by (simp add: n_def)
  ultimately show thesis by (rule that)
qed

lemma deserialize_None_if_data_short:
  "28 \<le> length buf \<Longrightarrow> length buf < 24 + unat (be_word (chunk 20 4 buf) :: u32) \<Longrightarrow>
    deserialize buf = Inr None"
  by (simp add: deserialize_def get_be_inside)

lemma deserialize_None_if_no_count:
  "28 \<le> length buf \<Longrightarrow> 24 + unat (be_word (chunk 20 4 buf) :: u32) \<le> length buf \<Longrightarrow>
    length buf < 28 + unat (be_word (chunk 20 4 buf) :: u32) \<Longrightarrow> deserialize buf = Inr None"
  by (simp add: deserialize_def get_be_inside get_bytes_inside Let_def)

lemma deserialize_not_None_layout:
  assumes "deserialize buf \<noteq> Inr None"
  obtains t sh sd s dl d ol rest where
    "buf = layout t sh sd s dl d ol rest" and "unat dl = length d"
proof -
  have "28 \<le> length buf"
    using assms by (rule contrapos_np) (simp add: deserialize_def)
  moreover from this have "28 + unat (be_word (chunk 20 4 buf) :: u32) \<le> length buf"
    using assms deserialize_None_if_data_short deserialize_None_if_no_count
    by (metis not_less)
  ultimately show thesis
    using layout_exists that by blast
qed

lemma decode_fault:
  assumes "unat dl = length d"
  shows "deserialize (layout t sh sd s dl d ol rest) = Inl e \<longleftrightarrow>
    e = OutOfBounds \<and> unat (ol * 8) \<le> length rest \<and> length rest < 8 * unat ol"
proof -
  have "map_res f r = Inl e \<longleftrightarrow> r = Inl e" for f :: "seq_num list \<Rightarrow> message option" and r
    by (cases r) simp_all
  then show ?thesis
    by (auto simp: decode_layout [OF assms] read_values_fault)
qed

text \<open>
  Conversely the decoder only accepts encodings: a message decoded from a buffer
  that fits the 16-bit length prefix re-encodes to a prefix of that buffer.
\<close>

theorem deserialize_sound:
  assumes "deserialize buf = Inr (Some m)" and "length buf \<le> MAX_MESSAGE_SIZE"
  shows "fits m \<and> (\<exists>rest. buf = serialize m @ rest)"
proof -
  have "deserialize buf \<noteq> Inr None"
    using assms by simp
  then obtain t sh sd s dl d ol rest where
    buf: "buf = layout t sh sd s dl d ol rest" and dl: "unat dl = length d"
    by (rule deserialize_not_None_layout)
  then obtain vs where vs: "read_values (unat ol) buf (28 + length d) = Inr vs"
    and m: "m = build_message t sh sd s d vs"
    using assms(1) decode_layout [OF dl, of t sh sd s ol rest]
    by (auto simp: map_res_def bind_res_eq_Inr split: if_splits)
  have inside: "28 + length d + 8 * unat ol \<le> length buf"
    using read_values_Inr [OF vs] buf by auto
  with read_values_Inr [OF vs] have len: "length vs = unat ol"
    and enc: "concat (map (be_bytes 8) vs) = take (8 * unat ol) rest"
    by (auto simp: buf layout_def chunk_def)
  have fit: "fits m"
    using inside assms(2) by (simp add: fits_def m build_message_def len)
  have "serialize m = layout t sh sd s dl d ol (take (8 * unat ol) rest)"
    unfolding serialize_layout [OF fit]
    by (simp add: m build_message_def len enc flip: dl)
  then have "buf = serialize m @ drop (8 * unat ol) rest"
    by (simp add: layout_append buf)
  with fit show ?thesis by blast
qed

section \<open>The two decoders agree\<close>

lemma get_bytes_window:
  "off + n \<le> sz \<Longrightarrow> base + sz \<le> length mem \<Longrightarrow>
    get_bytes n mem (base + off) = get_bytes n (chunk base sz mem) off"
  by (simp add: get_bytes_def chunk_chunk)

lemma read_values_window:
  "off + 8 * k \<le> sz \<Longrightarrow> base + sz \<le> length mem \<Longrightarrow>
    read_values k mem (base + off) = read_values k (chunk base sz mem) off"
proof (induction k arbitrary: off)
  case 0
  then show ?case by simp
next
  case (Suc k)
  then have "read_values k mem (base + (off + 8)) = read_values k (chunk base sz mem) (off + 8)"
    by (intro Suc.IH) simp_all
  moreover have "get_be 8 mem (base + off) = (get_be 8 (chunk base sz mem) off :: fault + u64)"
    using Suc.prems by (intro get_be_window) simp_all
  ultimately show ?case
    by (simp add: add.assoc)
qed

lemma raw_agrees:
  assumes win: "base + sz \<le> length mem" and "deserialize (chunk base sz mem) = Inr r"
  shows "deserialize_raw mem base sz = Inr r"
proof (cases "sz < 28")
  case True
  with assms show ?thesis
    by (simp add: deserialize_raw_def deserialize_def)
next
  case False
  let ?b = "chunk base sz mem"
  have hdr: "get_be 4 mem base = (get_be 4 ?b 0 :: fault + u32)"
    "get_be 4 mem (base + 4) = (get_be 4 ?b 4 :: fault + u32)"
    "get_be 4 mem (base + 8) = (get_be 4 ?b 8 :: fault + u32)"
    "get_be 8 mem (base + 12) = (get_be 8 ?b 12 :: fault + u64)"
    "get_be 4 mem (base + 20) = (get_be 4 ?b 20 :: fault + u32)"
    using get_be_window [of 0 4 sz base mem] False win
    by (simp_all add: get_be_window)
  define dl :: u32 where "dl = be_word (chunk 20 4 ?b)"
  have dl: "get_be 4 ?b 20 = Inr dl"
    using False win by (simp add: get_be_inside dl_def)
  show ?thesis
  proof (cases "28 + unat dl \<le> sz")
    case False
    with \<open>\<not> sz < 28\<close> win have "deserialize ?b = Inr None"
      using deserialize_None_if_data_short [of ?b] deserialize_None_if_no_count [of ?b]
      by (cases "sz < 24 + unat dl") (simp_all add: dl_def)
    moreover have "deserialize_raw mem base sz = Inr None"
    proof (cases "sz < 24 + unat dl")
      case True
      with \<open>\<not> sz < 28\<close> win show ?thesis
        by (simp add: deserialize_raw_def hdr dl Let_def get_be_inside)
    next
      case short: False
      with \<open>\<not> sz < 28\<close> win False show ?thesis
        by (simp add: deserialize_raw_def hdr dl Let_def get_be_inside get_bytes_inside)
    qed
    ultimately show ?thesis using assms by simp
  next
    case True
    define ol :: u32 where "ol = be_word (chunk (24 + unat dl) 4 ?b)"
    have ol: "get_be 4 ?b (24 + unat dl) = Inr ol"
      using True win by (simp add: get_be_inside ol_def)
    have ol': "get_be 4 mem (base + (24 + unat dl)) = Inr ol"
      using True ol win by (subst get_be_window [where sz = sz]) simp_all
    have d: "get_bytes (unat dl) mem (base + 24) = get_bytes (unat dl) ?b 24"
      using True win by (intro get_bytes_window) simp_all
    have d': "get_bytes (unat dl) ?b 24 = Inr (chunk 24 (unat dl) ?b)"
      using True win by (simp add: get_bytes_inside)
    have vs: "read_values (unat ol) ?b (28 + unat dl) = Inr x \<Longrightarrow>
        read_values (unat ol) mem (base + (28 + unat dl)) = Inr x" for x
      using read_values_Inr [of "unat ol" ?b "28 + unat dl" x] True win
        read_values_window [of "28 + unat dl" "unat ol" sz base mem]
      by (cases "unat ol = 0") auto
    show ?thesis
      using \<open>\<not> sz < 28\<close> assms True
      by (auto simp: deserialize_raw_def deserialize_def hdr dl d d' ol ol' Let_def get_be_inside
          bind_res_eq_Inr add.assoc dest: vs split: if_splits)
  qed
qed

text \<open>
  A concrete message, with a batch of bytes and three ordering values, for the
  instances of the properties.
\<close>

definition sample_message :: message where
  "sample_message = build_message (code APPEND) 0 7 42 [1, 2, 3] [10, 20, 30]"

lemma sample_message_fits: "fits sample_message"
  by (simp add: sample_message_def fits_def build_message_def MAX_MESSAGE_SIZE_def)

theorem deserialize_sound_witness:
  "\<exists>rest. serialize sample_message @ [9] = serialize sample_message @ rest \<and> fits sample_message"
proof -
  have fit: "fits sample_message"
    by (rule sample_message_fits)
  have "deserialize (serialize sample_message @ [9]) = Inr (Some sample_message)"
    using fit by (rule deserialize_serialize_append)
  moreover have "length (serialize sample_message @ [9]) \<le> MAX_MESSAGE_SIZE"
    unfolding serialize_layout [OF fit]
    by (simp add: sample_message_def build_message_def MAX_MESSAGE_SIZE_def)
  ultimately show ?thesis
    using deserialize_sound by blast
qed

text \<open>
  C27: every message whose encoding fits in 65535 bytes is encoded, and decoding its
  encoding, whatever bytes follow it in the buffer, gives the message back.
\<close>

theorem message_roundtrip:
  assumes "fits m"
  shows "serialize m \<noteq> [] \<and> deserialize (serialize m @ junk) = Inr (Some m)"
  using deserialize_serialize_append [OF assms] serialize_layout [OF assms]
  by (metis length_layout list.size(3) add_is_0 zero_neq_numeral)

theorem message_roundtrip_witness:
  "serialize sample_message \<noteq> [] \<and>
   deserialize (serialize sample_message @ [5]) = Inr (Some sample_message)"
  using message_roundtrip [OF sample_message_fits] by blast

text \<open>
  The encoder refuses exactly the messages over 65535 bytes, as long as their size
  is below \<open>2 ^ 32\<close>, where the \<^verbatim>\<open>uint32_t\<close> size computation is exact.
\<close>

theorem serialize_rejects_oversized:
  assumes "28 + length (msg_data m) + 8 * length (ordering_values m) < 2 ^ 32"
  shows "serialize m = [] \<longleftrightarrow> \<not> fits m"
proof (cases "fits m")
  case True
  then show ?thesis
    by (metis serialize_layout length_layout list.size(3) add_is_0 zero_neq_numeral)
next
  case False
  then show ?thesis
    using struct_size_exact [OF assms]
    by (simp add: serialize_def fits_def MAX_MESSAGE_SIZE_def word_less_nat_alt)
qed

theorem serialize_rejects_oversized_witness:
  "serialize (sample_message\<lparr>msg_data := replicate 65530 0\<rparr>) = []"
  using serialize_rejects_oversized [of "sample_message\<lparr>msg_data := replicate 65530 0\<rparr>"]
  by (simp add: sample_message_def build_message_def fits_def MAX_MESSAGE_SIZE_def)

text \<open>
  C40: the validity check on the number of ordering values multiplies a \<^verbatim>\<open>uint32_t\<close> by
  8 and wraps. A 28-byte message that claims \<open>2 ^ 29\<close> values passes it and is then
  read outside the buffer; and this is the only way the decoder faults: a count below
  \<open>2 ^ 29\<close> never does.
\<close>

theorem deserialize_count_overflow:
  "deserialize (layout t sh sd s 0 [] 0x20000000 []) = Inl OutOfBounds \<and>
   (unat ol < 2 ^ 29 \<longrightarrow> unat dl = length d \<longrightarrow>
     deserialize (layout t sh sd s dl d ol rest) \<noteq> Inl e)"
proof (intro conjI impI notI)
  show "deserialize (layout t sh sd s 0 [] 0x20000000 []) = Inl OutOfBounds"
    by (simp add: decode_fault)
next
  assume ol: "unat ol < 2 ^ 29" and "unat dl = length d"
    and "deserialize (layout t sh sd s dl d ol rest) = Inl e"
  then have "unat (ol * 8) \<le> length rest" "length rest < 8 * unat ol"
    by (simp_all add: decode_fault)
  moreover have "unat (ol * 8) = 8 * unat ol"
    using ol by (simp add: unat_word_ariths)
  ultimately show False by simp
qed

theorem deserialize_count_overflow_witness:
  "deserialize (layout 0 0 0 1 0 [] 1 (be_bytes 8 (5 :: u64))) \<noteq> Inl OutOfBounds"
  using deserialize_count_overflow [of _ _ _ _ 1 0 "[]"] by simp

section \<open>Accessors\<close>

text \<open>
  The messages of the freeze protocol are filled by \<^verbatim>\<open>set_failed_proxy\<close>,
  \<^verbatim>\<open>set_round\<close> and \<^verbatim>\<open>set_sequence_number\<close> in this order, and the three getters then
  return what was set; a sequence number set before the proxy is lost, and reading
  it fails the assertion.
\<close>

theorem freeze_fields:
  assumes "msg_type m \<in> {code FREEZE_RESPONSE, code TRANSFER_REQUEST}"
  shows "(\<exists>m'. bind_res (set_failed_proxy p m)
        (\<lambda>m. bind_res (set_round r m) (set_sequence_number s)) = Inr m' \<and>
      get_failed_proxy m' = Inr p \<and> get_round m' = Inr (to_int r) \<and>
      get_sequence_number m' = Inr s) \<and>
    (\<exists>m'. bind_res (set_sequence_number s m) (set_failed_proxy p) = Inr m' \<and>
      get_sequence_number m' = Inl AssertFailed)"
  using assms
  by (auto simp: set_failed_proxy_def set_round_def set_sequence_number_def get_failed_proxy_def
      get_round_def get_sequence_number_def resize2_def)

theorem freeze_fields_witness:
  "\<exists>m'. bind_res (set_sequence_number 9 (sample_message\<lparr>msg_type := code FREEZE_RESPONSE\<rparr>))
      (set_failed_proxy 3) = Inr m' \<and> get_sequence_number m' = Inl AssertFailed"
  using freeze_fields [of "sample_message\<lparr>msg_type := code FREEZE_RESPONSE\<rparr>"] by simp

end
