(* ===== verification/Framing.thy ===== *)
theory Framing
  imports Message "HOL-Library.Sublist"
begin

text \<open>
  \<^verbatim>\<open>api/network_utils.h\<close> and \<^verbatim>\<open>api/network_utils.cpp\<close>: framing of messages on a byte
  stream. A frame is a two-byte length and that many bytes. The theory has the two
  ways to write a frame, the \<^verbatim>\<open>ReadBuffer\<close> with its spinning refill, and the readers
  built on it and on plain \<^verbatim>\<open>recv\<close>.

  The operating system is a parameter: a socket being read is the list of what
  successive \<^verbatim>\<open>recv\<close> calls will find, and a socket being written is told how many
  bytes each \<^verbatim>\<open>sendmsg\<close> accepts.
\<close>

section \<open>Sockets\<close>

text \<open>
  \<open>Data bs\<close>: these bytes have arrived. \<open>Again\<close>: nothing is there, the call fails with
  \<^verbatim>\<open>EAGAIN\<close>. \<open>Closed\<close>: the peer has closed the connection or it failed.
  An exhausted list is a peer that stays silent for ever.
\<close>

datatype recv_event = Data "byte list" | Again | Closed

type_synonym socket_in = "recv_event list"

text \<open>Bytes that a short read leaves in the socket.\<close>

definition unread_event :: "byte list \<Rightarrow> socket_in \<Rightarrow> socket_in" where
  "unread_event bs evs = (if bs = [] then evs else Data bs # evs)"

text \<open>All bytes that will arrive before the connection is closed.\<close>

fun arriving :: "socket_in \<Rightarrow> byte list" where
  "arriving [] = []"
| "arriving (Data bs # evs) = bs @ arriving evs"
| "arriving (Again # evs) = arriving evs"
| "arriving (Closed # evs) = []"

text \<open>\<^verbatim>\<open>recv\<close> returns 0 only for a closed connection: no event carries no bytes.\<close>

definition proper :: "socket_in \<Rightarrow> bool" where
  "proper evs \<longleftrightarrow> Data [] \<notin> set evs"

fun volume :: "socket_in \<Rightarrow> nat" where
  "volume [] = 0"
| "volume (Data bs # evs) = Suc (length bs + volume evs)"
| "volume (Again # evs) = Suc (volume evs)"
| "volume (Closed # evs) = Suc (volume evs)"

lemma arriving_unread [simp]: "arriving (unread_event bs evs) = bs @ arriving evs"
  by (simp add: unread_event_def)

lemma proper_unread [simp]: "proper (unread_event bs evs) \<longleftrightarrow> proper evs"
  by (auto simp: unread_event_def proper_def)

lemma proper_Cons: "proper (e # evs) \<longleftrightarrow> e \<noteq> Data [] \<and> proper evs"
  by (auto simp: proper_def)

section \<open>Writing frames\<close>

text \<open>
  The length prefix and the serialized bytes are handed to one \<^verbatim>\<open>sendmsg\<close>;
  \<open>accepted\<close> is what that call returns. The result is what reached the wire and the
  return value.
\<close>

definition frame :: "byte list \<Rightarrow> byte list" where
  "frame body = be_bytes 2 (of_nat (length body) :: u16) @ body"

definition send_message :: "int \<Rightarrow> message \<Rightarrow> byte list \<times> bool" where
  "send_message accepted m =
    (let serialized = serialize m in
     if serialized = [] then ([], False)
     else (take (nat accepted) (frame serialized), accepted = 2 + int (length serialized)))"

definition send_bytes_raw :: "int \<Rightarrow> byte list \<Rightarrow> byte list \<times> bool" where
  "send_bytes_raw accepted bytes = (take (nat accepted) bytes, accepted = int (length bytes))"

text \<open>
  \<^verbatim>\<open>send_bytes\<close> loops over partial sends; \<open>rs\<close> are the results of the successive
  calls, an exhausted list a call that blocks for ever.
\<close>

fun send_bytes :: "int list \<Rightarrow> byte list \<Rightarrow> (byte list \<times> bool) option" where
  "send_bytes rs [] = Some ([], True)"
| "send_bytes [] (b # bs) = None"
| "send_bytes (r # rs) (b # bs) =
    (if r \<le> 0 then Some ([], False)
     else map_option (\<lambda>(out, ok). (take (nat r) (b # bs) @ out, ok))
            (send_bytes rs (drop (nat r) (b # bs))))"

definition send_message_og :: "int list \<Rightarrow> int list \<Rightarrow> message \<Rightarrow> (byte list \<times> bool) option" where
  "send_message_og rs1 rs2 m =
    (let serialized = serialize m in
     if serialized = [] then Some ([], False)
     else case send_bytes rs1 (be_bytes 2 (of_nat (length serialized) :: u16)) of
       None \<Rightarrow> None
     | Some (out, False) \<Rightarrow> Some (out, False)
     | Some (out, True) \<Rightarrow> map_option (\<lambda>(out', ok). (out @ out', ok)) (send_bytes rs2 serialized))"

text \<open>
  \<^verbatim>\<open>build_wire_bytes\<close> assembles the frame directly in a zero-filled vector, with no
  ordering values; the data is a pointer that may be null.
\<close>

definition build_wire_bytes ::
  "u32 \<Rightarrow> shard_id \<Rightarrow> node_id \<Rightarrow> seq_num \<Rightarrow> byte list option \<Rightarrow> nat \<Rightarrow> byte list" where
  "build_wire_bytes t sh sd s src data_len =
    (let payload = 4 + 4 + 4 + 8 + 4 + data_len + 4;
         hdr = be_bytes 2 (of_nat payload :: u16) @ be_bytes 4 t @ be_bytes 4 sh @ be_bytes 4 sd
           @ be_bytes 8 s @ be_bytes 4 (of_nat data_len :: u32)
     in case src of
          Some d \<Rightarrow> hdr @ take data_len d @ be_bytes 4 (0 :: u32)
        | None \<Rightarrow> hdr @ be_bytes 4 (0 :: u32) @ replicate data_len 0)"

section \<open>The read buffer\<close>

definition CAPACITY :: nat where
  "CAPACITY = MAX_MESSAGE_SIZE * 2"

record read_buffer =
  rb_buf :: "byte list"
  rb_head :: nat
  rb_tail :: nat

definition available :: "read_buffer \<Rightarrow> nat" where
  "available rb = rb_tail rb - rb_head rb"

definition rb_reset :: "read_buffer \<Rightarrow> read_buffer" where
  "rb_reset rb = rb\<lparr>rb_head := 0, rb_tail := 0\<rparr>"

definition consume :: "nat \<Rightarrow> read_buffer \<Rightarrow> read_buffer" where
  "consume n rb =
    (let rb' = rb\<lparr>rb_head := rb_head rb + n\<rparr>
     in if rb_head rb' = rb_tail rb' then rb_reset rb' else rb')"

text \<open>The first part of \<^verbatim>\<open>refill_spin\<close>: move the unread bytes to the front.\<close>

definition shift_down :: "read_buffer \<Rightarrow> read_buffer" where
  "shift_down rb =
    (if CAPACITY div 2 < rb_head rb
     then let avail = available rb in
       rb\<lparr>rb_buf := blit (rb_buf rb) 0 (chunk (rb_head rb) avail (rb_buf rb)),
          rb_tail := avail, rb_head := 0\<rparr>
     else rb)"

text \<open>
  The second part spins on a non-blocking \<^verbatim>\<open>recv\<close> of at most \<open>CAPACITY - tail\<close>
  bytes. A \<^verbatim>\<open>recv\<close> of 0 bytes returns 0, which the code takes for a closed
  connection. \<open>None\<close> is a spin that never ends.
\<close>

fun recv_spin :: "read_buffer \<Rightarrow> socket_in \<Rightarrow> (bool \<times> read_buffer \<times> socket_in) option" where
  "recv_spin rb [] = None"
| "recv_spin rb (Again # evs) = recv_spin rb evs"
| "recv_spin rb (Closed # evs) = Some (False, rb, Closed # evs)"
| "recv_spin rb (Data bs # evs) =
    (let room = CAPACITY - rb_tail rb; got = take room bs in
     if got = [] then Some (False, rb, Data bs # evs)
     else Some (True, rb\<lparr>rb_buf := blit (rb_buf rb) (rb_tail rb) got,
                        rb_tail := rb_tail rb + length got\<rparr>,
                unread_event (drop room bs) evs))"

definition refill_spin :: "read_buffer \<Rightarrow> socket_in \<Rightarrow> (bool \<times> read_buffer \<times> socket_in) option" where
  "refill_spin rb evs = recv_spin (shift_down rb) evs"

lemma volume_unread: "volume (unread_event bs evs) \<le> Suc (length bs + volume evs)"
  by (simp add: unread_event_def)

lemma recv_spin_volume: "recv_spin rb evs = Some (True, rb', evs') \<Longrightarrow> volume evs' < volume evs"
proof (induction rb evs rule: recv_spin.induct)
  case (4 rb bs evs)
  then show ?case
    by (auto simp: Let_def unread_event_def split: if_splits)
qed auto

text \<open>\<^verbatim>\<open>while (rb.available() < need) if (!rb.refill_spin(socket)) return ...\<close>\<close>

function fill_to :: "nat \<Rightarrow> read_buffer \<Rightarrow> socket_in \<Rightarrow> (bool \<times> read_buffer \<times> socket_in) option" where
  "fill_to need rb evs =
    (if available rb < need then
       (case refill_spin rb evs of
          None \<Rightarrow> None
        | Some (False, rb', evs') \<Rightarrow> Some (False, rb', evs')
        | Some (True, rb', evs') \<Rightarrow> fill_to need rb' evs')
     else Some (True, rb, evs))"
  by pat_completeness auto
termination
  by (relation "measure (\<lambda>(need, rb, evs). volume evs)")
    (auto simp: refill_spin_def dest: recv_spin_volume)

declare fill_to.simps [simp del]

text \<open>
  \<^verbatim>\<open>recv_raw_buffered\<close>: \<open>Some (Some n, rb, \<dots>)\<close> is a pointer to \<open>n\<close> bytes at
  \<open>rb_head rb + 2\<close>, \<open>Some (None, \<dots>)\<close> a null pointer.
\<close>

definition frame_length :: "read_buffer \<Rightarrow> nat" where
  "frame_length rb = unat (be_word (chunk (rb_head rb) 2 (rb_buf rb)) :: u16)"

definition recv_raw_buffered ::
  "read_buffer \<Rightarrow> socket_in \<Rightarrow> (nat option \<times> read_buffer \<times> socket_in) option" where
  "recv_raw_buffered rb evs =
    (case fill_to 2 rb evs of
       None \<Rightarrow> None
     | Some (False, rb, evs) \<Rightarrow> Some (None, rb, evs)
     | Some (True, rb, evs) \<Rightarrow>
         let len = frame_length rb in
         if MAX_MESSAGE_SIZE < len then Some (None, rb, evs)
         else case fill_to (2 + len) rb evs of
           None \<Rightarrow> None
         | Some (False, rb, evs) \<Rightarrow> Some (None, rb, evs)
         | Some (True, rb, evs) \<Rightarrow> Some (Some len, rb, evs))"

definition recv_message_buffered ::
  "read_buffer \<Rightarrow> socket_in \<Rightarrow> (fault + message option \<times> read_buffer \<times> socket_in) option" where
  "recv_message_buffered rb evs =
    (case fill_to 2 rb evs of
       None \<Rightarrow> None
     | Some (False, rb, evs) \<Rightarrow> Some (Inr (None, rb, evs))
     | Some (True, rb, evs) \<Rightarrow>
         let len = frame_length rb in
         if MAX_MESSAGE_SIZE < len then Some (Inr (None, rb, evs))
         else case fill_to (2 + len) rb evs of
           None \<Rightarrow> None
         | Some (False, rb, evs) \<Rightarrow> Some (Inr (None, rb, evs))
         | Some (True, rb, evs) \<Rightarrow>
             Some (map_res (\<lambda>r. (r, consume (2 + len) rb, evs))
               (deserialize_raw (rb_buf rb) (rb_head rb + 2) len)))"

text \<open>\<^verbatim>\<open>peek_header\<close>: a header that has already arrived, without consuming it.\<close>

definition peek_header :: "read_buffer \<Rightarrow> fault + message_header option" where
  "peek_header rb =
    (if available rb < 2 + HEADER_SIZE then Inr None
     else peek_header_at (rb_buf rb) (rb_head rb + 2) (available rb - 2))"

text \<open>
  \<^verbatim>\<open>get_data_ptr\<close>: the offset of the data and the length the message claims; nothing
  relates that length to the length of the message.
\<close>

definition get_data_ptr :: "byte list \<Rightarrow> nat \<Rightarrow> nat \<Rightarrow> fault + (nat option \<times> nat)" where
  "get_data_ptr mem base msg_len =
    (if msg_len < 24 then Inr (None, 0)
     else map_res (\<lambda>data_len :: u32. (Some (base + 24), unat data_len)) (get_be 4 mem (base + 20)))"

section \<open>Reading with plain recv\<close>

fun recv_bytes :: "nat \<Rightarrow> socket_in \<Rightarrow> (byte list option \<times> socket_in) option" where
  "recv_bytes n evs =
    (if n = 0 then Some (Some [], evs)
     else case evs of
       [] \<Rightarrow> None
     | Again # evs' \<Rightarrow> Some (None, evs')
     | Closed # evs' \<Rightarrow> Some (None, evs)
     | Data bs # evs' \<Rightarrow>
         if bs = [] then Some (None, evs')
         else if n \<le> length bs then Some (Some (take n bs), unread_event (drop n bs) evs')
         else map_option (\<lambda>(r, evs). (map_option ((@) bs) r, evs)) (recv_bytes (n - length bs) evs'))"

fun recv_bytes_spin :: "nat \<Rightarrow> socket_in \<Rightarrow> (byte list option \<times> socket_in) option" where
  "recv_bytes_spin n evs =
    (if n = 0 then Some (Some [], evs)
     else case evs of
       [] \<Rightarrow> None
     | Again # evs' \<Rightarrow> recv_bytes_spin n evs'
     | Closed # evs' \<Rightarrow> Some (None, evs)
     | Data bs # evs' \<Rightarrow>
         if bs = [] then Some (None, evs')
         else if n \<le> length bs then Some (Some (take n bs), unread_event (drop n bs) evs')
         else map_option (\<lambda>(r, evs). (map_option ((@) bs) r, evs))
                (recv_bytes_spin (n - length bs) evs'))"

declare recv_bytes.simps [simp del] recv_bytes_spin.simps [simp del]

definition recv_message :: "socket_in \<Rightarrow> (fault + message option \<times> socket_in) option" where
  "recv_message evs =
    (case recv_bytes 2 evs of
       None \<Rightarrow> None
     | Some (None, evs) \<Rightarrow> Some (Inr (None, evs))
     | Some (Some pre, evs) \<Rightarrow>
         let msg_len = unat (be_word pre :: u16) in
         if MAX_MESSAGE_SIZE < msg_len then Some (Inr (None, evs))
         else case recv_bytes msg_len evs of
           None \<Rightarrow> None
         | Some (None, evs) \<Rightarrow> Some (Inr (None, evs))
         | Some (Some body, evs) \<Rightarrow> Some (map_res (\<lambda>r. (r, evs)) (deserialize body)))"

definition recv_message_spin :: "socket_in \<Rightarrow> (fault + message option \<times> socket_in) option" where
  "recv_message_spin evs =
    (case recv_bytes_spin 2 evs of
       None \<Rightarrow> None
     | Some (None, evs) \<Rightarrow> Some (Inr (None, evs))
     | Some (Some pre, evs) \<Rightarrow>
         let msg_len = unat (be_word pre :: u16) in
         if MAX_MESSAGE_SIZE < msg_len then Some (Inr (None, evs))
         else case recv_bytes_spin msg_len evs of
           None \<Rightarrow> None
         | Some (None, evs) \<Rightarrow> Some (Inr (None, evs))
         | Some (Some body, evs) \<Rightarrow> Some (map_res (\<lambda>r. (r, evs)) (deserialize body)))"

section \<open>The read buffer as a queue of bytes\<close>

definition rb_inv :: "read_buffer \<Rightarrow> bool" where
  "rb_inv rb \<longleftrightarrow> rb_head rb \<le> rb_tail rb \<and> rb_tail rb \<le> CAPACITY \<and> length (rb_buf rb) = CAPACITY"

definition pending :: "read_buffer \<Rightarrow> byte list" where
  "pending rb = chunk (rb_head rb) (available rb) (rb_buf rb)"

text \<open>The bytes not yet consumed: those in the buffer and those still to arrive.\<close>

definition stream :: "read_buffer \<Rightarrow> socket_in \<Rightarrow> byte list" where
  "stream rb evs = pending rb @ arriving evs"

definition fresh_buffer :: "byte list \<Rightarrow> read_buffer" where
  "fresh_buffer junk = \<lparr>rb_buf = junk, rb_head = 0, rb_tail = 0\<rparr>"

text \<open>The largest body that every state of the buffer can take.\<close>

definition safe_body :: nat where
  "safe_body = CAPACITY - CAPACITY div 2 - 2"

text \<open>On a blocking socket \<^verbatim>\<open>recv\<close> does not fail with \<^verbatim>\<open>EAGAIN\<close>.\<close>

definition blocking :: "socket_in \<Rightarrow> bool" where
  "blocking evs \<longleftrightarrow> Again \<notin> set evs"

text \<open>Reading one message after the other from a connection.\<close>

fun receive_many :: "nat \<Rightarrow> read_buffer \<Rightarrow> socket_in \<Rightarrow> (message list \<times> read_buffer \<times> socket_in) option"
where
  "receive_many 0 rb evs = Some ([], rb, evs)"
| "receive_many (Suc k) rb evs =
    (case recv_message_buffered rb evs of
       Some (Inr (Some m, rb, evs)) \<Rightarrow>
         map_option (\<lambda>(ms, r). (m # ms, r)) (receive_many k rb evs)
     | _ \<Rightarrow> None)"

lemma rb_inv_fresh: "length junk = CAPACITY \<Longrightarrow> rb_inv (fresh_buffer junk)"
  by (simp add: rb_inv_def fresh_buffer_def)

lemma stream_fresh [simp]: "stream (fresh_buffer junk) evs = arriving evs"
  by (simp add: stream_def pending_def available_def fresh_buffer_def)

lemma length_pending [simp]: "rb_inv rb \<Longrightarrow> length (pending rb) = available rb"
  by (simp add: pending_def rb_inv_def available_def)

lemma shift_down_facts:
  assumes "rb_inv rb"
  shows "rb_inv (shift_down rb)" "pending (shift_down rb) = pending rb"
    "available (shift_down rb) = available rb" "rb_head (shift_down rb) \<le> CAPACITY div 2"
proof -
  define xs where "xs = chunk (rb_head rb) (rb_tail rb - rb_head rb) (rb_buf rb)"
  have xs: "length xs = rb_tail rb - rb_head rb"
    using length_pending [OF assms] by (simp add: pending_def available_def xs_def)
  have "chunk 0 (rb_tail rb - rb_head rb) (blit (rb_buf rb) 0 xs) = xs"
    using chunk_blit_same [of 0 "rb_buf rb" xs] xs by simp
  then show "rb_inv (shift_down rb)" "pending (shift_down rb) = pending rb"
    "available (shift_down rb) = available rb" "rb_head (shift_down rb) \<le> CAPACITY div 2"
    using assms xs
    by (auto simp: shift_down_def rb_inv_def pending_def available_def Let_def simp flip: xs_def)
qed

lemma recv_spin_keeps:
  "recv_spin rb evs = Some (ok, rb', evs') \<Longrightarrow> rb_inv rb \<Longrightarrow>
    rb_inv rb' \<and> stream rb' evs' = stream rb evs \<and> (proper evs \<longrightarrow> proper evs')"
proof (induction rb evs rule: recv_spin.induct)
  case (4 rb bs evs)
  define got where "got = take (CAPACITY - rb_tail rb) bs"
  have split: "bs = got @ drop (CAPACITY - rb_tail rb) bs"
    by (simp add: got_def)
  show ?case
  proof (cases "got = []")
    case True
    then have "CAPACITY \<le> rb_tail rb \<or> bs = []"
      by (auto simp: got_def)
    with 4 show ?thesis by simp
  next
    case False
    have fits: "rb_tail rb + length got \<le> CAPACITY"
      using "4.prems"(2) by (auto simp: got_def rb_inv_def)
    let ?rb = "rb\<lparr>rb_buf := blit (rb_buf rb) (rb_tail rb) got, rb_tail := rb_tail rb + length got\<rparr>"
    have "pending ?rb = pending rb @ got"
      using chunk_blit_suffix [of "rb_head rb" "available rb" "rb_tail rb" "rb_buf rb" got]
        "4.prems" by (simp add: pending_def available_def rb_inv_def)
    moreover have "recv_spin rb (Data bs # evs)
        = Some (True, ?rb, unread_event (drop (CAPACITY - rb_tail rb) bs) evs)"
      using False by (simp only: recv_spin.simps Let_def flip: got_def) simp
    then have "rb' = ?rb" "evs' = unread_event (drop (CAPACITY - rb_tail rb) bs) evs"
      using "4.prems"(1) by simp_all
    moreover have "rb_inv ?rb"
      using "4.prems"(2) fits by (simp add: rb_inv_def)
    ultimately show ?thesis
      using split by (simp add: stream_def proper_Cons)
  qed
qed (auto simp: stream_def proper_def)

lemma recv_spin_progress:
  "proper evs \<Longrightarrow> arriving evs \<noteq> [] \<Longrightarrow> rb_tail rb < CAPACITY \<Longrightarrow>
    \<exists>rb' evs'. recv_spin rb evs = Some (True, rb', evs')"
  by (induction rb evs rule: recv_spin.induct) (auto simp: proper_Cons Let_def)

lemma fill_to_enough:
  assumes "rb_inv rb" and "proper evs" and "need \<le> length (stream rb evs)"
    and "need \<le> CAPACITY - CAPACITY div 2"
  shows "\<exists>rb' evs'. fill_to need rb evs = Some (True, rb', evs') \<and> rb_inv rb' \<and> proper evs' \<and>
    stream rb' evs' = stream rb evs \<and> need \<le> available rb'"
  using assms
proof (induction need rb evs rule: fill_to.induct)
  case (1 need rb evs)
  show ?case
  proof (cases "available rb < need")
    case False
    with 1 show ?thesis by (simp add: fill_to.simps [of need rb evs])
  next
    case True
    let ?rb = "shift_down rb"
    note shift = shift_down_facts [OF \<open>rb_inv rb\<close>]
    have "rb_tail ?rb < CAPACITY"
      using shift True "1.prems"(4) by (simp add: rb_inv_def available_def)
    moreover have "arriving evs \<noteq> []"
      using True "1.prems"(1,3) by (auto simp: stream_def)
    ultimately obtain rb' evs' where step: "recv_spin ?rb evs = Some (True, rb', evs')"
      using recv_spin_progress "1.prems"(2) by blast
    have keep: "rb_inv rb'" "stream rb' evs' = stream rb evs" "proper evs'"
      using recv_spin_keeps [OF step shift(1)] shift(2) "1.prems"(2) by (auto simp: stream_def)
    have "fill_to need rb evs = fill_to need rb' evs'"
      using True step by (simp add: fill_to.simps [of need rb evs] refill_spin_def)
    moreover have "\<exists>rb'' evs''. fill_to need rb' evs' = Some (True, rb'', evs'') \<and> rb_inv rb'' \<and>
        proper evs'' \<and> stream rb'' evs'' = stream rb' evs' \<and> need \<le> available rb''"
      using True step keep "1.prems"(3,4) by (intro "1.IH") (simp_all add: refill_spin_def)
    ultimately show ?thesis
      using keep by auto
  qed
qed

section \<open>Frames\<close>

lemma length_frame [simp, wire_simps]: "length (frame body) = 2 + length body"
  by (simp add: frame_def)

lemma frame_not_Nil [simp]: "frame body \<noteq> []"
  using length_frame [of body] by (metis add_is_0 list.size(3) zero_neq_numeral)

lemma chunk_stream:
  assumes "rb_inv rb" and "i + n \<le> available rb"
  shows "chunk (rb_head rb + i) n (rb_buf rb) = chunk i n (stream rb evs)"
proof -
  have "chunk i n (stream rb evs) = chunk i n (pending rb)"
    using assms by (simp add: stream_def chunk_def)
  then show ?thesis
    using assms by (simp add: pending_def chunk_chunk)
qed

lemma frame_length_stream:
  assumes "rb_inv rb" and "2 \<le> available rb" and "stream rb evs = frame body @ rest"
    and "length body \<le> MAX_MESSAGE_SIZE"
  shows "frame_length rb = length body"
proof -
  have "chunk (rb_head rb) 2 (rb_buf rb) = chunk 0 2 (frame body @ rest)"
    using chunk_stream [OF assms(1), of 0 2 evs] assms(2,3) by simp
  also have "\<dots> = be_bytes 2 (of_nat (length body) :: u16)"
    by (simp add: chunk_def frame_def)
  finally show ?thesis
    using assms(4) by (simp add: frame_length_def unat_of_nat_eq MAX_MESSAGE_SIZE_def)
qed

lemma consume_keeps:
  assumes "rb_inv rb" and "n \<le> available rb"
  shows "rb_inv (consume n rb)" "stream (consume n rb) evs = drop n (stream rb evs)"
proof -
  have "chunk (rb_head rb) (available rb) (rb_buf rb)
      = chunk (rb_head rb) n (rb_buf rb) @ chunk (rb_head rb + n) (available rb - n) (rb_buf rb)"
    using assms(2) chunk_append [of "rb_head rb" n "available rb - n" "rb_buf rb"] by simp
  moreover have "length (chunk (rb_head rb) n (rb_buf rb)) = n"
    using assms by (intro length_chunk) (auto simp: rb_inv_def available_def)
  ultimately have "drop n (pending rb) = chunk (rb_head rb + n) (available rb - n) (rb_buf rb)"
    by (simp add: pending_def)
  with assms show "rb_inv (consume n rb)" "stream (consume n rb) evs = drop n (stream rb evs)"
    by (auto simp: consume_def Let_def rb_inv_def rb_reset_def stream_def pending_def available_def)
qed

lemma receive_frame:
  assumes inv: "rb_inv rb" "proper evs" and str: "stream rb evs = frame body @ rest"
    and len: "length body \<le> safe_body"
  shows "\<exists>rb' evs'. fill_to 2 rb evs \<noteq> None \<and>
    recv_raw_buffered rb evs = Some (Some (length body), rb', evs') \<and>
    rb_inv rb' \<and> proper evs' \<and> 2 + length body \<le> available rb' \<and>
    stream rb' evs' = frame body @ rest"
proof -
  have small: "2 + length body \<le> CAPACITY - CAPACITY div 2" "length body \<le> MAX_MESSAGE_SIZE"
    using len by (simp_all add: safe_body_def CAPACITY_def MAX_MESSAGE_SIZE_def)
  obtain rb1 evs1 where one: "fill_to 2 rb evs = Some (True, rb1, evs1)" "rb_inv rb1"
    "proper evs1" "stream rb1 evs1 = frame body @ rest" "2 \<le> available rb1"
    using fill_to_enough [OF inv, of 2] str small by auto
  have fl: "frame_length rb1 = length body"
    using frame_length_stream [OF one(2,5,4)] small by simp
  obtain rb2 evs2 where two: "fill_to (2 + length body) rb1 evs1 = Some (True, rb2, evs2)"
    "rb_inv rb2" "proper evs2" "stream rb2 evs2 = frame body @ rest"
    "2 + length body \<le> available rb2"
    using fill_to_enough [OF one(2,3), of "2 + length body"] one(4) small by auto
  show ?thesis
    using one two fl small by (simp add: recv_raw_buffered_def Let_def)
qed

lemma body_in_buffer:
  assumes "rb_inv rb" and "stream rb evs = frame body @ rest" and "2 + length body \<le> available rb"
  shows "chunk (rb_head rb + 2) (length body) (rb_buf rb) = body"
proof -
  have "chunk (rb_head rb + 2) (length body) (rb_buf rb) = chunk 2 (length body) (frame body @ rest)"
    using chunk_stream [OF assms(1), of 2 "length body" evs] assms(2,3) by simp
  then show ?thesis by (simp add: chunk_def frame_def)
qed

text \<open>A buffered read of a whole message, from any split of the stream into reads.\<close>

lemma receive_message:
  assumes inv: "rb_inv rb" "proper evs" and str: "stream rb evs = frame (serialize m) @ rest"
    and m: "fits m" and len: "length (serialize m) \<le> safe_body"
  shows "\<exists>rb' evs'. recv_message_buffered rb evs = Some (Inr (Some m, rb', evs')) \<and>
    rb_inv rb' \<and> proper evs' \<and> stream rb' evs' = rest"
proof -
  let ?b = "serialize m"
  have small: "2 + length ?b \<le> CAPACITY - CAPACITY div 2" "length ?b \<le> MAX_MESSAGE_SIZE"
    using len by (simp_all add: safe_body_def CAPACITY_def MAX_MESSAGE_SIZE_def)
  obtain rb1 evs1 where one: "fill_to 2 rb evs = Some (True, rb1, evs1)" "rb_inv rb1"
    "proper evs1" "stream rb1 evs1 = frame ?b @ rest" "2 \<le> available rb1"
    using fill_to_enough [OF inv, of 2] str small by auto
  have fl: "frame_length rb1 = length ?b"
    using frame_length_stream [OF one(2,5,4)] small by simp
  obtain rb2 evs2 where two: "fill_to (2 + length ?b) rb1 evs1 = Some (True, rb2, evs2)"
    "rb_inv rb2" "proper evs2" "stream rb2 evs2 = frame ?b @ rest" "2 + length ?b \<le> available rb2"
    using fill_to_enough [OF one(2,3), of "2 + length ?b"] one(4) small by auto
  have "rb_head rb2 + 2 + length ?b \<le> length (rb_buf rb2)"
    using two(2,5) by (auto simp: rb_inv_def available_def)
  moreover have "deserialize (chunk (rb_head rb2 + 2) (length ?b) (rb_buf rb2)) = Inr (Some m)"
    using body_in_buffer [OF two(2,4,5)] deserialize_serialize_append [OF m, of "[]"] by simp
  ultimately have "deserialize_raw (rb_buf rb2) (rb_head rb2 + 2) (length ?b) = Inr (Some m)"
    by (rule raw_agrees)
  then show ?thesis
    using one two fl small consume_keeps [OF two(2,5)]
    by (simp add: recv_message_buffered_def Let_def)
qed

section \<open>Reading without a buffer\<close>

lemma blocking_unread [simp]: "blocking (unread_event bs evs) \<longleftrightarrow> blocking evs"
  by (auto simp: unread_event_def blocking_def)

lemma recv_bytes_enough:
  "proper evs \<Longrightarrow> blocking evs \<Longrightarrow> n \<le> length (arriving evs) \<Longrightarrow>
    \<exists>evs'. recv_bytes n evs = Some (Some (take n (arriving evs)), evs') \<and>
      proper evs' \<and> blocking evs' \<and> arriving evs' = drop n (arriving evs)"
proof (induction n evs rule: recv_bytes.induct)
  case (1 n evs)
  show ?case
  proof (cases "n = 0")
    case True
    with "1.prems" show ?thesis by (simp add: recv_bytes.simps [of 0 evs])
  next
    case False
    with "1.prems" obtain bs evs' where evs: "evs = Data bs # evs'" "bs \<noteq> []"
      by (cases evs; cases "hd evs") (auto simp: blocking_def proper_def)
    show ?thesis
    proof (cases "n \<le> length bs")
      case True
      with \<open>n \<noteq> 0\<close> evs
      have "recv_bytes n evs = Some (Some (take n (arriving evs)), unread_event (drop n bs) evs')"
        by (simp add: recv_bytes.simps [of n "Data bs # evs'"])
      with True evs "1.prems" show ?thesis
        by (simp add: proper_Cons blocking_def [of "Data bs # evs'"] blocking_def [of evs', symmetric])
    next
      case more: False
      have "\<exists>evs''. recv_bytes (n - length bs) evs' = Some (Some (take (n - length bs) (arriving evs')), evs'')
          \<and> proper evs'' \<and> blocking evs'' \<and> arriving evs'' = drop (n - length bs) (arriving evs')"
        using False evs more "1.prems"
        by (intro "1.IH") (auto simp: proper_Cons blocking_def)
      with False evs more show ?thesis
        by (auto simp: recv_bytes.simps [of n "Data bs # evs'"])
    qed
  qed
qed

lemma recv_message_frame:
  assumes "proper evs" and "blocking evs" and str: "arriving evs = frame (serialize m) @ rest"
    and m: "fits m"
  shows "\<exists>evs'. recv_message evs = Some (Inr (Some m, evs')) \<and>
    proper evs' \<and> blocking evs' \<and> arriving evs' = rest"
proof -
  let ?b = "serialize m"
  have len: "length ?b \<le> MAX_MESSAGE_SIZE"
    using m by (simp add: serialize_layout [OF m] fits_def be64.length_encodes)
  obtain evs1 where one: "recv_bytes 2 evs = Some (Some (be_bytes 2 (of_nat (length ?b) :: u16)), evs1)"
    "proper evs1" "blocking evs1" "arriving evs1 = ?b @ rest"
    using recv_bytes_enough [OF assms(1,2), of 2] str by (auto simp: frame_def)
  obtain evs2 where two: "recv_bytes (length ?b) evs1 = Some (Some ?b, evs2)"
    "proper evs2" "blocking evs2" "arriving evs2 = rest"
    using recv_bytes_enough [OF one(2,3), of "length ?b"] one(4) by auto
  have "unat (of_nat (length ?b) :: u16) = length ?b"
    using len by (simp add: unat_of_nat_eq MAX_MESSAGE_SIZE_def)
  then show ?thesis
    using one two len deserialize_serialize_append [OF m, of "[]"]
    by (simp add: recv_message_def Let_def)
qed

section \<open>Direct assembly\<close>

lemma serialize_plain:
  assumes "28 + length d \<le> MAX_MESSAGE_SIZE"
  shows "serialize (build_message t sh sd s d []) = layout t sh sd s (of_nat (length d)) d 0 []"
proof -
  have "fits (build_message t sh sd s d [])"
    using assms by (simp add: fits_def build_message_def)
  from serialize_layout [OF this] show ?thesis
    by (simp add: build_message_def)
qed

lemma wire_bytes_frame:
  assumes "28 + length d \<le> MAX_MESSAGE_SIZE"
  shows "build_wire_bytes t sh sd s (Some d) (length d) = frame (serialize (build_message t sh sd s d []))"
  using assms by (simp add: build_wire_bytes_def Let_def frame_def serialize_plain layout_def)

lemma wire_bytes_frame_null:
  "build_wire_bytes t sh sd s None 0 = frame (serialize (build_message t sh sd s [] []))"
  by (simp add: build_wire_bytes_def Let_def frame_def serialize_plain layout_def MAX_MESSAGE_SIZE_def)

lemma length_build_wire_bytes:
  "length (build_wire_bytes t sh sd s (Some d) (length d)) = 30 + length d"
  "length (build_wire_bytes t sh sd s None n) = 30 + n"
  by (simp_all add: build_wire_bytes_def Let_def)

lemma wire_prefix: "take 2 (build_wire_bytes t sh sd s src n) = be_bytes 2 (of_nat (28 + n) :: u16)"
  by (simp add: build_wire_bytes_def Let_def split: option.splits)

lemma receive_many_messages:
  assumes "rb_inv rb" and "proper evs"
    and "stream rb evs = concat (map (\<lambda>m. frame (serialize m)) ms) @ rest"
    and "\<forall>m \<in> set ms. fits m \<and> length (serialize m) \<le> safe_body"
  shows "\<exists>rb' evs'. receive_many (length ms) rb evs = Some (ms, rb', evs') \<and>
    rb_inv rb' \<and> proper evs' \<and> stream rb' evs' = rest"
  using assms
proof (induction ms arbitrary: rb evs)
  case Nil
  then show ?case by simp
next
  case (Cons m ms)
  obtain rb1 evs1 where one: "recv_message_buffered rb evs = Some (Inr (Some m, rb1, evs1))"
    "rb_inv rb1" "proper evs1" "stream rb1 evs1 = concat (map (\<lambda>m. frame (serialize m)) ms) @ rest"
    using receive_message [OF Cons.prems(1,2), of m "concat (map (\<lambda>m. frame (serialize m)) ms) @ rest"]
      Cons.prems(3,4) by auto
  obtain rb2 evs2 where "receive_many (length ms) rb1 evs1 = Some (ms, rb2, evs2)"
    "rb_inv rb2" "proper evs2" "stream rb2 evs2 = rest"
    using Cons.IH [OF one(2-4)] Cons.prems(4) by auto
  with one(1) show ?case by simp
qed

lemma safe_body_eq: "safe_body = 65533"
  by (simp add: safe_body_def CAPACITY_def MAX_MESSAGE_SIZE_def)

lemma fill_to_done: "need \<le> available rb \<Longrightarrow> fill_to need rb evs = Some (True, rb, evs)"
  by (simp add: fill_to.simps [of need rb evs])

lemma fill_to_full:
  assumes "available rb < need" and "rb_head rb \<le> CAPACITY div 2" and "rb_tail rb = CAPACITY"
  shows "fill_to need rb (Data bs # evs) = Some (False, rb, Data bs # evs)"
  using assms by (simp add: fill_to.simps [of need rb] refill_spin_def shift_down_def)

section \<open>What a successful read has taken\<close>

lemma fill_to_True:
  assumes "fill_to need rb evs = Some (True, rb', evs')" and "rb_inv rb"
  shows "rb_inv rb' \<and> stream rb' evs' = stream rb evs \<and> need \<le> available rb'"
  using assms
proof (induction need rb evs rule: fill_to.induct)
  case (1 need rb evs)
  show ?case
  proof (cases "available rb < need")
    case False
    with "1.prems" show ?thesis by (simp add: fill_to.simps [of need rb evs])
  next
    case True
    note shift = shift_down_facts [OF \<open>rb_inv rb\<close>]
    obtain rb1 evs1 where step: "refill_spin rb evs = Some (True, rb1, evs1)"
      "fill_to need rb1 evs1 = Some (True, rb', evs')"
      using "1.prems"(1) True by (auto simp: fill_to.simps [of need rb evs] split: option.splits bool.splits)
    have "rb_inv rb1 \<and> stream rb1 evs1 = stream rb evs"
      using recv_spin_keeps [OF _ shift(1)] shift(2) step(1) by (auto simp: refill_spin_def stream_def)
    with "1.IH" [OF True step(1) refl] step(2) show ?thesis by simp
  qed
qed

lemma frame_split:
  assumes "rb_inv rb" and "2 + frame_length rb \<le> available rb"
  obtains body where "length body = frame_length rb" "stream rb evs = frame body @ drop (2 + frame_length rb) (stream rb evs)"
    "chunk (rb_head rb + 2) (frame_length rb) (rb_buf rb) = body"
proof -
  let ?n = "frame_length rb"
  define body where "body = chunk (rb_head rb + 2) ?n (rb_buf rb)"
  have len: "length body = ?n"
    unfolding body_def using assms by (intro length_chunk) (auto simp: rb_inv_def available_def)
  have two: "length (chunk (rb_head rb) 2 (rb_buf rb)) = 2"
    using assms by (intro length_chunk) (auto simp: rb_inv_def available_def)
  have "chunk (rb_head rb) 2 (rb_buf rb) = be_bytes 2 (of_nat ?n :: u16)"
    using be_bytes_be_word [OF two, where 'a = 16] by (simp add: frame_length_def)
  then have "frame body = chunk (rb_head rb) (2 + ?n) (rb_buf rb)"
    unfolding frame_def len chunk_append by (simp add: body_def)
  also have "\<dots> = take (2 + ?n) (stream rb evs)"
    using chunk_stream [OF assms(1), of 0 "2 + ?n" evs] assms(2) by (simp add: chunk_def)
  finally have "stream rb evs = frame body @ drop (2 + ?n) (stream rb evs)"
    by (metis append_take_drop_id)
  with len that show thesis by (simp add: body_def)
qed

lemma recv_raw_buffered_Some:
  assumes "recv_raw_buffered rb evs = Some (Some len, rb', evs')" and "rb_inv rb"
  obtains body where "stream rb evs = frame body @ stream (consume (2 + len) rb') evs'" "rb_inv (consume (2 + len) rb')"
    "length body = len" "len \<le> MAX_MESSAGE_SIZE"
proof -
  obtain rb1 evs1 where 1: "fill_to 2 rb evs = Some (True, rb1, evs1)" "\<not> MAX_MESSAGE_SIZE < frame_length rb1"
    "fill_to (2 + frame_length rb1) rb1 evs1 = Some (True, rb', evs')" "len = frame_length rb1"
    using assms(1) by (auto simp: recv_raw_buffered_def Let_def split: option.splits bool.splits if_splits)
  have rb1: "rb_inv rb1" "stream rb1 evs1 = stream rb evs" "2 \<le> available rb1"
    using fill_to_True [OF 1(1) assms(2)] by simp_all
  have rb': "rb_inv rb'" "stream rb' evs' = stream rb evs" "2 + frame_length rb1 \<le> available rb'"
    using fill_to_True [OF 1(3) rb1(1)] rb1(2) by simp_all
  have "chunk (rb_head rb1) 2 (rb_buf rb1) = chunk (rb_head rb') 2 (rb_buf rb')"
    using chunk_stream [OF rb1(1), of 0 2 evs1] chunk_stream [OF rb'(1), of 0 2 evs'] rb1 rb' by simp
  then have fl: "frame_length rb1 = frame_length rb'"
    by (simp add: frame_length_def)
  with rb'(3) obtain body where "length body = frame_length rb'"
    "stream rb' evs' = frame body @ drop (2 + frame_length rb') (stream rb' evs')"
    using frame_split [OF rb'(1), of evs'] by metis
  with that [of body] show thesis
    using consume_keeps [OF rb'(1) rb'(3)] 1(2,4) rb'(2) fl by simp
qed

lemma recv_message_buffered_raw:
  "recv_message_buffered rb evs = Some (Inr (Some m, rb', evs')) \<Longrightarrow>
    \<exists>len rb2. recv_raw_buffered rb evs = Some (Some len, rb2, evs') \<and> rb' = consume (2 + len) rb2"
  by (auto simp: recv_message_buffered_def recv_raw_buffered_def Let_def map_res_def bind_res_eq_Inr
      split: option.splits bool.splits if_splits)

text \<open>Frames in a stream are found in one way only.\<close>

lemma frame_prefix:
  assumes "prefix (frame b @ xs) (frame c @ ys)" and "length b \<le> MAX_MESSAGE_SIZE" and "length c \<le> MAX_MESSAGE_SIZE"
  shows "b = c \<and> prefix xs ys"
proof -
  have "take 2 (frame b @ xs) = take 2 (frame c @ ys)"
    using assms(1) by (auto simp: prefix_def frame_def)
  then have "be_bytes 2 (of_nat (length b) :: u16) = be_bytes 2 (of_nat (length c) :: u16)"
    by (simp add: frame_def)
  then have "(of_nat (length b) :: u16) = of_nat (length c)"
    by (simp only: be16.enc_inject)
  moreover have "unat (of_nat (length b) :: u16) = length b" "unat (of_nat (length c) :: u16) = length c"
    using assms(2,3) by (simp_all add: unat_of_nat_eq MAX_MESSAGE_SIZE_def)
  ultimately have "length b = length c" by metis
  then show ?thesis
    using assms(1) by (auto simp: prefix_def frame_def)
qed

definition framed :: "byte list list \<Rightarrow> byte list" where
  "framed bs = concat (map frame bs)"

lemma framed_simps [simp]:
  "framed [] = []" "framed (b # bs) = frame b @ framed bs" "framed (bs @ cs) = framed bs @ framed cs"
  by (simp_all add: framed_def)

lemma framed_prefix_take:
  "prefix (framed bs) (framed cs) \<Longrightarrow> \<forall>b \<in> set bs \<union> set cs. length b \<le> MAX_MESSAGE_SIZE \<Longrightarrow>
    length bs \<le> length cs \<and> bs = take (length bs) cs"
proof (induction bs arbitrary: cs)
  case (Cons b bs)
  then obtain c cs' where cs: "cs = c # cs'"
    by (cases cs) auto
  with Cons show ?case
    using frame_prefix [of b "framed bs" c "framed cs'"] by auto
qed simp

section \<open>Properties\<close>

text \<open>
  The frame assembled directly by \<^verbatim>\<open>build_wire_bytes\<close> is byte for byte the frame
  that \<^verbatim>\<open>send_message\<close> writes for the same message through \<^verbatim>\<open>Message::serialize\<close>,
  whenever the message fits in 65535 bytes.
\<close>

theorem build_wire_bytes_correct:
  assumes "28 + length d \<le> MAX_MESSAGE_SIZE"
  shows "send_message (30 + int (length d)) (build_message t sh sd s d []) =
    (build_wire_bytes t sh sd s (Some d) (length d), True)"
proof -
  have "length (serialize (build_message t sh sd s d [])) = 28 + length d"
    by (simp add: serialize_plain [OF assms])
  moreover from this have "serialize (build_message t sh sd s d []) \<noteq> []"
    by auto
  ultimately show ?thesis
    using wire_bytes_frame [OF assms] by (simp add: send_message_def Let_def)
qed

theorem build_wire_bytes_correct_witness:
  "send_message 33 (build_message 0 0 7 42 [1, 2, 3] []) =
    (build_wire_bytes 0 0 7 42 (Some [1, 2, 3]) (length [1 :: byte, 2, 3]), True)"
  using build_wire_bytes_correct [of "[1, 2, 3]" 0 0 7 42] by (simp add: MAX_MESSAGE_SIZE_def)

text \<open>
  Nothing limits the data of \<^verbatim>\<open>build_wire_bytes\<close>: with 65508 bytes of data or more
  the 16-bit length prefix wraps and announces fewer bytes than follow it, so the
  receiver loses the frame boundary.
\<close>

theorem oversized_batch_breaks_framing:
  assumes "MAX_MESSAGE_SIZE < 28 + length d"
  shows "unat (be_word (take 2 (build_wire_bytes t sh sd s (Some d) (length d))) :: u16)
    < length (build_wire_bytes t sh sd s (Some d) (length d)) - 2"
proof -
  have "unat (of_nat (28 + length d) :: u16) \<le> MAX_MESSAGE_SIZE"
    unfolding MAX_MESSAGE_SIZE_def by (rule unat_u16_bound)
  then show ?thesis
    unfolding wire_prefix length_build_wire_bytes using assms by simp
qed

theorem oversized_batch_breaks_framing_witness:
  "unat (be_word (take 2 (build_wire_bytes 0 0 1 5 (Some (replicate 65508 0)) 65508)) :: u16)
    < length (build_wire_bytes 0 0 1 5 (Some (replicate 65508 0)) 65508) - 2"
  using oversized_batch_breaks_framing [of "replicate 65508 0" 0 0 1 5]
  by (simp add: MAX_MESSAGE_SIZE_def del: replicate.simps)

text \<open>
  A message that \<^verbatim>\<open>send_message\<close> reports as sent is read back by the unbuffered
  \<^verbatim>\<open>recv_message\<close> from a blocking socket, for every split of the bytes into reads and
  for every size the encoder accepts.
\<close>

theorem send_recv_roundtrip:
  assumes "fits m" and "send_message accepted m = (out, True)"
    and "proper evs" and "blocking evs" and "arriving evs = out @ rest"
  shows "\<exists>evs'. recv_message evs = Some (Inr (Some m, evs')) \<and> arriving evs' = rest"
proof -
  have "out = frame (serialize m)"
    using assms(2) by (auto simp: send_message_def Let_def split: if_splits)
  with recv_message_frame [OF assms(3,4) _ assms(1)] assms(5) show ?thesis by blast
qed

theorem send_recv_roundtrip_witness:
  "\<exists>evs'. recv_message [Data (fst (send_message 57 sample_message)), Closed]
    = Some (Inr (Some sample_message, evs')) \<and> arriving evs' = []"
proof -
  have len: "length (serialize sample_message) = 55"
    unfolding serialize_layout [OF sample_message_fits]
    by (simp add: sample_message_def build_message_def)
  then have sent: "send_message 57 sample_message = (frame (serialize sample_message), True)"
    by (auto simp: send_message_def Let_def)
  show ?thesis
    using send_recv_roundtrip [OF sample_message_fits sent,
        of "[Data (frame (serialize sample_message)), Closed]" "[]"]
    by (simp add: sent proper_def blocking_def frame_not_Nil [symmetric])
qed

text \<open>
  C15: a stream of bytes that starts with the frames of some messages yields exactly
  these messages, in order, to the buffered reader, however the bytes are split into
  reads and interleaved with empty ones; the bytes behind the last frame are left and
  the buffer stays well formed. This holds for bodies of up to 65533 bytes.
\<close>

theorem buffered_read_correct:
  assumes "rb_inv rb" and "proper evs"
    and "stream rb evs = concat (map (\<lambda>m. frame (serialize m)) ms) @ rest"
    and "\<forall>m \<in> set ms. fits m \<and> length (serialize m) \<le> 65533"
  shows "\<exists>rb' evs'. receive_many (length ms) rb evs = Some (ms, rb', evs') \<and>
    rb_inv rb' \<and> proper evs' \<and> stream rb' evs' = rest"
  using receive_many_messages [OF assms(1-3)] assms(4) by (simp add: safe_body_eq)

theorem buffered_read_correct_witness:
  "\<exists>rb' evs'. receive_many 2 (fresh_buffer (replicate CAPACITY 0))
      [Data (take 3 (frame (serialize sample_message))), Again,
       Data (drop 3 (frame (serialize sample_message)) @ frame (serialize sample_message))]
    = Some ([sample_message, sample_message], rb', evs')"
proof -
  let ?f = "frame (serialize sample_message)"
  let ?evs = "[Data (take 3 ?f), Again, Data (drop 3 ?f @ ?f)]"
  have len: "length (serialize sample_message) = 55"
    unfolding serialize_layout [OF sample_message_fits]
    by (simp add: sample_message_def build_message_def)
  then have "proper ?evs"
    by (simp add: proper_def)
  moreover have "rb_inv (fresh_buffer (replicate CAPACITY 0))"
    by (rule rb_inv_fresh) simp
  moreover have "arriving ?evs = concat (map (\<lambda>m. frame (serialize m)) [sample_message, sample_message]) @ []"
    by (simp flip: append_assoc)
  ultimately show ?thesis
    using buffered_read_correct [of "fresh_buffer (replicate CAPACITY 0)" ?evs
        "[sample_message, sample_message]" "[]"] len sample_message_fits
    by (auto simp: numeral_2_eq_2)
qed

text \<open>
  The bound of 65533 bytes is sharp. After a frame of 65534 bytes has been consumed
  the next one starts at offset 65534, where the buffer is not moved down and has room
  for 65536 bytes only: a frame of 65537 bytes, which the encoder still produces, never
  fits, and the reader reports the connection as closed although the whole frame is
  there.
\<close>

theorem maximal_frame_never_received:
  assumes "length junk = CAPACITY" and "length b1 = 65532" and "length b2 = 65535"
  shows "\<exists>rb evs.
    recv_raw_buffered (fresh_buffer junk) [Data (frame b1 @ frame b2)] = Some (Some 65532, rb, evs) \<and>
    stream (consume 65534 rb) evs = frame b2 \<and>
    recv_raw_buffered (consume 65534 rb) evs = Some (None, consume 65534 rb, evs)"
proof -
  let ?S = "frame b1 @ frame b2"
  have cap: "CAPACITY = 131070"
    by (simp add: CAPACITY_def MAX_MESSAGE_SIZE_def)
  define rb where "rb = \<lparr>rb_buf = take CAPACITY ?S, rb_head = 0, rb_tail = CAPACITY\<rparr>"
  define evs where "evs = [Data (drop CAPACITY ?S)]"
  have left: "drop CAPACITY ?S \<noteq> []"
    using assms by (simp add: cap)
  have inv: "rb_inv rb" and av: "available rb = CAPACITY" and str: "stream rb evs = frame b1 @ frame b2"
    using assms by (simp_all add: rb_inv_def rb_def cap available_def stream_def pending_def evs_def
        chunk_def)
  have "refill_spin (fresh_buffer junk) [Data ?S] = Some (True, rb, evs)"
    using assms left
    by (simp add: fresh_buffer_def refill_spin_def shift_down_def Let_def cap rb_def evs_def
        blit_def unread_event_def)
  moreover have "available (fresh_buffer junk) = 0"
    by (simp add: available_def fresh_buffer_def)
  ultimately have "fill_to 2 (fresh_buffer junk) [Data ?S] = fill_to 2 rb evs"
    by (simp add: fill_to.simps [of 2 "fresh_buffer junk"])
  also have "\<dots> = Some (True, rb, evs)"
    by (rule fill_to_done) (simp add: av cap)
  finally have start: "fill_to 2 (fresh_buffer junk) [Data ?S] = Some (True, rb, evs)" .
  have len1: "frame_length rb = 65532"
    using frame_length_stream [OF inv _ str] assms(2) by (simp add: av cap MAX_MESSAGE_SIZE_def)
  have whole: "fill_to 65534 rb evs = Some (True, rb, evs)"
    by (rule fill_to_done) (simp add: av cap)
  have first: "recv_raw_buffered (fresh_buffer junk) [Data ?S] = Some (Some 65532, rb, evs)"
    using whole by (simp add: recv_raw_buffered_def start len1 MAX_MESSAGE_SIZE_def)
  let ?rb = "consume 65534 rb"
  have rb': "rb_head ?rb = 65534" "rb_tail ?rb = CAPACITY" "available ?rb = 65536"
    by (simp_all add: consume_def rb_def Let_def cap available_def)
  have inv': "rb_inv ?rb" and str': "stream ?rb evs = frame b2"
    using consume_keeps [OF inv, where n = 65534] av str assms(2) by (simp_all add: cap)
  have len2: "frame_length ?rb = 65535"
    using frame_length_stream [OF inv', where evs = evs and body = b2 and rest = "[]"] str' assms(3)
    by (simp add: rb' MAX_MESSAGE_SIZE_def)
  have "fill_to 65537 ?rb evs = Some (False, ?rb, evs)"
    unfolding evs_def by (rule fill_to_full) (simp_all add: rb' cap)
  then have "recv_raw_buffered ?rb evs = Some (None, ?rb, evs)"
    using fill_to_done [of 2 ?rb evs] by (simp add: recv_raw_buffered_def rb' len2 MAX_MESSAGE_SIZE_def)
  with first str' show ?thesis by blast
qed

theorem maximal_frame_never_received_witness:
  "\<exists>rb evs. recv_raw_buffered (fresh_buffer (replicate CAPACITY 0))
      [Data (frame (replicate 65532 0) @ frame (replicate 65535 0))] = Some (Some 65532, rb, evs) \<and>
    recv_raw_buffered (consume 65534 rb) evs = Some (None, consume 65534 rb, evs)"
  using maximal_frame_never_received [of "replicate CAPACITY 0" "replicate 65532 0" "replicate 65535 0"]
  by (auto simp del: replicate.simps)

end
