(* ===== verification/Connection.thy ===== *)
theory Connection
  imports Framing
begin

text \<open>
  The loop that every node runs on an accepted connection (\<^verbatim>\<open>handle_connection\<close> of
  \<^verbatim>\<open>Proxy\<close>, \<^verbatim>\<open>Server\<close> and \<^verbatim>\<open>Subscriber\<close>): read a frame into the buffer, hand the
  handler a pointer into the buffer, consume the frame. The locale is the contract
  between the loop and a handler that looks at nothing but the bytes of its frame.
\<close>

section \<open>Frames in the buffer\<close>

lemma frame_in_buffer:
  assumes "rb_inv rb" and "stream rb evs = frame body @ rest" and "2 + length body \<le> available rb"
  shows "chunk (rb_head rb) (2 + length body) (rb_buf rb) = frame body"
  using chunk_stream [OF assms(1), of 0 "2 + length body" evs] assms(2,3)
  by (simp add: chunk_def frame_def)

lemma code_eq_0 [simp]: "code t = 0 \<longleftrightarrow> t = APPEND" and code_eq_1 [simp]: "code t = 1 \<longleftrightarrow> t = SKIP"
  by (cases t; simp)+

text \<open>The body of a message without ordering values, and what is read from it in place.\<close>

definition plain :: "u32 \<Rightarrow> shard_id \<Rightarrow> node_id \<Rightarrow> seq_num \<Rightarrow> command \<Rightarrow> byte list" where
  "plain t sh sd s d = layout t sh sd s (of_nat (length d)) d 0 []"

lemma length_plain [simp]: "length (plain t sh sd s d) = 28 + length d"
  by (simp add: plain_def)

lemma build_wire_plain: "build_wire_bytes t sh sd s (Some d) (length d) = frame (plain t sh sd s d)"
  by (simp add: build_wire_bytes_def Let_def frame_def plain_def layout_def)

lemma build_wire_plain_null: "build_wire_bytes t sh sd s None 0 = frame (plain t sh sd s [])"
  by (simp add: build_wire_bytes_def Let_def frame_def plain_def layout_def)

lemma serialize_is_plain:
  "28 + length d \<le> MAX_MESSAGE_SIZE \<Longrightarrow> serialize (build_message t sh sd s d []) = plain t sh sd s d"
  by (simp add: serialize_plain plain_def)

lemma body_of_frame:
  assumes "chunk p (2 + length body) mem = frame body" and "p + 2 + length body \<le> length mem"
  shows "chunk (p + 2) (length body) mem = body"
  using chunk_append [of p 2 "length body" mem] assms
  by (simp add: frame_def append_eq_append_conv)

lemma get_be_frame:
  assumes "chunk p (2 + length body) mem = frame body" and "p + 2 + length body \<le> length mem"
    and "off + n \<le> length body" and "q = p + 2 + off"
  shows "get_be n mem q = get_be n body off"
  using get_be_window [OF assms(3), of "p + 2" mem] body_of_frame [OF assms(1,2)] assms(2,4) by simp

text \<open>The header of any message, read in place.\<close>

lemma layout_in_place:
  assumes "chunk p (2 + length body) mem = frame body" and "p + 2 + length body \<le> length mem"
    and "body = layout t sh sd n dl d ol vs"
  shows "peek_header_at mem (p + 2) (length body)
      = Inr (Some \<lparr>h_type = t, h_shard = sh, h_sender = sd, h_seq = n\<rparr>)"
    and "get_be 4 mem (p + 2 + 20) = Inr dl"
proof -
  have len: "length body = 28 + length d + length vs"
    using assms(3) by simp
  have r1: "get_be 4 mem (p + 2) = Inr t"
    by (subst get_be_frame [OF assms(1,2), where off = 0]) (simp_all add: assms(3) layout_reads)
  have r2: "get_be 4 mem (6 + p) = Inr sh"
    by (subst get_be_frame [OF assms(1,2), where off = 4]) (simp_all add: assms(3) layout_reads)
  have r3: "get_be 4 mem (10 + p) = Inr sd"
    by (subst get_be_frame [OF assms(1,2), where off = 8]) (simp_all add: assms(3) layout_reads)
  have r4: "get_be 8 mem (14 + p) = Inr n"
    by (subst get_be_frame [OF assms(1,2), where off = 12]) (simp_all add: assms(3) layout_reads)
  show "get_be 4 mem (p + 2 + 20) = Inr dl"
    by (subst get_be_frame [OF assms(1,2), where off = 20]) (simp_all add: assms(3) layout_reads)
  show "peek_header_at mem (p + 2) (length body)
      = Inr (Some \<lparr>h_type = t, h_shard = sh, h_sender = sd, h_seq = n\<rparr>)"
    using r1 r2 r3 r4 len by (simp add: peek_header_at_def HEADER_SIZE_def add.assoc)
qed

lemma plain_reads:
  assumes "chunk p (2 + length (plain t sh sd s d)) mem = frame (plain t sh sd s d)"
    and "p + 2 + length (plain t sh sd s d) \<le> length mem"
  shows "peek_header_at mem (p + 2) (28 + length d)
      = Inr (Some \<lparr>h_type = t, h_shard = sh, h_sender = sd, h_seq = s\<rparr>)"
    and "length d < 2 ^ 32 \<Longrightarrow> get_data_ptr mem (p + 2) (28 + length d) = Inr (Some (p + 26), length d)"
    and "get_bytes (length d) mem (p + 26) = Inr d"
proof -
  let ?b = "plain t sh sd s d"
  have b: "chunk (p + 2) (28 + length d) mem = ?b"
    using body_of_frame [OF assms] by simp
  note reads = layout_in_place [OF assms plain_def]
  show "peek_header_at mem (p + 2) (28 + length d)
      = Inr (Some \<lparr>h_type = t, h_shard = sh, h_sender = sd, h_seq = s\<rparr>)"
    using reads(1) by simp
  show "get_data_ptr mem (p + 2) (28 + length d) = Inr (Some (p + 26), length d)" if "length d < 2 ^ 32"
    using reads(2) that by (simp add: get_data_ptr_def add.assoc unat_of_nat_eq)
  have "chunk (p + 26) (length d) mem = chunk 24 (length d) ?b"
    using chunk_chunk [of 24 "length d" "28 + length d" "p + 2" mem] b by (simp add: add.commute)
  then show "get_bytes (length d) mem (p + 26) = Inr d"
    using assms(2) by (simp add: get_bytes_inside plain_def layout_def chunk_def)
qed

text \<open>
  The messages that make up the log, on their way from a proxy to a server and from a
  server to a subscriber: type, shard, sender, number and data.
\<close>

type_synonym log_message = "message_type \<times> shard_id \<times> node_id \<times> seq_num \<times> command"

fun log_body :: "log_message \<Rightarrow> byte list" where
  "log_body (t, sh, sd, n, d) = plain (code t) sh sd n d"

text \<open>What a subscriber makes of its data: a \<^verbatim>\<open>SKIP\<close> carries none.\<close>

fun log_data :: "log_message \<Rightarrow> command option" where
  "log_data (t, sh, sd, n, d) = (if t = APPEND then Some d else None)"

lemma length_log_body [simp]: "length (log_body (t, sh, sd, n, d)) = 28 + length d"
  by simp

declare log_body.simps [simp del] log_data.simps [simp del]

lemma deserialize_plain:
  "length d < 2 ^ 32 \<Longrightarrow> deserialize (plain t sh sd n d) = Inr (Some (build_message t sh sd n d []))"
  by (simp add: plain_def decode_layout unat_of_nat_eq)

section \<open>The loop\<close>

text \<open>
  A handler gets the memory of the read buffer, the offset of the body and its length,
  and returns its outputs, its state and whether the loop goes on. \<open>n\<close> bounds the number
  of frames handled; \<open>None\<close> is a connection on which nothing arrives any more.
\<close>

fun connection_loop ::
  "('s \<Rightarrow> byte list \<Rightarrow> nat \<Rightarrow> nat \<Rightarrow> fault + 'o list \<times> 's \<times> bool) \<Rightarrow> nat \<Rightarrow> 's \<Rightarrow> read_buffer \<Rightarrow>
    socket_in \<Rightarrow> (fault + 'o list \<times> 's \<times> read_buffer \<times> socket_in) option" where
  "connection_loop h 0 s rb evs = Some (Inr ([], s, rb, evs))"
| "connection_loop h (Suc n) s rb evs =
    (case recv_raw_buffered rb evs of
       None \<Rightarrow> None
     | Some (None, rb, evs) \<Rightarrow> Some (Inr ([], s, rb, evs))
     | Some (Some len, rb, evs) \<Rightarrow>
         (case h s (rb_buf rb) (rb_head rb + 2) len of
            Inl e \<Rightarrow> Some (Inl e)
          | Inr (out, s, False) \<Rightarrow> Some (Inr (out, s, consume (2 + len) rb, evs))
          | Inr (out, s, True) \<Rightarrow>
              map_option (map_res (\<lambda>(outs, r). (out @ outs, r)))
                (connection_loop h n s (consume (2 + len) rb) evs)))"

text \<open>The abstract connection: a sequence of bodies handled one after the other.\<close>

fun run_bodies :: "('s \<Rightarrow> byte list \<Rightarrow> 'o list \<times> 's) \<Rightarrow> 's \<Rightarrow> byte list list \<Rightarrow> 'o list \<times> 's" where
  "run_bodies step s [] = ([], s)"
| "run_bodies step s (b # bs) =
    (let (out, s) = step s b; (outs, s) = run_bodies step s bs in (out @ outs, s))"

locale frame_handler =
  fixes h :: "'s \<Rightarrow> byte list \<Rightarrow> nat \<Rightarrow> nat \<Rightarrow> fault + 'o list \<times> 's \<times> bool"
    and step :: "'s \<Rightarrow> byte list \<Rightarrow> 'o list \<times> 's"
    and ok :: "byte list \<Rightarrow> bool"
    and inv :: "'s \<Rightarrow> bool"
  assumes handles: "inv s \<Longrightarrow> ok body \<Longrightarrow> p + 2 + length body \<le> length mem \<Longrightarrow>
    chunk p (2 + length body) mem = frame body \<Longrightarrow>
    h s mem (p + 2) (length body) = Inr (fst (step s body), snd (step s body), True)"
    and step_inv: "inv s \<Longrightarrow> ok body \<Longrightarrow> inv (snd (step s body))"
begin

lemma run_bodies_inv: "inv s \<Longrightarrow> \<forall>b \<in> set bodies. ok b \<Longrightarrow> inv (snd (run_bodies step s bodies))"
  by (induction bodies arbitrary: s) (simp_all add: case_prod_beta step_inv)

text \<open>
  For every split of the byte stream into reads, the loop over the buffer does what the
  abstract connection does with the bodies.
\<close>

lemma loop_runs:
  assumes "rb_inv rb" and "proper evs" and "stream rb evs = concat (map frame bodies) @ rest"
    and "\<forall>b \<in> set bodies. ok b \<and> length b \<le> safe_body" and "inv s"
  shows "\<exists>rb' evs'. connection_loop h (length bodies) s rb evs =
      Some (Inr (fst (run_bodies step s bodies), snd (run_bodies step s bodies), rb', evs')) \<and>
    rb_inv rb' \<and> proper evs' \<and> stream rb' evs' = rest"
  using assms
proof (induction bodies arbitrary: s rb evs)
  case (Cons b bs)
  have str: "stream rb evs = frame b @ (concat (map frame bs) @ rest)"
    using Cons.prems(3) by simp
  obtain rb1 evs1 where 1: "recv_raw_buffered rb evs = Some (Some (length b), rb1, evs1)"
    "rb_inv rb1" "proper evs1" "2 + length b \<le> available rb1"
    "stream rb1 evs1 = frame b @ (concat (map frame bs) @ rest)"
    using receive_frame [OF Cons.prems(1,2) str] Cons.prems(4) by auto
  have "rb_head rb1 + 2 + length b \<le> length (rb_buf rb1)"
    using 1(2,4) unfolding rb_inv_def available_def by linarith
  moreover have "chunk (rb_head rb1) (2 + length b) (rb_buf rb1) = frame b"
    by (rule frame_in_buffer [OF 1(2,5,4)])
  ultimately have h: "h s (rb_buf rb1) (rb_head rb1 + 2) (length b)
      = Inr (fst (step s b), snd (step s b), True)"
    using Cons.prems(4,5) by (intro handles) simp_all
  have c: "rb_inv (consume (2 + length b) rb1)"
    "stream (consume (2 + length b) rb1) evs1 = concat (map frame bs) @ rest"
    using consume_keeps [OF 1(2,4)] 1(5) by (simp_all add: frame_def)
  from Cons.IH [OF c(1) 1(3) c(2), of "snd (step s b)"] Cons.prems(4,5) obtain rb' evs' where
    "connection_loop h (length bs) (snd (step s b)) (consume (2 + length b) rb1) evs1 =
      Some (Inr (fst (run_bodies step (snd (step s b)) bs), snd (run_bodies step (snd (step s b)) bs), rb', evs'))"
    "rb_inv rb'" "proper evs'" "stream rb' evs' = rest"
    by (auto simp: step_inv)
  then show ?case
    by (simp add: 1(1) h case_prod_beta del: add_2_eq_Suc add_2_eq_Suc')
qed simp

end

end
