(* ===== verification/Command_Batch.thy ===== *)
theory Command_Batch
  imports Bytes
begin

text \<open>
  \<^verbatim>\<open>api/types.h\<close>: a command is a vector of bytes, and a \<^verbatim>\<open>CommandBatch\<close> is the
  concatenation of commands, each preceded by its length in four bytes. The batch
  is what a proxy sends as one log entry and what a subscriber expands.
\<close>

section \<open>Strings\<close>

definition string_to_command :: "string \<Rightarrow> command" where
  "string_to_command s = map (\<lambda>c. of_nat (of_char c)) s"

definition command_to_string :: "command \<Rightarrow> string" where
  "command_to_string c = map (\<lambda>b. char_of (unat b)) c"

section \<open>The batch\<close>

text \<open>The conversion of \<^verbatim>\<open>cmd.size()\<close> to \<^verbatim>\<open>uint32_t\<close> keeps its low 32 bits.\<close>

definition add_command :: "command \<Rightarrow> byte list \<Rightarrow> byte list" where
  "add_command cmd buffer = buffer @ be_bytes 4 (of_nat (length cmd) :: u32) @ cmd"

definition batch_of :: "command list \<Rightarrow> byte list" where
  "batch_of cmds = fold add_command cmds []"

text \<open>
  The loop of \<^verbatim>\<open>CommandBatch::deserialize\<close>, from \<open>offset\<close> on: it stops at the end of
  the data and at a truncated length or command, keeping what it has read.
\<close>

function deserialize_from :: "byte list \<Rightarrow> nat \<Rightarrow> fault + command list" where
  "deserialize_from d offset =
    (if offset < length d then
       (if length d < offset + 4 then Inr []
        else bind_res (get_be 4 d offset) (\<lambda>len :: u32.
          let offset' = offset + 4 in
          if length d < offset' + unat len then Inr []
          else bind_res (get_bytes (unat len) d offset') (\<lambda>cmd.
            map_res (Cons cmd) (deserialize_from d (offset' + unat len)))))
     else Inr [])"
  by pat_completeness auto
termination
  by (relation "measure (\<lambda>(d, offset). length d - offset)") auto

declare deserialize_from.simps [simp del]

definition deserialize_batch :: "byte list \<Rightarrow> fault + command list" where
  "deserialize_batch d = deserialize_from d 0"

section \<open>The loop as a parser\<close>

text \<open>The same function on what is left of the data, without offsets.\<close>

function parse_batch :: "byte list \<Rightarrow> command list" where
  "parse_batch d =
    (if length d < 4 then []
     else let len = unat (be_word (take 4 d) :: u32) in
       if length d < 4 + len then []
       else take len (drop 4 d) # parse_batch (drop (4 + len) d))"
  by pat_completeness auto
termination
  by (relation "measure length") auto

declare parse_batch.simps [simp del]

lemma deserialize_from_parse: "deserialize_from d offset = Inr (parse_batch (drop offset d))"
proof (induction d offset rule: deserialize_from.induct)
  case (1 d offset)
  show ?case
  proof (cases "offset + 4 \<le> length d")
    case False
    then show ?thesis
      by (auto simp: deserialize_from.simps [of d] parse_batch.simps [of "drop offset d"])
  next
    case True
    define len :: u32 where "len = be_word (take 4 (drop offset d))"
    have read: "get_be 4 d offset = Inr len"
      using True by (simp add: get_be_inside chunk_def len_def)
    show ?thesis
    proof (cases "offset + 4 + unat len \<le> length d")
      case False
      with True show ?thesis
        by (simp add: deserialize_from.simps [of d] parse_batch.simps [of "drop offset d"] read
            Let_def flip: len_def)
    next
      case inside: True
      have rest: "deserialize_from d (offset + 4 + unat len)
          = Inr (parse_batch (drop (offset + 4 + unat len) d))"
        by (rule "1.IH") (use True inside in \<open>simp_all add: get_bytes_inside read\<close>)
      with True inside show ?thesis
        by (simp add: deserialize_from.simps [of d offset] parse_batch.simps [of "drop offset d"]
            read Let_def get_bytes_inside chunk_def add.commute add.left_commute flip: len_def)
    qed
  qed
qed

lemma deserialize_batch_parse [simp]: "deserialize_batch d = Inr (parse_batch d)"
  by (simp add: deserialize_batch_def deserialize_from_parse)

lemma parse_batch_short: "length d < 4 \<Longrightarrow> parse_batch d = []"
  by (simp add: parse_batch.simps)

lemma parse_batch_Nil [simp]: "parse_batch [] = []"
  by (simp add: parse_batch_short)

text \<open>A command is small when its length survives the conversion to \<^verbatim>\<open>uint32_t\<close>.\<close>

definition small :: "command \<Rightarrow> bool" where
  "small c \<longleftrightarrow> length c < 2 ^ 32"

definition entry :: "command \<Rightarrow> byte list" where
  "entry c = be_bytes 4 (of_nat (length c) :: u32) @ c"

lemma length_entry [simp, wire_simps]: "length (entry c) = 4 + length c"
  by (simp add: entry_def)

lemma parse_batch_entry: "small c \<Longrightarrow> parse_batch (entry c @ d) = c # parse_batch d"
  by (simp add: parse_batch.simps [of "be_bytes 4 (of_nat (length c) :: u32) @ c @ d"] entry_def
      small_def unat_of_nat_eq)

lemma parse_batch_entries:
  "\<forall>c \<in> set cs. small c \<Longrightarrow> parse_batch (concat (map entry cs) @ d) = cs @ parse_batch d"
  by (induction cs) (simp_all add: parse_batch_entry)

lemma fold_add_command: "fold add_command cs buf = buf @ concat (map entry cs)"
  by (induction cs arbitrary: buf) (simp_all add: add_command_def entry_def)

lemma batch_of_entries: "batch_of cs = concat (map entry cs)"
  by (simp add: batch_of_def fold_add_command)

lemma batch_of_append: "batch_of (as @ bs) = batch_of as @ batch_of bs"
  by (simp add: batch_of_entries)

lemma batch_of_Nil [simp]: "batch_of [] = []"
  by (simp add: batch_of_def)

lemma parse_batch_of [simp]: "\<forall>c \<in> set cs. small c \<Longrightarrow> parse_batch (batch_of cs) = cs"
  using parse_batch_entries [of cs "[]"] by (simp add: batch_of_entries)

lemma batch_of_empty_iff [simp]: "batch_of cs = [] \<longleftrightarrow> cs = []"
  by (cases cs) (simp_all add: batch_of_entries entry_def, metis length_be_bytes list.size(3) zero_neq_numeral)

section \<open>Properties\<close>

text \<open>
  The decoder of a batch never reads outside the data, whatever the bytes, and
  commands added one by one come back in order, also when a truncated command
  follows them (an incomplete length, or a length that claims more bytes than there
  are).
\<close>

theorem batch_roundtrip:
  assumes "\<forall>c \<in> set cs. small c"
    and "length rest < 4 \<or> length rest < 4 + unat (be_word (take 4 rest) :: u32)"
  shows "deserialize_batch (batch_of cs @ rest) = Inr cs"
proof -
  have "parse_batch rest = []"
    using assms(2) by (auto simp: parse_batch.simps Let_def)
  then show ?thesis
    using parse_batch_entries [OF assms(1), of rest] by (simp add: batch_of_entries)
qed

theorem batch_roundtrip_witness:
  "deserialize_batch (batch_of [[1, 2], [], [3]] @ [0, 0, 0, 9, 1]) = Inr [[1, 2], [], [3]]"
  by (rule batch_roundtrip) (simp_all add: small_def be_word_def)

text \<open>
  Batches concatenate: the decoding of two batches appended is the two decodings
  appended, which is why a proxy may collect the commands of many clients in one
  buffer and send any number of whole entries as one batch.
\<close>

theorem batch_concat:
  assumes "\<forall>c \<in> set as. small c" and "\<forall>c \<in> set bs. small c"
  shows "deserialize_batch (batch_of as @ batch_of bs) = Inr (as @ bs)"
  using assms parse_batch_of [of "as @ bs"] by (auto simp: batch_of_append)

theorem batch_concat_witness:
  "deserialize_batch (batch_of [[7]] @ batch_of [[8, 9]]) = Inr [[7], [8, 9]]"
  using batch_concat [of "[[7]]" "[[8, 9]]"] by (simp add: small_def)

lemma char_byte [simp]: "char_of (unat (of_nat (of_char c) :: byte)) = (c :: char)"
proof -
  have "of_char c < (2 ^ LENGTH(8) :: nat)"
    by (cases c) simp
  then have "unat (of_nat (of_char c) :: byte) = of_char c"
    by (rule unat_of_nat_eq)
  then show ?thesis by simp
qed

lemma command_string [simp]: "command_to_string (string_to_command s) = s"
  by (induction s) (simp_all add: command_to_string_def string_to_command_def)

end
