(* ===== verification/Client_Buffer.thy ===== *)
theory Client_Buffer
  imports Command_Batch
begin

text \<open>
  \<^verbatim>\<open>impl/proxy/client_buffer_manager.h\<close>: the proxy collects the commands of its
  clients in one array, already in the format of a \<^verbatim>\<open>CommandBatch\<close>, and hands the
  timer thread a pointer into it. Each method holds the lock for its whole body, so
  a method is one step; \<^verbatim>\<open>drain\<close> and \<^verbatim>\<open>release\<close> are two steps, and connection
  threads may push between them.
\<close>

section \<open>State and operations\<close>

definition CB_CAPACITY :: nat where
  "CB_CAPACITY = push_bit 20 1"

lemma CB_CAPACITY_eq: "CB_CAPACITY = 1048576"
  by (simp add: CB_CAPACITY_def push_bit_eq_mult)

record client_buffer =
  cb_buf :: "byte list"
  cb_write :: nat
  cb_read :: nat
  cb_used :: nat
  cb_participating :: "int set"

text \<open>\<^verbatim>\<open>DrainResult\<close>; the pointer is an offset into the array.\<close>

record drain_result =
  dr_data :: nat
  dr_len :: nat
  dr_participating :: "int set"

definition new_client_buffer :: client_buffer where
  "new_client_buffer =
    \<lparr>cb_buf = replicate CB_CAPACITY 0, cb_write = 0, cb_read = 0, cb_used = 0, cb_participating = {}\<rparr>"

text \<open>
  \<^verbatim>\<open>push_raw\<close>: \<open>src\<close> are the bytes that may be read behind the pointer \<^verbatim>\<open>data\<close>. The
  test compares the bytes in use with the capacity; the copies go to \<open>cb_write\<close>.
\<close>

definition push_raw ::
  "int \<Rightarrow> byte list \<Rightarrow> nat \<Rightarrow> client_buffer \<Rightarrow> fault + (client_buffer \<times> bool)" where
  "push_raw client_socket src n b =
    (let needed = 4 + n in
     if CB_CAPACITY < cb_used b + needed then Inr (b, False)
     else
       require (cb_write b + 4 \<le> length (cb_buf b)) OutOfBounds (
       let buf = blit (cb_buf b) (cb_write b) (be_bytes 4 (of_nat n :: u32)) in
       bind_res (get_bytes n src 0) (\<lambda>bytes.
       require (cb_write b + 4 + n \<le> length buf) OutOfBounds (
         Inr (b\<lparr>cb_buf := blit buf (cb_write b + 4) bytes,
                cb_write := cb_write b + needed,
                cb_used := cb_used b + needed,
                cb_participating := insert client_socket (cb_participating b)\<rparr>, True)))))"

definition remove :: "int \<Rightarrow> client_buffer \<Rightarrow> client_buffer" where
  "remove client_socket b = b\<lparr>cb_participating := cb_participating b - {client_socket}\<rparr>"

definition drain :: "client_buffer \<Rightarrow> drain_result \<times> client_buffer" where
  "drain b =
    (\<lparr>dr_data = cb_read b, dr_len = cb_used b, dr_participating = cb_participating b\<rparr>,
     b\<lparr>cb_participating := {}\<rparr>)"

definition release :: "nat \<Rightarrow> client_buffer \<Rightarrow> client_buffer" where
  "release consumed b =
    (let b' = b\<lparr>cb_read := cb_read b + consumed, cb_used := cb_used b - consumed\<rparr>
     in if cb_used b' = 0 then b'\<lparr>cb_read := 0, cb_write := 0\<rparr> else b')"

definition cb_empty :: "client_buffer \<Rightarrow> bool" where
  "cb_empty b \<longleftrightarrow> cb_used b = 0"

section \<open>The array as a batch\<close>

definition cb_inv :: "client_buffer \<Rightarrow> bool" where
  "cb_inv b \<longleftrightarrow> length (cb_buf b) = CB_CAPACITY \<and> cb_read b + cb_used b = cb_write b \<and>
    cb_write b \<le> CB_CAPACITY"

definition contents :: "client_buffer \<Rightarrow> byte list" where
  "contents b = chunk (cb_read b) (cb_used b) (cb_buf b)"

lemma cb_inv_new [simp]: "cb_inv new_client_buffer"
  by (simp add: cb_inv_def new_client_buffer_def)

lemma contents_new [simp]: "contents new_client_buffer = []"
  by (simp add: contents_def new_client_buffer_def)

lemma length_contents [simp]: "cb_inv b \<Longrightarrow> length (contents b) = cb_used b"
  by (simp add: contents_def cb_inv_def)

text \<open>What a push of a whole command does on each branch.\<close>

lemma push_full: "CB_CAPACITY < cb_used b + 4 + length c \<Longrightarrow> push_raw s c (length c) b = Inr (b, False)"
  by (simp add: push_raw_def)

lemma push_fault:
  assumes "cb_inv b" and "cb_used b + 4 + length c \<le> CB_CAPACITY"
    and "CB_CAPACITY < cb_write b + 4 + length c"
  shows "push_raw s c (length c) b = Inl OutOfBounds"
  using assms by (cases "cb_write b + 4 \<le> CB_CAPACITY")
    (simp_all add: push_raw_def cb_inv_def Let_def get_bytes_inside)

definition pushed :: "int \<Rightarrow> byte list \<Rightarrow> client_buffer \<Rightarrow> client_buffer" where
  "pushed s c b =
    b\<lparr>cb_buf := blit (cb_buf b) (cb_write b) (entry c),
      cb_write := cb_write b + 4 + length c,
      cb_used := cb_used b + 4 + length c,
      cb_participating := insert s (cb_participating b)\<rparr>"

lemma blit_blit:
  assumes "p + length xs + length ys \<le> length zs"
  shows "blit (blit zs p xs) (p + length xs) ys = blit zs p (xs @ ys)"
  using assms by (cases xs) (auto simp: blit_def min_def algebra_simps)

lemma push_done:
  assumes "cb_inv b" and "cb_write b + 4 + length c \<le> CB_CAPACITY"
  shows "push_raw s c (length c) b = Inr (pushed s c b, True)"
proof -
  have "blit (blit (cb_buf b) (cb_write b) (be_bytes 4 (of_nat (length c) :: u32))) (cb_write b + 4) c
      = blit (cb_buf b) (cb_write b) (entry c)"
    using blit_blit [of "cb_write b" "be_bytes 4 (of_nat (length c) :: u32)" c "cb_buf b"] assms
    by (simp add: entry_def cb_inv_def)
  moreover have "chunk 0 (length c) c = c"
    by (simp add: chunk_def)
  ultimately show ?thesis
    using assms by (simp add: push_raw_def cb_inv_def get_bytes_inside pushed_def Let_def)
qed

lemma push_raw_cases:
  assumes "cb_inv b"
  shows "push_raw s c (length c) b =
    (if CB_CAPACITY < cb_used b + 4 + length c then Inr (b, False)
     else if CB_CAPACITY < cb_write b + 4 + length c then Inl OutOfBounds
     else Inr (pushed s c b, True))"
  using assms push_full push_fault push_done by (simp add: not_less)

lemma pushed_facts:
  assumes "cb_inv b" and "cb_write b + 4 + length c \<le> CB_CAPACITY"
  shows "cb_inv (pushed s c b)" and "contents (pushed s c b) = contents b @ entry c"
    and "n \<le> cb_used b \<Longrightarrow> chunk (cb_read b) n (cb_buf (pushed s c b)) = chunk (cb_read b) n (cb_buf b)"
proof -
  show "cb_inv (pushed s c b)"
    using assms by (simp add: cb_inv_def pushed_def)
  show "contents (pushed s c b) = contents b @ entry c"
    using chunk_blit_suffix [of "cb_read b" "cb_used b" "cb_write b" "cb_buf b" "entry c"] assms
    by (simp add: contents_def pushed_def cb_inv_def add.assoc)
  show "n \<le> cb_used b \<Longrightarrow> chunk (cb_read b) n (cb_buf (pushed s c b)) = chunk (cb_read b) n (cb_buf b)"
    using chunk_blit_before [of "cb_read b" n "cb_write b" "cb_buf b" "entry c"] assms
    by (simp add: pushed_def cb_inv_def)
qed

lemma remove_facts [simp]:
  "cb_inv (remove s b) = cb_inv b" "contents (remove s b) = contents b"
  "cb_read (remove s b) = cb_read b" "cb_used (remove s b) = cb_used b"
  "cb_write (remove s b) = cb_write b" "cb_buf (remove s b) = cb_buf b"
  by (simp_all add: remove_def cb_inv_def contents_def)

lemma release_facts:
  assumes "cb_inv b" and "n \<le> cb_used b"
  shows "cb_inv (release n b)" and "contents (release n b) = drop n (contents b)"
    and "cb_used (release n b) = cb_used b - n"
  using assms
  by (auto simp: release_def cb_inv_def contents_def chunk_def Let_def drop_take add.commute)

section \<open>The proxy's use of the buffer\<close>

text \<open>
  Connection threads push and disconnect; the timer thread drains, builds the wire
  bytes from the pointer, and releases what it sent: nothing when no client is
  waiting (a \<^verbatim>\<open>SKIP\<close>), all it drained otherwise (\<^verbatim>\<open>Proxy::send_out_batch\<close>). The
  history records the commands accepted and the payloads sent.
\<close>

record pipeline =
  pl_buffer :: client_buffer
  pl_open :: "drain_result option"
  pl_accepted :: "command list"
  pl_sent :: "byte list list"

definition new_pipeline :: pipeline where
  "new_pipeline = \<lparr>pl_buffer = new_client_buffer, pl_open = None, pl_accepted = [], pl_sent = []\<rparr>"

definition payload_of :: "drain_result \<Rightarrow> client_buffer \<Rightarrow> byte list" where
  "payload_of r b = (if dr_participating r = {} then [] else chunk (dr_data r) (dr_len r) (cb_buf b))"

definition sent_length :: "drain_result \<Rightarrow> nat" where
  "sent_length r = (if dr_participating r = {} then 0 else dr_len r)"

inductive pipeline_step :: "pipeline \<Rightarrow> pipeline \<Rightarrow> bool" where
  accept: "push_raw s c (length c) (pl_buffer p) = Inr (b, True) \<Longrightarrow>
    pipeline_step p (p\<lparr>pl_buffer := b, pl_accepted := pl_accepted p @ [c]\<rparr>)"
| refuse: "push_raw s c (length c) (pl_buffer p) = Inr (b, False) \<Longrightarrow>
    pipeline_step p (p\<lparr>pl_buffer := b\<rparr>)"
| leave: "pipeline_step p (p\<lparr>pl_buffer := remove s (pl_buffer p)\<rparr>)"
| begin_batch: "pl_open p = None \<Longrightarrow> drain (pl_buffer p) = (r, b) \<Longrightarrow>
    pipeline_step p (p\<lparr>pl_buffer := b, pl_open := Some r\<rparr>)"
| end_batch: "pl_open p = Some r \<Longrightarrow>
    pipeline_step p (p\<lparr>pl_buffer := release (sent_length r) (pl_buffer p), pl_open := None,
      pl_sent := pl_sent p @ [payload_of r (pl_buffer p)]\<rparr>)"

inductive pl_reachable :: "pipeline \<Rightarrow> bool" where
  pl_start: "pl_reachable new_pipeline"
| pl_step: "pl_reachable p \<Longrightarrow> pipeline_step p q \<Longrightarrow> pl_reachable q"

text \<open>
  The commands split into those sent, batch by batch, those drained and those pushed
  since.
\<close>

definition pl_inv :: "pipeline \<Rightarrow> bool" where
  "pl_inv p \<longleftrightarrow> cb_inv (pl_buffer p) \<and>
    (\<exists>xss ys zs. pl_accepted p = concat xss @ ys @ zs \<and> pl_sent p = map batch_of xss \<and>
      contents (pl_buffer p) = batch_of (ys @ zs) \<and>
      (\<forall>r. pl_open p = Some r \<longrightarrow>
        dr_data r = cb_read (pl_buffer p) \<and> dr_len r = length (batch_of ys))) \<and>
    (\<forall>c \<in> set (pl_accepted p). small c)"

lemma batch_of_single [simp]: "batch_of [c] = entry c"
  by (simp add: batch_of_entries)

lemma pl_inv_accept:
  assumes inv: "pl_inv p" and ok: "push_raw s c (length c) (pl_buffer p) = Inr (b, True)"
  shows "pl_inv (p\<lparr>pl_buffer := b, pl_accepted := pl_accepted p @ [c]\<rparr>)"
proof -
  let ?b = "pl_buffer p"
  have cb: "cb_inv ?b"
    using inv by (simp add: pl_inv_def)
  then have room: "cb_write ?b + 4 + length c \<le> CB_CAPACITY" and b: "b = pushed s c ?b"
    using ok by (simp_all add: push_raw_cases split: if_splits)
  have "small c"
    using room by (simp add: small_def CB_CAPACITY_eq)
  moreover obtain xss ys zs where "pl_accepted p = concat xss @ ys @ zs" "pl_sent p = map batch_of xss"
    "contents ?b = batch_of (ys @ zs)"
    "\<forall>r. pl_open p = Some r \<longrightarrow> dr_data r = cb_read ?b \<and> dr_len r = length (batch_of ys)"
    using inv by (auto simp: pl_inv_def)
  moreover have "contents b = contents ?b @ entry c" "cb_inv b" "cb_read b = cb_read ?b"
    using pushed_facts [OF cb room] b by (simp_all add: pushed_def)
  moreover have "\<forall>c \<in> set (pl_accepted p). small c"
    using inv by (simp add: pl_inv_def)
  ultimately show ?thesis
    unfolding pl_inv_def
    by (intro conjI exI [of _ xss] exI [of _ ys] exI [of _ "zs @ [c]"])
      (simp_all add: batch_of_append)
qed

lemma pl_inv_begin:
  assumes inv: "pl_inv p" and "drain (pl_buffer p) = (r, b)"
  shows "pl_inv (p\<lparr>pl_buffer := b, pl_open := Some r\<rparr>)"
proof -
  have "cb_inv (pl_buffer p)"
    using inv by (simp add: pl_inv_def)
  moreover obtain xss ys zs where "pl_accepted p = concat xss @ ys @ zs" "pl_sent p = map batch_of xss"
    "contents (pl_buffer p) = batch_of (ys @ zs)"
    using inv by (auto simp: pl_inv_def)
  moreover have "dr_data r = cb_read b" "dr_len r = cb_used (pl_buffer p)" "contents b = contents (pl_buffer p)"
    "cb_inv b = cb_inv (pl_buffer p)"
    using assms(2) by (auto simp: drain_def contents_def cb_inv_def)
  moreover have "length (contents (pl_buffer p)) = cb_used (pl_buffer p)"
    using calculation(1) by simp
  moreover have "\<forall>c \<in> set (pl_accepted p). small c"
    using inv by (simp add: pl_inv_def)
  ultimately show ?thesis
    unfolding pl_inv_def
    by (intro conjI exI [of _ xss] exI [of _ "ys @ zs"] exI [of _ "[]"]) simp_all
qed

lemma pl_inv_end:
  assumes inv: "pl_inv p" and r: "pl_open p = Some r"
  shows "pl_inv (p\<lparr>pl_buffer := release (sent_length r) (pl_buffer p), pl_open := None,
      pl_sent := pl_sent p @ [payload_of r (pl_buffer p)]\<rparr>)"
proof -
  let ?b = "pl_buffer p"
  have cb: "cb_inv ?b"
    using inv by (simp add: pl_inv_def)
  obtain xss ys zs where d: "pl_accepted p = concat xss @ ys @ zs" "pl_sent p = map batch_of xss"
    "contents ?b = batch_of (ys @ zs)" "dr_data r = cb_read ?b" "dr_len r = length (batch_of ys)"
    using inv r by (auto simp: pl_inv_def)
  define as where "as = (if dr_participating r = {} then [] else ys)"
  define bs where "bs = (if dr_participating r = {} then ys @ zs else zs)"
  have len: "dr_len r \<le> cb_used ?b"
    using length_contents [OF cb] d(3,5) by (simp add: batch_of_append)
  have "chunk (cb_read ?b) (dr_len r) (cb_buf ?b) = take (dr_len r) (contents ?b)"
    using len by (simp add: contents_def chunk_def min_def)
  then have pay: "payload_of r ?b = batch_of as"
    using d by (simp add: payload_of_def as_def batch_of_append)
  have split: "contents ?b = batch_of as @ batch_of bs" "ys @ zs = as @ bs"
    using d(3) by (auto simp: as_def bs_def batch_of_append)
  have n: "sent_length r = length (batch_of as)" "sent_length r \<le> cb_used ?b"
    using d(5) len by (auto simp: sent_length_def as_def)
  have "cb_inv (release (sent_length r) ?b)"
    and "contents (release (sent_length r) ?b) = batch_of bs"
    using release_facts [OF cb n(2)] split(1) n(1) by simp_all
  moreover have "pl_accepted p = concat (xss @ [as]) @ [] @ bs" "\<forall>c \<in> set (pl_accepted p). small c"
    using d(1) split(2) inv by (simp_all add: pl_inv_def)
  ultimately show ?thesis
    unfolding pl_inv_def using d(2) pay
    by (intro conjI exI [of _ "xss @ [as]"] exI [of _ "[]"] exI [of _ bs]) simp_all
qed

lemma pl_inv_step: "pipeline_step p q \<Longrightarrow> pl_inv p \<Longrightarrow> pl_inv q"
proof (induction rule: pipeline_step.induct)
  case (refuse s c p b)
  then have "b = pl_buffer p"
    by (auto simp: pl_inv_def push_raw_cases split: if_splits)
  with refuse show ?case by simp
next
  case (leave p s)
  then show ?case by (simp add: pl_inv_def)
qed (simp_all add: pl_inv_accept pl_inv_begin pl_inv_end)

lemma pl_inv_reachable: "pl_reachable p \<Longrightarrow> pl_inv p"
proof (induction rule: pl_reachable.induct)
  case pl_start
  show ?case
    by (auto simp: pl_inv_def new_pipeline_def intro!: exI [of _ "[]"])
next
  case (pl_step p q)
  then show ?case by (simp add: pl_inv_step)
qed

section \<open>Batches drained and released in one go\<close>

text \<open>
  The same steps when nothing is pushed between \<^verbatim>\<open>drain\<close> and \<^verbatim>\<open>release\<close>.
\<close>

inductive quiet_reachable :: "pipeline \<Rightarrow> bool" where
  quiet_start: "quiet_reachable new_pipeline"
| quiet_step: "quiet_reachable p \<Longrightarrow> pl_open p = None \<Longrightarrow> pipeline_step p q \<Longrightarrow> pl_open q = None \<Longrightarrow>
    quiet_reachable q"
| quiet_batch: "quiet_reachable p \<Longrightarrow> pl_open p = None \<Longrightarrow> pipeline_step p q \<Longrightarrow> pl_open q \<noteq> None \<Longrightarrow>
    pipeline_step q q' \<Longrightarrow> pl_open q' = None \<Longrightarrow> quiet_reachable q'"

inductive_cases pipeline_stepE: "pipeline_step p q"

lemma quiet_reachable_reachable: "quiet_reachable p \<Longrightarrow> pl_reachable p \<and> pl_open p = None"
proof (induction rule: quiet_reachable.induct)
  case quiet_start
  show ?case using pl_start by (simp add: new_pipeline_def)
qed (auto intro: pl_step)

text \<open>Then the unread part of the array always starts at its front.\<close>

lemma quiet_front: "quiet_reachable p \<Longrightarrow> cb_read (pl_buffer p) = 0"
proof (induction rule: quiet_reachable.induct)
  case quiet_start
  show ?case by (simp add: new_pipeline_def new_client_buffer_def)
next
  case (quiet_step p q)
  have "cb_inv (pl_buffer p)"
    using quiet_reachable_reachable [OF quiet_step.hyps(1)] pl_inv_reachable by (simp add: pl_inv_def)
  with quiet_step show ?case
    by (auto elim!: pipeline_stepE simp: push_raw_cases pushed_def split: if_splits)
next
  case (quiet_batch p q q')
  have inv: "cb_inv (pl_buffer p)"
    using quiet_reachable_reachable [OF quiet_batch.hyps(1)] pl_inv_reachable by (simp add: pl_inv_def)
  have "pl_open q = Some (fst (drain (pl_buffer p)))" "pl_buffer q = snd (drain (pl_buffer p))"
    using quiet_batch.hyps(2,3,4) by (auto elim!: pipeline_stepE)
  moreover from this have "pl_buffer q' = release (sent_length (fst (drain (pl_buffer p)))) (snd (drain (pl_buffer p)))"
    using quiet_batch.hyps(5,6) by (auto elim!: pipeline_stepE)
  ultimately show ?case
    using quiet_batch.IH by (auto simp: drain_def release_def sent_length_def Let_def)
qed

section \<open>Pushes between drain and release\<close>

text \<open>
  One round of a proxy under load: drain, a push of \<open>c\<close>, release. The bytes in use
  stay those of one command and the write position moves on.
\<close>

definition loaded :: "int \<Rightarrow> command \<Rightarrow> nat \<Rightarrow> pipeline \<Rightarrow> bool" where
  "loaded s c n p \<longleftrightarrow> pl_reachable p \<and> pl_open p = None \<and> cb_used (pl_buffer p) = 4 + length c \<and>
    cb_write (pl_buffer p) = (n + 1) * (4 + length c) \<and> cb_participating (pl_buffer p) = {s}"

lemma loaded_0:
  assumes "4 + length c \<le> CB_CAPACITY"
  shows "\<exists>p. loaded s c 0 p"
proof -
  have "push_raw s c (length c) new_client_buffer = Inr (pushed s c new_client_buffer, True)"
    by (rule push_done [OF cb_inv_new]) (use assms in \<open>simp add: new_client_buffer_def\<close>)
  then have "pipeline_step new_pipeline
      (new_pipeline\<lparr>pl_buffer := pushed s c new_client_buffer, pl_accepted := pl_accepted new_pipeline @ [c]\<rparr>)"
    by (intro accept) (simp add: new_pipeline_def)
  then have "pl_reachable (new_pipeline\<lparr>pl_buffer := pushed s c new_client_buffer, pl_accepted := pl_accepted new_pipeline @ [c]\<rparr>)"
    by (rule pl_step [OF pl_start])
  then have "loaded s c 0
      (new_pipeline\<lparr>pl_buffer := pushed s c new_client_buffer, pl_accepted := pl_accepted new_pipeline @ [c]\<rparr>)"
    by (simp add: loaded_def pushed_def new_client_buffer_def new_pipeline_def)
  then show ?thesis ..
qed

lemma loaded_Suc:
  assumes p: "loaded s c n p" and room: "(n + 2) * (4 + length c) \<le> CB_CAPACITY"
  shows "\<exists>q. loaded s c (Suc n) q"
proof -
  let ?k = "4 + length c"
  obtain r b where d: "drain (pl_buffer p) = (r, b)" by (cases "drain (pl_buffer p)")
  define p1 where "p1 = p\<lparr>pl_buffer := b, pl_open := Some r\<rparr>"
  have 1: "pipeline_step p p1"
    unfolding p1_def using p d by (intro begin_batch) (simp_all add: loaded_def)
  have cb: "cb_inv b" "cb_write b + 4 + length c \<le> CB_CAPACITY"
    using p room pl_inv_reachable [of p] d
    by (auto simp: loaded_def pl_inv_def drain_def cb_inv_def algebra_simps)
  define p2 where "p2 = p1\<lparr>pl_buffer := pushed s c b, pl_accepted := pl_accepted p1 @ [c]\<rparr>"
  have 2: "pipeline_step p1 p2"
    unfolding p2_def using push_done [OF cb] by (intro accept) (simp add: p1_def)
  define p3 where "p3 = p2\<lparr>pl_buffer := release (sent_length r) (pl_buffer p2), pl_open := None,
      pl_sent := pl_sent p2 @ [payload_of r (pl_buffer p2)]\<rparr>"
  have 3: "pipeline_step p2 p3"
    unfolding p3_def by (intro end_batch) (simp add: p2_def p1_def)
  have "pl_reachable p"
    using p by (simp add: loaded_def)
  then have "pl_reachable p3"
    using 1 2 3 by (blast intro: pl_step)
  moreover have "sent_length r = ?k" "cb_used b = ?k" "cb_write b = (n + 1) * ?k" "cb_participating b = {}"
    using p d by (auto simp: loaded_def drain_def sent_length_def)
  ultimately have "loaded s c (Suc n) p3"
    by (auto simp: loaded_def p3_def p2_def p1_def pushed_def release_def Let_def)
  then show ?thesis ..
qed

lemma loaded_n: "(n + 1) * (4 + length c) \<le> CB_CAPACITY \<Longrightarrow> \<exists>p. loaded s c n p"
proof (induction n)
  case 0
  then show ?case by (simp add: loaded_0)
next
  case (Suc n)
  then obtain p where "loaded s c n p" by (auto simp: algebra_simps)
  with Suc.prems show ?case
    by (intro loaded_Suc [of s c n p]) simp_all
qed

section \<open>Properties\<close>

text \<open>
  C10: the shared array is a faithful pipeline of commands under every interleaving of
  client pushes, disconnects, drains and releases: each payload sent decodes to whole
  commands, and the commands of the payloads, in order, followed by those still in the
  array are exactly the accepted commands in the order of acceptance. No accepted
  command is lost, repeated, cut or reordered, though the timer thread reads through a
  pointer while clients push.
\<close>

theorem client_buffer_pipeline:
  assumes "pl_reachable p"
  shows "\<exists>css rest. map deserialize_batch (pl_sent p) = map Inr css \<and>
    deserialize_batch (contents (pl_buffer p)) = Inr rest \<and> concat css @ rest = pl_accepted p"
proof -
  obtain xss ys zs where d: "pl_accepted p = concat xss @ ys @ zs" "pl_sent p = map batch_of xss"
    "contents (pl_buffer p) = batch_of (ys @ zs)" "\<forall>c \<in> set (pl_accepted p). small c"
    using pl_inv_reachable [OF assms] by (auto simp: pl_inv_def)
  have small: "\<And>x. x \<in> set xss \<Longrightarrow> \<forall>c \<in> set x. small c" "\<forall>c \<in> set (ys @ zs). small c"
    using d(1,4) by auto
  then have "map deserialize_batch (pl_sent p) = map Inr xss"
    "deserialize_batch (contents (pl_buffer p)) = Inr (ys @ zs)"
    using d(2,3) parse_batch_of [OF small(2)] by simp_all
  with d(1) show ?thesis
    by (intro exI [of _ xss] exI [of _ "ys @ zs"]) simp
qed

lemma reachable_example:
  "pl_reachable (new_pipeline\<lparr>pl_buffer := pushed 5 [7] new_client_buffer, pl_accepted := [[7]]\<rparr>)"
proof -
  have "push_raw 5 [7] (length [7 :: byte]) new_client_buffer = Inr (pushed 5 [7] new_client_buffer, True)"
    by (rule push_done [OF cb_inv_new]) (simp add: new_client_buffer_def CB_CAPACITY_eq)
  then have "pipeline_step new_pipeline
      (new_pipeline\<lparr>pl_buffer := pushed 5 [7] new_client_buffer, pl_accepted := pl_accepted new_pipeline @ [[7]]\<rparr>)"
    by (intro accept) (simp add: new_pipeline_def)
  then show ?thesis
    using pl_step [OF pl_start] by (simp add: new_pipeline_def)
qed

theorem client_buffer_pipeline_witness:
  "\<exists>css rest. map deserialize_batch [] = map Inr css \<and>
    deserialize_batch (contents (pushed 5 [7] new_client_buffer)) = Inr rest \<and>
    concat css @ rest = [[7]]"
  using client_buffer_pipeline [OF reachable_example] by (simp add: new_pipeline_def)

text \<open>
  When no push falls between a drain and its release, no push ever writes outside
  the array: it is accepted exactly when the command and its length fit in what is
  free, and refused otherwise with the array unchanged.
\<close>

theorem quiet_push_safe:
  assumes "quiet_reachable p"
  shows "push_raw s c (length c) (pl_buffer p) =
    (if cb_used (pl_buffer p) + 4 + length c \<le> CB_CAPACITY
     then Inr (pushed s c (pl_buffer p), True) else Inr (pl_buffer p, False))"
proof -
  have inv: "cb_inv (pl_buffer p)"
    using quiet_reachable_reachable [OF assms] pl_inv_reachable by (simp add: pl_inv_def)
  moreover have "cb_write (pl_buffer p) = cb_used (pl_buffer p)"
    using quiet_front [OF assms] inv by (simp add: cb_inv_def)
  ultimately show ?thesis
    by (simp add: push_raw_cases not_less)
qed

theorem quiet_push_safe_witness:
  "push_raw 5 [1, 2] (length [1, 2 :: byte]) (pl_buffer new_pipeline) =
    Inr (pushed 5 [1, 2] (pl_buffer new_pipeline), True)"
  using quiet_push_safe [OF quiet_start, of 5 "[1, 2]"]
  by (simp add: new_pipeline_def new_client_buffer_def CB_CAPACITY_eq)

text \<open>
  C39: the guard of \<^verbatim>\<open>push_raw\<close> tests the bytes in use, not the write position, and
  the positions return to the front only when the array is empty. A client that pushes
  between each drain and its release moves the write position to the end, after which a
  push that passes the guard writes behind the array: for every command of at most half
  the capacity there is a pl_reachable state where that happens.
\<close>

theorem window_pushes_overflow:
  assumes "2 * (4 + length c) \<le> CB_CAPACITY"
  shows "\<exists>p. pl_reachable p \<and> cb_used (pl_buffer p) + 4 + length c \<le> CB_CAPACITY \<and>
    push_raw s c (length c) (pl_buffer p) = Inl OutOfBounds"
proof -
  let ?k = "4 + length c"
  define n where "n = CB_CAPACITY div ?k - 1"
  have "1 \<le> CB_CAPACITY div ?k"
    using assms by (simp add: div_greater_zero_iff Suc_leI)
  then have n: "n + 1 = CB_CAPACITY div ?k" by (simp add: n_def)
  then have "(n + 1) * ?k \<le> CB_CAPACITY" by simp
  then obtain p where p: "loaded s c n p" using loaded_n by blast
  have "CB_CAPACITY < (n + 1) * ?k + ?k"
    using dividend_less_times_div [of ?k CB_CAPACITY] n by (simp add: algebra_simps)
  then have "push_raw s c (length c) (pl_buffer p) = Inl OutOfBounds"
    using p assms pl_inv_reachable [of p]
    by (intro push_fault) (auto simp: loaded_def pl_inv_def)
  with p assms show ?thesis
    by (auto simp: loaded_def intro!: exI [of _ p])
qed

theorem window_pushes_overflow_witness:
  "\<exists>p. pl_reachable p \<and> cb_used (pl_buffer p) + 4 + length (replicate 1000 (0 :: byte)) \<le> CB_CAPACITY \<and>
    push_raw 5 (replicate 1000 0) (length (replicate 1000 (0 :: byte))) (pl_buffer p) = Inl OutOfBounds"
  by (rule window_pushes_overflow) (simp add: CB_CAPACITY_eq)

end
