(* ===== verification/Double.thy ===== *)
theory Double
  imports Complex_Main
begin

text \<open>
  The binary64 arithmetic of the slot estimates and allocations, on non-negative
  values. A double is the rational it stands for; an operation is the exact one followed
  by \<open>fl\<close>, rounding to 53 significant bits, ties to even. The values of the program
  lie between \<open>2^-65\<close> and \<open>2^66\<close>, so neither subnormals nor infinities occur.
\<close>

section \<open>Rounding\<close>

fun nlog2 :: "nat \<Rightarrow> nat" where
  "nlog2 n = (if n \<le> 1 then 0 else Suc (nlog2 (n div 2)))"

declare nlog2.simps [simp del]

text \<open>The exponent of the binade of a positive rational.\<close>

definition binade :: "rat \<Rightarrow> int" where
  "binade x =
    (if 1 \<le> x then int (nlog2 (nat \<lfloor>x\<rfloor>)) else - int (Suc (nlog2 (nat (\<lceil>1 / x\<rceil> - 1)))))"

definition ulp :: "rat \<Rightarrow> rat" where
  "ulp x = 2 powi (binade x - 52)"

definition rne :: "rat \<Rightarrow> int" where
  "rne y =
    (let f = \<lfloor>y\<rfloor>; d = y - of_int f
     in if d < 1 / 2 then f else if 1 / 2 < d then f + 1 else if even f then f else f + 1)"

definition fl :: "rat \<Rightarrow> rat" where
  "fl x = (if x \<le> 0 then 0 else of_int (rne (x / ulp x)) * ulp x)"

section \<open>Facts on rounding\<close>

lemma nlog2_bounds: "0 < n \<Longrightarrow> 2 ^ nlog2 n \<le> n \<and> n < 2 ^ Suc (nlog2 n)"
proof (induction n rule: nlog2.induct)
  case (1 n)
  show ?case
  proof (cases "n \<le> 1")
    case True
    with 1 show ?thesis by (simp add: nlog2.simps [of n])
  next
    case False
    then have "2 ^ nlog2 (n div 2) \<le> n div 2 \<and> n div 2 < 2 ^ Suc (nlog2 (n div 2))"
      using 1 by simp
    moreover have "2 * (n div 2) \<le> n" "n < 2 * (n div 2) + 2"
      by linarith+
    moreover have "nlog2 n = Suc (nlog2 (n div 2))"
      using False by (simp add: nlog2.simps [of n])
    ultimately show ?thesis by auto
  qed
qed

lemma binade_bounds:
  assumes "0 < x"
  shows "2 powi binade x \<le> x" and "x < 2 powi (binade x + 1)"
proof -
  have "2 powi binade x \<le> x \<and> x < 2 powi (binade x + 1)"
  proof (cases "1 \<le> x")
    case True
    let ?n = "nat \<lfloor>x\<rfloor>"
    have n: "0 < ?n" "of_nat ?n \<le> x" "x < of_nat ?n + 1"
      using True by (simp_all add: of_nat_nat) linarith
    have "(of_nat (2 ^ nlog2 ?n) :: rat) \<le> of_nat ?n" "(of_nat (?n + 1) :: rat) \<le> of_nat (2 ^ Suc (nlog2 ?n))"
      using nlog2_bounds [OF n(1)] by (simp_all only: of_nat_le_iff) simp
    then have "2 ^ nlog2 ?n \<le> x" "x < 2 ^ Suc (nlog2 ?n)"
      using n(2,3) by (simp_all only: of_nat_power of_nat_numeral of_nat_add of_nat_1)
    moreover have "binade x = int (nlog2 ?n)" "binade x + 1 = int (Suc (nlog2 ?n))"
      using True by (simp_all add: binade_def)
    ultimately show ?thesis
      by (simp only: power_int_of_nat)
  next
    case False
    define m where "m = nat (\<lceil>1 / x\<rceil> - 1)"
    have "1 < 1 / x"
      using False assms by (simp add: field_simps)
    then have "1 < \<lceil>1 / x\<rceil>" by linarith
    then have m: "0 < m" "of_nat m < 1 / x" "1 / x \<le> of_nat m + 1"
      by (simp_all add: m_def of_nat_nat) linarith+
    have "(of_nat (2 ^ nlog2 m) :: rat) \<le> of_nat m" "(of_nat (m + 1) :: rat) \<le> of_nat (2 ^ Suc (nlog2 m))"
      using nlog2_bounds [OF m(1)] by (simp_all only: of_nat_le_iff) simp
    then have "2 ^ nlog2 m < 1 / x" "1 / x \<le> 2 ^ Suc (nlog2 m)"
      using m(2,3) by (simp_all only: of_nat_power of_nat_numeral of_nat_add of_nat_1)
    moreover have "binade x = - int (Suc (nlog2 m))" "binade x + 1 = - int (nlog2 m)"
      using False by (simp_all add: binade_def m_def)
    then have "2 powi binade x = (1 :: rat) / 2 ^ Suc (nlog2 m)"
      "2 powi (binade x + 1) = (1 :: rat) / 2 ^ nlog2 m"
      by (simp_all only: power_int_minus power_int_of_nat inverse_eq_divide)
    moreover have "1 / y \<le> x \<longleftrightarrow> 1 / x \<le> y" "x < 1 / y \<longleftrightarrow> y < 1 / x" if "0 < y" for y
      using assms that by (simp_all add: field_simps)
    ultimately show ?thesis by simp
  qed
  then show "2 powi binade x \<le> x" and "x < 2 powi (binade x + 1)"
    by auto
qed

lemma ulp_pos [simp]: "0 < ulp x"
  by (simp add: ulp_def)

lemma ulp_nonzero [simp]: "ulp x \<noteq> 0"
  using ulp_pos [of x] by linarith

lemma ulp_le: "0 < x \<Longrightarrow> 2 ^ 52 * ulp x \<le> x" and ulp_gt: "0 < x \<Longrightarrow> x < 2 ^ 53 * ulp x"
  using binade_bounds [of x] by (simp_all add: ulp_def power_int_diff power_int_add)

lemma rne_error: "\<bar>of_int (rne y) - y\<bar> \<le> 1 / 2"
proof -
  have "of_int \<lfloor>y\<rfloor> \<le> y" "y < of_int \<lfloor>y\<rfloor> + 1" by linarith+
  then show ?thesis by (auto simp: rne_def Let_def)
qed

lemma rne_of_int [simp]: "rne (of_int k) = k"
  by (simp add: rne_def)

lemma rne_mono:
  assumes "x \<le> y"
  shows "rne x \<le> rne y"
proof -
  have f: "\<lfloor>x\<rfloor> \<le> \<lfloor>y\<rfloor>" using assms by (rule floor_mono)
  have bx: "rne x \<le> \<lfloor>x\<rfloor> + 1" and "\<lfloor>y\<rfloor> \<le> rne y"
    by (simp_all add: rne_def Let_def)
  show ?thesis
  proof (cases "\<lfloor>x\<rfloor> = \<lfloor>y\<rfloor>")
    case True
    with assms show ?thesis by (simp add: rne_def Let_def)
  next
    case False
    with f bx \<open>\<lfloor>y\<rfloor> \<le> rne y\<close> show ?thesis by linarith
  qed
qed

lemma fl_0 [simp]: "fl 0 = 0"
  by (simp add: fl_def)

lemma fl_error:
  assumes "0 \<le> x"
  shows "\<bar>fl x - x\<bar> \<le> x / 2 ^ 53"
proof (cases "x = 0")
  case False
  with assms have x: "0 < x" by simp
  have "fl x - x = (of_int (rne (x / ulp x)) - x / ulp x) * ulp x"
    using x by (simp add: fl_def field_simps)
  also have "\<bar>\<dots>\<bar> = \<bar>of_int (rne (x / ulp x)) - x / ulp x\<bar> * ulp x"
    by (simp add: abs_mult less_imp_le)
  also have "\<dots> \<le> 1 / 2 * ulp x"
    using rne_error [of "x / ulp x"] by (intro mult_right_mono) (simp_all add: less_imp_le)
  also have "\<dots> \<le> x / 2 ^ 53"
    using ulp_le [OF x] by simp
  finally show ?thesis .
qed simp

lemma fl_nonneg: "0 \<le> x \<Longrightarrow> 0 \<le> fl x"
  using fl_error [of x] abs_ge_minus_self [of "fl x - x"] by (cases "x = 0") auto

lemma fl_ge: "0 \<le> x \<Longrightarrow> x - x / 2 ^ 53 \<le> fl x"
  using fl_error [of x] by (simp only: abs_le_iff) simp

lemma fl_le: "0 \<le> x \<Longrightarrow> fl x \<le> x * (1 + 1 / 2 ^ 53)"
  using abs_ge_self [of "fl x - x"] fl_error [of x] by (simp add: distrib_left)

lemma powi2_less_iff: "(2 :: rat) powi a < 2 powi b \<longleftrightarrow> a < b"
proof
  assume "(2 :: rat) powi a < 2 powi b"
  then show "a < b"
    using power_int_increasing [of b a "2 :: rat"] by (cases "a < b") (simp_all add: not_less)
next
  assume "a < b"
  then show "(2 :: rat) powi a < 2 powi b"
    by (rule power_int_strict_increasing) simp
qed

lemma powi2_le_iff: "(2 :: rat) powi a \<le> 2 powi b \<longleftrightarrow> a \<le> b"
  by (simp add: powi2_less_iff flip: not_less)

lemma binade_unique:
  assumes "2 powi k \<le> x" and "x < 2 powi (k + 1)"
  shows "binade x = k"
proof -
  have "0 < x"
    using assms(1) by (rule less_le_trans [rotated]) simp
  note b = binade_bounds [OF this]
  have "2 powi binade x < (2 :: rat) powi (k + 1)" "2 powi k < (2 :: rat) powi (binade x + 1)"
    using b assms by linarith+
  then have "binade x < k + 1" "k < binade x + 1"
    by (auto simp: powi2_less_iff)
  then show ?thesis by simp
qed

text \<open>Multiples of the unit that are not too large are exact.\<close>

lemma fl_grid:
  assumes "0 < j" and "j \<le> (2 :: int) ^ 53"
  shows "fl (of_int j * 2 powi e) = of_int j * 2 powi e"
proof -
  let ?x = "of_int j * 2 powi e :: rat"
  have x: "0 < ?x" using assms by simp
  have "(of_int j :: rat) \<le> of_int (2 ^ 53)"
    using assms(2) by (simp only: of_int_le_iff)
  then have "?x \<le> of_int (2 ^ 53) * 2 powi e"
    by (intro mult_right_mono) simp_all
  also have "of_int (2 ^ 53) * 2 powi e = (2 :: rat) powi (53 + e)"
    by (simp add: power_int_add)
  finally have "2 powi binade ?x \<le> (2 :: rat) powi (53 + e)"
    using binade_bounds(1) [OF x] by linarith
  then have b: "binade ?x \<le> 53 + e"
    by (simp add: powi2_le_iff)
  have "\<exists>m. ?x / ulp ?x = of_int m"
  proof (cases "binade ?x - 52 \<le> e")
    case True
    then obtain k where k: "e = binade ?x - 52 + int k"
      by (metis zle_iff_zadd)
    have "2 powi e = (2 :: rat) ^ k * ulp ?x"
      unfolding ulp_def by (subst (1) k) (simp add: power_int_add)
    then have "?x / ulp ?x = of_int j * (2 ^ k * ulp ?x) / ulp ?x"
      by (rule arg_cong)
    then have "?x / ulp ?x = of_int j * 2 ^ k" by simp
    then show ?thesis by (intro exI [of _ "j * 2 ^ k"]) simp
  next
    case False
    with b have "binade ?x = 53 + e" by simp
    then have "2 ^ 53 * 2 powi e \<le> ?x" and u: "ulp ?x = 2 * 2 powi e"
      using binade_bounds(1) [OF x] by (simp_all add: power_int_add ulp_def power_int_diff)
    then have "of_int (2 ^ 53) \<le> (of_int j :: rat)" by simp
    then have "j = 2 ^ 53" using assms(2) by (simp only: of_int_le_iff)
    with u show ?thesis by (intro exI [of _ "2 ^ 52"]) simp
  qed
  then obtain m where m: "?x / ulp ?x = of_int m" ..
  then have "fl ?x = of_int m * ulp ?x"
    using x by (simp only: fl_def m rne_of_int) simp
  with m show ?thesis by (simp add: field_simps)
qed

lemma fl_of_nat: "n \<le> 2 ^ 53 \<Longrightarrow> fl (of_nat n) = of_nat n"
  using fl_grid [of "int n" 0] by (cases "n = 0") simp_all

lemma fl_mono:
  assumes "0 \<le> x" and "x \<le> y"
  shows "fl x \<le> fl y"
proof (cases "x = 0")
  case True
  with assms fl_nonneg show ?thesis by simp
next
  case False
  with assms have x: "0 < x" and y: "0 < y" by simp_all
  show ?thesis
  proof (cases "binade x = binade y")
    case True
    then have "ulp x = ulp y" by (simp add: ulp_def)
    then have "x / ulp x \<le> y / ulp x"
      using assms(2) by (simp add: divide_right_mono less_imp_le)
    with \<open>ulp x = ulp y\<close> x y show ?thesis
      by (simp add: fl_def rne_mono mult_right_mono less_imp_le)
  next
    case False
    have "2 powi binade x < (2 :: rat) powi (binade y + 1)"
      using binade_bounds [OF x] binade_bounds [OF y] assms(2) by linarith
    then have "binade x < binade y + 1"
      by (simp add: powi2_less_iff)
    with False have b: "binade x + 1 \<le> binade y" by simp
    have "x / ulp x \<le> of_int (2 ^ 53)" "of_int (2 ^ 52) \<le> y / ulp y"
      using ulp_gt [OF x] ulp_le [OF y] by (simp_all add: field_simps)
    then have "rne (x / ulp x) \<le> 2 ^ 53" "2 ^ 52 \<le> rne (y / ulp y)"
      using rne_mono by (metis rne_of_int)+
    then have "(of_int (rne (x / ulp x)) :: rat) \<le> of_int (2 ^ 53)"
      "(of_int (2 ^ 52) :: rat) \<le> of_int (rne (y / ulp y))"
      by (simp_all only: of_int_le_iff)
    then have "fl x \<le> 2 ^ 53 * ulp x" "2 ^ 52 * ulp y \<le> fl y"
      using x y by (simp_all add: fl_def)
    moreover have "2 powi (binade x + 1) \<le> (2 :: rat) powi binade y"
      using b by (simp add: power_int_increasing)
    then have "2 ^ 53 * ulp x \<le> 2 ^ 52 * ulp y"
      by (simp add: ulp_def power_int_diff power_int_add)
    ultimately show ?thesis by linarith
  qed
qed

end
