(* ===== verification/Slot_Scheduler.thy ===== *)
theory Slot_Scheduler
  imports Prelude Double
begin

text \<open>
  \<^verbatim>\<open>impl/proxy/slot_scheduler.h\<close>: the sequence numbers and send times a proxy holds,
  and the rolling estimate of its load. The two deques are lists, the front first.
\<close>

section \<open>State and operations\<close>

record slot_scheduler =
  max_epoch_history :: nat
  request_count :: u64
  estimate_history :: "u64 list"
  sequences :: "seq_num list"
  timeouts :: "timestamp list"
  next_send :: timestamp

definition new_scheduler :: "nat \<Rightarrow> slot_scheduler" where
  "new_scheduler n =
    \<lparr>max_epoch_history = n, request_count = 0, estimate_history = [], sequences = [],
     timeouts = [], next_send = 0\<rparr>"

text \<open>The loop of \<^verbatim>\<open>load_slots\<close>, from index \<open>i\<close> on.\<close>

fun load_values :: "nat \<Rightarrow> u64 list \<Rightarrow> slot_scheduler \<Rightarrow> slot_scheduler" where
  "load_values i [] s = s"
| "load_values i (v # vs) s =
    load_values (i + 1) vs
      (if i mod 2 = 0 then s\<lparr>timeouts := timeouts s @ [v]\<rparr>
       else s\<lparr>sequences := sequences s @ [v]\<rparr>)"

definition load_slots :: "u64 list \<Rightarrow> slot_scheduler \<Rightarrow> fault + slot_scheduler" where
  "load_slots ordering_values s =
    (let s1 = load_values 0 ordering_values s;
         s2 = (if timeouts s1 \<noteq> [] then s1\<lparr>next_send := hd (timeouts s1)\<rparr> else s1)
     in require (length (timeouts s2) = length (sequences s2)) AssertFailed (Inr s2))"

definition record_request :: "slot_scheduler \<Rightarrow> slot_scheduler" where
  "record_request s = s\<lparr>request_count := request_count s + 1\<rparr>"

text \<open>
  \<^verbatim>\<open>std::ceil\<close> of a double is exact; its conversion to \<^verbatim>\<open>uint64_t\<close> is undefined
  from \<open>2^64\<close> on.
\<close>

definition ceil_mean :: "u64 \<Rightarrow> nat \<Rightarrow> fault + u64" where
  "ceil_mean avg n =
    (let c = \<lceil>fl (fl (of_nat (unat avg)) / fl (of_nat n))\<rceil>
     in require (c < 2 ^ 64) Overflow (Inr (of_int c)))"

definition compute_estimate :: "slot_scheduler \<Rightarrow> fault + (u64 \<times> slot_scheduler)" where
  "compute_estimate s =
    (let hist = estimate_history s @ [request_count s];
         hist = (if max_epoch_history s < length hist then tl hist else hist);
         s' = s\<lparr>estimate_history := hist, request_count := 0\<rparr>
     in if hist = [] then Inr (0, s')
        else map_res (\<lambda>e. (e, s')) (ceil_mean (foldl (+) 0 hist) (length hist)))"

definition pop_next_slot :: "slot_scheduler \<Rightarrow> ((timestamp \<times> seq_num) \<times> slot_scheduler) option" where
  "pop_next_slot s =
    (if next_send s = 0 \<or> sequences s = [] then None
     else let ts = tl (timeouts s) in
       Some ((hd (timeouts s), hd (sequences s)),
         s\<lparr>sequences := tl (sequences s), timeouts := ts,
           next_send := (if ts = [] then 0 else hd ts)\<rparr>))"

definition has_slots :: "slot_scheduler \<Rightarrow> bool" where
  "has_slots s \<longleftrightarrow> sequences s \<noteq> []"

definition push_front :: "timestamp \<Rightarrow> seq_num \<Rightarrow> slot_scheduler \<Rightarrow> slot_scheduler" where
  "push_front ts sq s =
    (let s = s\<lparr>timeouts := ts # timeouts s, sequences := sq # sequences s\<rparr>
     in s\<lparr>next_send := hd (timeouts s)\<rparr>)"

section \<open>The queue of slots\<close>

definition slots :: "slot_scheduler \<Rightarrow> (timestamp \<times> seq_num) list" where
  "slots s = zip (timeouts s) (sequences s)"

definition slots_inv :: "slot_scheduler \<Rightarrow> bool" where
  "slots_inv s \<longleftrightarrow> length (timeouts s) = length (sequences s) \<and>
    next_send s = (case timeouts s of [] \<Rightarrow> 0 | t # _ \<Rightarrow> t)"

text \<open>The wire form of slots: time stamps and sequence numbers alternate.\<close>

fun interleave :: "(timestamp \<times> seq_num) list \<Rightarrow> u64 list" where
  "interleave [] = []"
| "interleave ((t, q) # ps) = t # q # interleave ps"

lemma interleave_append: "interleave (ps @ qs) = interleave ps @ interleave qs"
  by (induction ps) auto

lemma slots_inv_new [simp]: "slots_inv (new_scheduler n)"
  by (simp add: slots_inv_def new_scheduler_def)

lemma slots_new [simp]: "slots (new_scheduler n) = []"
  by (simp add: slots_def new_scheduler_def)

lemma load_values_interleave:
  "i mod 2 = 0 \<Longrightarrow> load_values i (interleave ps) s =
    s\<lparr>timeouts := timeouts s @ map fst ps, sequences := sequences s @ map snd ps\<rparr>"
proof (induction ps arbitrary: i s)
  case (Cons p ps)
  have "(i + 1) mod 2 \<noteq> 0" "(i + 1 + 1) mod 2 = 0"
    using Cons.prems by presburger+
  with Cons show ?case by (cases p) simp
qed simp

lemma load_values_lengths:
  "length (timeouts (load_values i vs s)) + length (sequences (load_values i vs s))
     = length (timeouts s) + length (sequences s) + length vs"
  by (induction i vs s rule: load_values.induct) auto

lemma load_slots_interleave:
  assumes "slots_inv s"
  shows "\<exists>s'. load_slots (interleave ps) s = Inr s' \<and> slots_inv s' \<and> slots s' = slots s @ ps"
  using assms
  by (auto simp: load_slots_def load_values_interleave slots_inv_def slots_def Let_def zip_map_fst_snd
      split: list.splits)

lemma load_slots_odd:
  assumes "slots_inv s" and "odd (length vs)"
  shows "load_slots vs s = Inl AssertFailed"
proof -
  let ?s = "load_values 0 vs s"
  have "odd (length (timeouts ?s) + length (sequences ?s))"
    using assms by (simp add: load_values_lengths slots_inv_def)
  then have "length (timeouts ?s) \<noteq> length (sequences ?s)" by presburger
  then show ?thesis
    by (auto simp: load_slots_def Let_def)
qed

lemma push_front_slots:
  "slots_inv s \<Longrightarrow> slots_inv (push_front ts sq s) \<and> slots (push_front ts sq s) = (ts, sq) # slots s"
  by (simp add: slots_inv_def slots_def push_front_def)

lemma pop_next_slot_cases:
  assumes "slots_inv s"
  shows "(case pop_next_slot s of
      None \<Rightarrow> slots s = [] \<or> fst (hd (slots s)) = 0
    | Some (p, s') \<Rightarrow> slots s = p # slots s' \<and> fst p \<noteq> 0 \<and> slots_inv s')"
  using assms
  by (cases "timeouts s"; cases "sequences s")
    (auto simp: pop_next_slot_def slots_inv_def slots_def Let_def split: list.splits)

lemma pop_next_slot_keeps [simp]:
  "pop_next_slot s = Some (p, s') \<Longrightarrow> length (sequences s') < length (sequences s)"
  by (auto simp: pop_next_slot_def Let_def split: if_splits)

section \<open>The estimate\<close>

text \<open>For exact sums the rounded division does not change the ceiling.\<close>

lemma ceil_fl_div:
  assumes n: "0 < n" and a: "a < 2 ^ 53"
  shows "\<lceil>fl (of_nat a / of_nat n)\<rceil> = int ((a + n - 1) div n)"
proof (cases "a = 0")
  case False
  define k where "k = (a + n - 1) div n"
  let ?x = "of_nat a / of_nat n :: rat"
  have x: "0 < ?x" using False n by simp
  have "a \<le> k * n"
  proof -
    have "a + n - 1 < (k + 1) * n"
      using dividend_less_times_div [OF n, of "a + n - 1"] by (simp add: k_def algebra_simps)
    with n show ?thesis by simp
  qed
  moreover have k1: "(k - 1) * n + 1 \<le> a"
  proof -
    have "k * n \<le> a + n - 1" by (simp add: k_def)
    moreover have "0 < k" using False n by (simp add: k_def div_greater_zero_iff)
    then have "k * n = (k - 1) * n + n" by (cases k) simp_all
    ultimately show ?thesis using False n by linarith
  qed
  ultimately have up: "?x \<le> of_nat k"
    using n by (simp add: divide_le_eq flip: of_nat_mult)
  have "k \<le> a"
  proof (cases k)
    case (Suc j)
    have "j * 1 \<le> j * n" using n by (intro mult_le_mono2) simp
    moreover have "j * n + 1 \<le> a" using Suc k1 by simp
    ultimately show ?thesis using Suc by linarith
  qed simp
  then have "fl ?x \<le> of_nat k"
    using fl_mono [OF _ up] fl_of_nat [of k] x a by simp
  moreover have "of_nat (k - 1) < fl ?x"
  proof -
    have "of_nat (k - 1) * of_nat n + 1 \<le> (of_nat a :: rat)"
      using k1 by (metis of_nat_1 of_nat_add of_nat_le_iff of_nat_mult)
    moreover have "of_nat a / 2 ^ 53 < (1 :: rat)"
      using a by (simp add: divide_less_eq)
    ultimately have "of_nat (k - 1) * of_nat n < (of_nat a - of_nat a / 2 ^ 53 :: rat)"
      by linarith
    then have "of_nat (k - 1) < ?x - ?x / 2 ^ 53"
      using n by (simp add: field_simps)
    moreover have "?x - ?x / 2 ^ 53 \<le> fl ?x"
      using x by (intro fl_ge) simp
    ultimately show ?thesis by linarith
  qed
  moreover have "0 < k" using False n by (simp add: k_def div_greater_zero_iff)
  ultimately have "\<lceil>fl ?x\<rceil> = int k"
    by (intro ceiling_unique) (simp_all add: of_nat_diff)
  then show ?thesis by (simp add: k_def)
qed (use n in simp)

lemma foldl_plus_word:
  fixes xs :: "u64 list"
  assumes "unat z + sum_list (map unat xs) < 2 ^ 64"
  shows "unat (foldl (+) z xs) = unat z + sum_list (map unat xs)"
  using assms
proof (induction xs arbitrary: z)
  case (Cons x xs)
  then have "unat (z + x) = unat z + unat x"
    by (intro unat_add_lem [THEN iffD1]) simp
  with Cons show ?case by simp
qed simp


section \<open>Properties\<close>

text \<open>
  The scheduler is a queue of slots. The alternating values of a ZIP_RESPONSE load
  as pairs behind the slots already there, a popped slot is the oldest one, and
  \<^verbatim>\<open>push_front\<close> takes back what \<^verbatim>\<open>pop_next_slot\<close> gave. A slot for time 0 is taken for
  an empty queue and blocks the ones behind it; an odd number of values fails the
  assertion.
\<close>

theorem slots_refine_queue:
  assumes "slots_inv s"
  shows "(\<exists>s'. load_slots (interleave ps) s = Inr s' \<and> slots_inv s' \<and> slots s' = slots s @ ps) \<and>
    (odd (length vs) \<longrightarrow> load_slots vs s = Inl AssertFailed) \<and>
    slots_inv (push_front ts sq s) \<and> slots (push_front ts sq s) = (ts, sq) # slots s \<and>
    (ts \<noteq> 0 \<longrightarrow> pop_next_slot (push_front ts sq s) = Some ((ts, sq), s)) \<and>
    (case pop_next_slot s of
       None \<Rightarrow> slots s = [] \<or> fst (hd (slots s)) = 0
     | Some (p, s') \<Rightarrow> slots s = p # slots s' \<and> fst p \<noteq> 0 \<and> slots_inv s')"
proof (intro conjI impI)
  show "pop_next_slot (push_front ts sq s) = Some ((ts, sq), s)" if "ts \<noteq> 0"
    using assms that
    by (cases "timeouts s") (simp_all add: pop_next_slot_def push_front_def slots_inv_def)
qed (use assms load_slots_interleave load_slots_odd push_front_slots pop_next_slot_cases in blast)+

theorem slots_refine_queue_witness:
  "load_slots (interleave [(10, 1), (20, 2)]) (new_scheduler 3) =
     Inr ((new_scheduler 3)\<lparr>sequences := [1, 2], timeouts := [10, 20], next_send := 10\<rparr>) \<and>
   load_slots [10, 1, 20] (new_scheduler 3) = Inl AssertFailed \<and>
   pop_next_slot (push_front 5 9 (new_scheduler 3)) = Some ((5, 9), new_scheduler 3)"
  using slots_refine_queue [OF slots_inv_new, where vs = "[10, 1, 20]" and ts = 5 and sq = 9]
  by (simp add: load_slots_def new_scheduler_def)

text \<open>
  C38: the estimate of an epoch is the mean of the request counts of the last epochs,
  rounded up, computed exactly although the code divides doubles: as long as the counts
  of the window sum to less than \<open>2^53\<close> no rounding error reaches the ceiling. The count
  restarts from 0 and the window keeps the most recent epochs.
\<close>

theorem estimate_is_mean_up:
  assumes "0 < max_epoch_history s" and "length (estimate_history s) \<le> max_epoch_history s"
    and "sum_list (map unat (estimate_history s)) + unat (request_count s) < 2 ^ 53"
    and "length (estimate_history s) < 2 ^ 53"
  shows "\<exists>e s'. compute_estimate s = Inr (e, s') \<and>
    estimate_history s' = drop (length (estimate_history s) + 1 - max_epoch_history s)
      (estimate_history s @ [request_count s]) \<and>
    request_count s' = 0 \<and> slots s' = slots s \<and>
    unat e = (sum_list (map unat (estimate_history s')) + length (estimate_history s') - 1)
      div length (estimate_history s')"
proof -
  let ?h = "estimate_history s @ [request_count s]"
  define h where "h = (if max_epoch_history s < length ?h then tl ?h else ?h)"
  have "length (estimate_history s) + 1 - max_epoch_history s = (if max_epoch_history s < length ?h then 1 else 0)"
    using assms(2) by auto
  then have h: "h = drop (length (estimate_history s) + 1 - max_epoch_history s) ?h"
    by (simp add: h_def drop_Suc del: drop_append)
  have ne: "0 < length h"
    using assms(1,2) by (simp add: h)
  have "sum_list (map unat h) \<le> sum_list (map unat ?h)"
    by (cases "estimate_history s") (auto simp: h_def)
  then have sum: "sum_list (map unat h) < 2 ^ 53"
    using assms(3) by simp
  then have total: "unat (foldl (+) 0 h) = sum_list (map unat h)"
    using foldl_plus_word [of 0 h] by simp
  have len: "length h \<le> 2 ^ 53"
    using assms(4) by (simp add: h)
  let ?e = "(sum_list (map unat h) + length h - 1) div length h"
  have "\<lceil>fl (fl (of_nat (unat (foldl (+) 0 h))) / fl (of_nat (length h)))\<rceil> = int ?e"
    using ceil_fl_div [OF ne sum] fl_of_nat [OF len] fl_of_nat [of "sum_list (map unat h)"] sum
    by (simp only: total)
  moreover have e: "?e < 2 ^ 64"
    by (rule le_less_trans [OF div_le_dividend]) (use sum len in simp)
  ultimately have cm: "ceil_mean (foldl (+) 0 h) (length h) = Inr (of_nat ?e)"
    by (simp add: ceil_mean_def of_nat_less_numeral_iff)
  have ue: "unat (of_nat ?e :: u64) = ?e"
    using e by (intro unat_of_nat_eq) simp
  let ?s = "s\<lparr>estimate_history := h, request_count := 0\<rparr>"
  have "compute_estimate s = map_res (\<lambda>e. (e, ?s)) (ceil_mean (foldl (+) 0 h) (length h))"
    unfolding compute_estimate_def Let_def h_def [symmetric] using ne by simp
  then have "compute_estimate s = Inr (of_nat ?e, ?s)"
    by (simp only: cm map_res_Inr)
  moreover have "estimate_history ?s = drop (length (estimate_history s) + 1 - max_epoch_history s) ?h"
    by (subst h [symmetric]) simp
  moreover have "unat (of_nat ?e :: u64) = (sum_list (map unat (estimate_history ?s)) + length (estimate_history ?s) - 1)
      div length (estimate_history ?s)"
    by (simp only: ue) simp
  ultimately show ?thesis
    by (intro exI [of _ "of_nat ?e"] exI [of _ ?s] conjI) (assumption | simp add: slots_def)+
qed

theorem estimate_is_mean_up_witness:
  "\<exists>e s'. compute_estimate ((new_scheduler 2)\<lparr>estimate_history := [9, 4], request_count := 3\<rparr>)
      = Inr (e, s') \<and> estimate_history s' = [4, 3] \<and> request_count s' = 0 \<and> unat e = 4"
  using estimate_is_mean_up [of "(new_scheduler 2)\<lparr>estimate_history := [9, 4], request_count := 3\<rparr>"]
  by (auto simp: new_scheduler_def simp flip: numeral_2_eq_2)

end
