(* ===== verification/Server_Replicator.thy ===== *)
theory Server_Replicator
  imports Framing "HOL-Library.Sublist"
begin

text \<open>
  \<^verbatim>\<open>impl/proxy/server_replicator.h\<close>: one worker thread per server with a queue of
  wire images, and a caller that spins until a quorum of workers has acknowledged its
  item. A step is what a thread does under one lock or in one exchange with its server;
  the steps of the workers interleave freely.
\<close>

section \<open>State\<close>

text \<open>
  An item is a wire image and its \<^verbatim>\<open>ReplicationState\<close>, named by the order in which the
  states were made. \<open>w_busy\<close>: the front of the queue is on its way to the server (the
  code has popped it). \<open>w_out\<close> and \<open>w_acked\<close> are history: the bytes the worker's socket took
  and how many items it acknowledged. \<open>w_exited\<close> says that the thread has left its loop.
\<close>

record worker =
  w_connected :: bool
  w_rb :: read_buffer
  w_queue :: "(byte list \<times> nat) list"
  w_busy :: bool
  w_shutdown :: bool
  w_exited :: bool
  w_out :: "byte list"
  w_acked :: nat

record replicator =
  rp_quorum :: nat
  rp_workers :: "worker list"
  rp_live :: int
  rp_acks :: "nat \<Rightarrow> int"
  rp_wires :: "byte list list"

section \<open>Operations\<close>

definition new_worker :: "byte list \<Rightarrow> worker" where
  "new_worker junk =
    \<lparr>w_connected = False, w_rb = fresh_buffer junk, w_queue = [], w_busy = False, w_shutdown = False,
     w_exited = False, w_out = [], w_acked = 0\<rparr>"

text \<open>\<^verbatim>\<open>start\<close>: a worker for each of the \<open>n\<close> servers.\<close>

definition start_replicator :: "nat \<Rightarrow> nat \<Rightarrow> byte list \<Rightarrow> replicator" where
  "start_replicator n quorum junk =
    \<lparr>rp_quorum = quorum, rp_workers = replicate n (new_worker junk), rp_live = int n,
     rp_acks = (\<lambda>_. 0), rp_wires = []\<rparr>"

text \<open>The first half of \<^verbatim>\<open>replicate_bytes\<close>: a fresh state, and a copy for every worker.\<close>

definition enqueue_all :: "byte list \<Rightarrow> replicator \<Rightarrow> replicator" where
  "enqueue_all wire r =
    (let state = length (rp_wires r) in
     r\<lparr>rp_workers := map (\<lambda>w. w\<lparr>w_queue := w_queue w @ [(wire, state)]\<rparr>) (rp_workers r),
       rp_acks := (rp_acks r)(state := 0),
       rp_wires := rp_wires r @ [wire]\<rparr>)"

text \<open>
  The second half, one turn of its loop: the counter is read, in \<open>r\<close>, and later, in \<open>r'\<close>, the number of
  workers. \<open>Some\<close> answer ends the loop, \<open>None\<close> spins on.
\<close>

definition enough :: "nat \<Rightarrow> replicator \<Rightarrow> bool" where
  "enough state r \<longleftrightarrow> \<not> rp_acks r state < int (rp_quorum r)"

definition none_left :: "replicator \<Rightarrow> bool" where
  "none_left r \<longleftrightarrow> rp_live r = 0"

definition await :: "nat \<Rightarrow> replicator \<Rightarrow> replicator \<Rightarrow> bool option" where
  "await state r r' = (if enough state r then Some True else if none_left r' then Some False else None)"

definition rp_shutdown :: "replicator \<Rightarrow> replicator" where
  "rp_shutdown r = r\<lparr>rp_workers := map (\<lambda>w. w\<lparr>w_shutdown := True\<rparr>) (rp_workers r)\<rparr>"

text \<open>
  The exchange of \<^verbatim>\<open>worker_loop\<close> with its server: send the image, then read one
  message, whatever it says. \<open>None\<close> is a server that stays silent.
\<close>

definition exchange ::
  "int \<Rightarrow> byte list \<Rightarrow> read_buffer \<Rightarrow> socket_in \<Rightarrow> (fault + bool \<times> byte list \<times> read_buffer) option" where
  "exchange accepted wire rb evs =
    (let (out, ok) = send_bytes_raw accepted wire in
     if \<not> ok then Some (Inr (False, out, rb))
     else map_option (map_res (\<lambda>(ack, rb, evs). (ack \<noteq> None, out, rb))) (recv_message_buffered rb evs))"

text \<open>What a worker does with the item at the front of its queue and the result.\<close>

definition finish_item :: "bool \<Rightarrow> byte list \<Rightarrow> read_buffer \<Rightarrow> worker \<Rightarrow> worker" where
  "finish_item ok out rb w =
    (let w = w\<lparr>w_queue := tl (w_queue w), w_busy := False, w_out := w_out w @ out, w_rb := rb\<rparr>
     in if ok then w\<lparr>w_acked := w_acked w + 1\<rparr> else w\<lparr>w_shutdown := True, w_exited := True\<rparr>)"

definition serve :: "nat \<Rightarrow> bool \<Rightarrow> byte list \<Rightarrow> read_buffer \<Rightarrow> replicator \<Rightarrow> replicator" where
  "serve i ok out rb r =
    (let w = rp_workers r ! i; state = snd (hd (w_queue w)) in
     r\<lparr>rp_workers := (rp_workers r)[i := finish_item ok out rb w],
       rp_acks := (if ok then (rp_acks r)(state := rp_acks r state + 1) else rp_acks r),
       rp_live := (if ok then rp_live r else rp_live r - 1)\<rparr>)"

definition connect_worker :: "nat \<Rightarrow> replicator \<Rightarrow> replicator" where
  "connect_worker i r =
    r\<lparr>rp_workers := (rp_workers r)[i := (rp_workers r ! i)\<lparr>w_connected := True\<rparr>]\<rparr>"

definition take_item :: "nat \<Rightarrow> replicator \<Rightarrow> replicator" where
  "take_item i r = r\<lparr>rp_workers := (rp_workers r)[i := (rp_workers r ! i)\<lparr>w_busy := True\<rparr>]\<rparr>"

text \<open>Leaving the loop after a shutdown.\<close>

definition exit_worker :: "nat \<Rightarrow> replicator \<Rightarrow> replicator" where
  "exit_worker i r =
    r\<lparr>rp_workers := (rp_workers r)[i := (rp_workers r ! i)\<lparr>w_exited := True\<rparr>],
      rp_live := rp_live r - 1\<rparr>"

text \<open>
  A worker in its loop connects first, retrying for ever, then serves its queue. Told to stop
  during an exchange it finishes that first.
\<close>

inductive worker_step :: "replicator \<Rightarrow> replicator \<Rightarrow> bool" where
  w_connect: "i < length (rp_workers r) \<Longrightarrow> \<not> w_connected (rp_workers r ! i) \<Longrightarrow>
    \<not> w_exited (rp_workers r ! i) \<Longrightarrow> \<not> w_shutdown (rp_workers r ! i) \<Longrightarrow>
    worker_step r (connect_worker i r)"
| w_take: "i < length (rp_workers r) \<Longrightarrow> w_connected (rp_workers r ! i) \<Longrightarrow>
    \<not> w_exited (rp_workers r ! i) \<Longrightarrow> \<not> w_shutdown (rp_workers r ! i) \<Longrightarrow>
    \<not> w_busy (rp_workers r ! i) \<Longrightarrow> w_queue (rp_workers r ! i) \<noteq> [] \<Longrightarrow>
    worker_step r (take_item i r)"
| w_serve: "i < length (rp_workers r) \<Longrightarrow> \<not> w_exited (rp_workers r ! i) \<Longrightarrow>
    w_busy (rp_workers r ! i) \<Longrightarrow> w_queue (rp_workers r ! i) \<noteq> [] \<Longrightarrow>
    exchange accepted (fst (hd (w_queue (rp_workers r ! i)))) (w_rb (rp_workers r ! i)) evs
      = Some (Inr (ok, out, rb)) \<Longrightarrow>
    worker_step r (serve i ok out rb r)"
| w_exit: "i < length (rp_workers r) \<Longrightarrow> w_shutdown (rp_workers r ! i) \<Longrightarrow>
    \<not> w_exited (rp_workers r ! i) \<Longrightarrow> \<not> w_busy (rp_workers r ! i) \<Longrightarrow>
    worker_step r (exit_worker i r)"

inductive rp_reachable :: "nat \<Rightarrow> nat \<Rightarrow> replicator \<Rightarrow> bool" for n quorum where
  rp_start: "rp_reachable n quorum (start_replicator n quorum junk)"
| rp_enqueue: "rp_reachable n quorum r \<Longrightarrow> rp_reachable n quorum (enqueue_all wire r)"
| rp_work: "rp_reachable n quorum r \<Longrightarrow> worker_step r r' \<Longrightarrow> rp_reachable n quorum r'"
| rp_stop: "rp_reachable n quorum r \<Longrightarrow> rp_reachable n quorum (rp_shutdown r)"

section \<open>The invariant\<close>

text \<open>
  A worker has acknowledged the first \<open>w_acked\<close> items and written them to its socket in
  order; while it is in its loop the rest of the items is its queue.
\<close>

definition tagged :: "byte list list \<Rightarrow> (byte list \<times> nat) list" where
  "tagged wires = zip wires [0..<length wires]"

definition worker_inv :: "byte list list \<Rightarrow> worker \<Rightarrow> bool" where
  "worker_inv wires w \<longleftrightarrow>
    w_acked w \<le> length wires \<and> prefix (concat (take (w_acked w) wires)) (w_out w) \<and>
    (\<not> w_exited w \<longrightarrow> w_queue w = drop (w_acked w) (tagged wires) \<and>
      w_out w = concat (take (w_acked w) wires))"

definition ackers :: "nat \<Rightarrow> replicator \<Rightarrow> nat set" where
  "ackers state r = {i. i < length (rp_workers r) \<and> state < w_acked (rp_workers r ! i)}"

definition alive :: "replicator \<Rightarrow> nat set" where
  "alive r = {i. i < length (rp_workers r) \<and> \<not> w_exited (rp_workers r ! i)}"

definition rp_inv :: "replicator \<Rightarrow> bool" where
  "rp_inv r \<longleftrightarrow> (\<forall>w \<in> set (rp_workers r). worker_inv (rp_wires r) w) \<and>
    (\<forall>state. rp_acks r state = int (card (ackers state r))) \<and> rp_live r = int (card (alive r))"

lemma length_tagged [simp]: "length (tagged wires) = length wires"
  by (simp add: tagged_def)

lemma tagged_snoc: "tagged (wires @ [w]) = tagged wires @ [(w, length wires)]"
  by (simp add: tagged_def)

lemma hd_drop_tagged: "k < length wires \<Longrightarrow> hd (drop k (tagged wires)) = (wires ! k, k)"
  by (simp add: hd_drop_conv_nth tagged_def)

lemma finite_ackers [simp]: "finite (ackers state r)" and finite_alive [simp]: "finite (alive r)"
  by (simp_all add: ackers_def alive_def)

lemma rp_inv_start: "rp_inv (start_replicator n quorum junk)"
proof -
  have "alive (start_replicator n quorum junk) = {..<n}"
    by (auto simp: alive_def start_replicator_def new_worker_def)
  then show ?thesis
    by (simp add: rp_inv_def start_replicator_def worker_inv_def new_worker_def ackers_def tagged_def)
qed

lemma rp_inv_enqueue:
  assumes "rp_inv r"
  shows "rp_inv (enqueue_all wire r)"
proof -
  let ?r = "enqueue_all wire r"
  have 1: "\<forall>w \<in> set (rp_workers ?r). worker_inv (rp_wires ?r) w"
    using assms by (auto simp: rp_inv_def enqueue_all_def worker_inv_def tagged_snoc Let_def)
  have a: "ackers state ?r = ackers state r" for state
    by (auto simp: ackers_def enqueue_all_def Let_def)
  have "ackers (length (rp_wires r)) r = {}"
    using assms by (auto simp: ackers_def rp_inv_def worker_inv_def) (meson leD nth_mem)
  then have 2: "rp_acks ?r state = int (card (ackers state ?r))" for state
    using assms by (simp add: a rp_inv_def) (simp add: enqueue_all_def Let_def)
  have "alive ?r = alive r"
    by (auto simp: alive_def enqueue_all_def Let_def)
  then have "rp_live ?r = int (card (alive ?r))"
    using assms by (simp add: rp_inv_def) (simp add: enqueue_all_def Let_def)
  with 1 2 show ?thesis by (simp add: rp_inv_def)
qed

lemma exchange_ok: "exchange accepted wire rb evs = Some (Inr (True, out, rb')) \<Longrightarrow> out = wire"
  by (auto simp: exchange_def send_bytes_raw_def map_res_def bind_res_eq_Inr Let_def split: if_splits)

lemma card_insert_new: "finite A \<Longrightarrow> i \<notin> A \<Longrightarrow> int (card (insert i A)) = int (card A) + 1"
  by simp

text \<open>Replacing one worker.\<close>

lemma rp_inv_replace:
  assumes inv: "rp_inv r" and i: "i < length (rp_workers r)"
    and w': "worker_inv (rp_wires r) w'"
    and acks: "\<And>state. acks state = rp_acks r state +
      (if w_acked (rp_workers r ! i) \<le> state \<and> state < w_acked w' then 1 else 0)"
    and mono: "w_acked (rp_workers r ! i) \<le> w_acked w'"
    and live: "live = rp_live r - (if w_exited w' then 1 else 0)" and "\<not> w_exited (rp_workers r ! i)"
  shows "rp_inv (r\<lparr>rp_workers := (rp_workers r)[i := w'], rp_acks := acks, rp_live := live\<rparr>)"
    (is "rp_inv ?r")
proof -
  have "\<forall>w \<in> set (rp_workers ?r). worker_inv (rp_wires ?r) w"
    using inv w' by (auto simp: rp_inv_def dest: set_update_subset_insert [THEN subsetD])
  moreover have "rp_acks ?r state = int (card (ackers state ?r))" for state
  proof (cases "w_acked (rp_workers r ! i) \<le> state \<and> state < w_acked w'")
    case True
    then have "ackers state ?r = insert i (ackers state r)" "i \<notin> ackers state r"
      using i by (auto simp: ackers_def nth_list_update)
    with True inv show ?thesis by (simp add: acks rp_inv_def)
  next
    case False
    then have "ackers state ?r = ackers state r"
      using i mono by (auto simp: ackers_def nth_list_update)
    with False inv show ?thesis by (simp add: acks rp_inv_def)
  qed
  moreover have "rp_live ?r = int (card (alive ?r))"
  proof (cases "w_exited w'")
    case True
    then have "alive ?r = alive r - {i}" "i \<in> alive r"
      using i assms(7) by (auto simp: alive_def nth_list_update)
    with True inv live show ?thesis
      by (simp add: rp_inv_def of_nat_diff card_gt_0_iff Suc_leI card_Diff_singleton)
        (metis card_gt_0_iff empty_iff finite_alive of_nat_1 of_nat_diff Suc_leI One_nat_def)
  next
    case False
    then have "alive ?r = alive r"
      using i assms(7) by (auto simp: alive_def nth_list_update)
    with False inv live show ?thesis by (simp add: rp_inv_def)
  qed
  ultimately show ?thesis by (simp add: rp_inv_def)
qed

lemma rp_inv_serve:
  assumes inv: "rp_inv r" and i: "i < length (rp_workers r)" and run: "\<not> w_exited (rp_workers r ! i)"
    and q: "w_queue (rp_workers r ! i) \<noteq> []"
    and ex: "exchange accepted (fst (hd (w_queue (rp_workers r ! i)))) (w_rb (rp_workers r ! i)) evs
      = Some (Inr (ok, out, rb))"
  shows "rp_inv (serve i ok out rb r)"
proof -
  let ?w = "rp_workers r ! i" and ?ws = "rp_wires r"
  have w: "worker_inv ?ws ?w"
    using inv i by (simp add: rp_inv_def)
  then have queue: "w_queue ?w = drop (w_acked ?w) (tagged ?ws)"
    and out: "w_out ?w = concat (take (w_acked ?w) ?ws)"
    using run by (simp_all add: worker_inv_def)
  with q have k: "w_acked ?w < length ?ws" by simp
  then have hd: "hd (w_queue ?w) = (?ws ! w_acked ?w, w_acked ?w)"
    by (simp add: queue hd_drop_tagged)
  have more: "concat (take (Suc (w_acked ?w)) ?ws) = w_out ?w @ ?ws ! w_acked ?w"
    using k by (simp add: out take_Suc_conv_app_nth)
  have "worker_inv ?ws (finish_item ok out rb ?w)"
  proof (cases ok)
    case True
    with ex hd have "out = ?ws ! w_acked ?w"
      using exchange_ok by fastforce
    with True k more show ?thesis
      by (simp add: worker_inv_def finish_item_def queue run drop_Suc flip: tl_drop)
  next
    case False
    with w show ?thesis by (simp add: worker_inv_def finish_item_def)
  qed
  then show ?thesis
    unfolding serve_def Let_def
    by (rule rp_inv_replace [OF inv i]) (use hd run in \<open>auto simp: finish_item_def Let_def\<close>)
qed

lemma rp_inv_worker_step: "worker_step r r' \<Longrightarrow> rp_inv r \<Longrightarrow> rp_inv r'"
proof (induction rule: worker_step.induct)
  case (w_connect i r)
  have "rp_inv (r\<lparr>rp_workers := (rp_workers r)[i := (rp_workers r ! i)\<lparr>w_connected := True\<rparr>],
      rp_acks := rp_acks r, rp_live := rp_live r\<rparr>)"
    by (rule rp_inv_replace) (use w_connect in \<open>auto simp: rp_inv_def worker_inv_def\<close>)
  then show ?case by (simp add: connect_worker_def)
next
  case (w_take i r)
  have "rp_inv (r\<lparr>rp_workers := (rp_workers r)[i := (rp_workers r ! i)\<lparr>w_busy := True\<rparr>],
      rp_acks := rp_acks r, rp_live := rp_live r\<rparr>)"
    by (rule rp_inv_replace) (use w_take in \<open>auto simp: rp_inv_def worker_inv_def\<close>)
  then show ?case by (simp add: take_item_def)
next
  case (w_serve i r accepted evs ok out rb)
  then show ?case by (simp add: rp_inv_serve)
next
  case (w_exit i r)
  have "rp_inv (r\<lparr>rp_workers := (rp_workers r)[i := (rp_workers r ! i)\<lparr>w_exited := True\<rparr>],
      rp_acks := rp_acks r, rp_live := rp_live r - 1\<rparr>)"
    by (rule rp_inv_replace) (use w_exit in \<open>auto simp: rp_inv_def worker_inv_def\<close>)
  then show ?case by (simp add: exit_worker_def)
qed

lemma rp_inv_shutdown: "rp_inv r \<Longrightarrow> rp_inv (rp_shutdown r)"
proof -
  assume inv: "rp_inv r"
  have "ackers state (rp_shutdown r) = ackers state r" "alive (rp_shutdown r) = alive r" for state
    by (auto simp: ackers_def alive_def rp_shutdown_def)
  with inv show ?thesis
    by (auto simp: rp_inv_def) (auto simp: rp_shutdown_def worker_inv_def)
qed

lemma rp_inv_reachable: "rp_reachable n quorum r \<Longrightarrow> rp_inv r"
  by (induction rule: rp_reachable.induct)
    (simp_all add: rp_inv_start rp_inv_enqueue rp_inv_worker_step rp_inv_shutdown)

text \<open>What may happen between two reads.\<close>

inductive rp_later :: "replicator \<Rightarrow> replicator \<Rightarrow> bool" where
  rl_same: "rp_later r r"
| rl_enqueue: "rp_later r r' \<Longrightarrow> rp_later r (enqueue_all wire r')"
| rl_work: "rp_later r r' \<Longrightarrow> worker_step r' r'' \<Longrightarrow> rp_later r r''"
| rl_stop: "rp_later r r' \<Longrightarrow> rp_later r (rp_shutdown r')"

lemma rp_later_reachable: "rp_later r r' \<Longrightarrow> rp_reachable n quorum r \<Longrightarrow> rp_reachable n quorum r'"
  by (induction rule: rp_later.induct) (auto intro: rp_reachable.intros)

section \<open>Waiting\<close>

lemma await_inv:
  assumes "rp_inv r" and "rp_inv r'"
  shows "await state r r' =
    (if rp_quorum r \<le> card (ackers state r) then Some True
     else if alive r' = {} then Some False else None)"
  using assms by (simp add: await_def enough_def none_left_def rp_inv_def not_less)

text \<open>A worker that waits for work with nothing in its queue.\<close>

definition idle :: "nat \<Rightarrow> replicator \<Rightarrow> bool" where
  "idle i r \<longleftrightarrow> i < length (rp_workers r) \<and> w_queue (rp_workers r ! i) = [] \<and>
    \<not> w_busy (rp_workers r ! i) \<and> \<not> w_shutdown (rp_workers r ! i) \<and> \<not> w_exited (rp_workers r ! i)"

lemma worker_step_idle: "worker_step r r' \<Longrightarrow> idle i r \<Longrightarrow> idle i r'"
  by (induction rule: worker_step.induct)
    (auto simp: idle_def connect_worker_def take_item_def exit_worker_def serve_def Let_def nth_list_update)

lemma worker_step_quorum: "worker_step r r' \<Longrightarrow> rp_quorum r' = rp_quorum r"
  by (induction rule: worker_step.induct) (auto simp: connect_worker_def take_item_def exit_worker_def serve_def Let_def)

lemma worker_step_wires: "worker_step r r' \<Longrightarrow> rp_wires r' = rp_wires r \<and> length (rp_workers r') = length (rp_workers r)"
  by (induction rule: worker_step.induct) (auto simp: connect_worker_def take_item_def exit_worker_def serve_def Let_def)

text \<open>No worker outside \<open>ackers \<union> alive\<close> ever acknowledges.\<close>

lemma worker_step_potential:
  "worker_step r r' \<Longrightarrow> ackers state r' \<union> alive r' \<subseteq> ackers state r \<union> alive r"
  by (induction rule: worker_step.induct)
    (auto simp: ackers_def alive_def connect_worker_def take_item_def exit_worker_def serve_def Let_def
      nth_list_update finish_item_def split: if_splits)

lemma worker_steps_stuck:
  "worker_step\<^sup>*\<^sup>* r r' \<Longrightarrow> rp_inv r \<Longrightarrow> idle i r \<Longrightarrow> card (ackers state r \<union> alive r) < rp_quorum r \<Longrightarrow>
    rp_inv r' \<and> idle i r' \<and> card (ackers state r' \<union> alive r') < rp_quorum r'"
proof (induction rule: rtranclp_induct)
  case (step y z)
  then have "card (ackers state z \<union> alive z) \<le> card (ackers state y \<union> alive y)"
    by (intro card_mono worker_step_potential) simp_all
  with step show ?case
    using worker_step_quorum [OF step.hyps(2)]
    by (simp add: rp_inv_worker_step worker_step_idle)
qed simp

section \<open>Properties\<close>

text \<open>
  C6: \<^verbatim>\<open>replicate_bytes\<close> tells the truth. It answers true exactly when a quorum of
  distinct servers had acknowledged the item as it read the counter, and then each of those servers'
  sockets has taken this image completely, right behind all the earlier images in the order they
  were submitted; it answers false only when there was no quorum then and every worker was
  gone as it read their number. This holds for every interleaving of submissions, exchanges, failures
  and shutdown, also between the two reads.
\<close>

theorem replicate_means_quorum:
  assumes "rp_reachable n quorum r" and "state < length (rp_wires r)" and "rp_later r r'"
  shows "(await state r r' = Some True \<longleftrightarrow> rp_quorum r \<le> card (ackers state r)) \<and>
    (\<forall>i. i \<in> ackers state r \<longrightarrow>
      prefix (concat (take state (rp_wires r)) @ rp_wires r ! state) (w_out (rp_workers r ! i))) \<and>
    (await state r r' = Some False \<longrightarrow> alive r' = {} \<and> card (ackers state r) < rp_quorum r)"
proof -
  have inv: "rp_inv r" and inv': "rp_inv r'"
    using assms(1) rp_later_reachable [OF assms(3,1)] by (simp_all add: rp_inv_reachable)
  have "prefix (concat (take state (rp_wires r)) @ rp_wires r ! state) (w_out (rp_workers r ! i))"
    if "i \<in> ackers state r" for i
  proof -
    let ?w = "rp_workers r ! i"
    have "worker_inv (rp_wires r) ?w" "state < w_acked ?w"
      using inv that by (auto simp: rp_inv_def ackers_def)
    then have pre: "prefix (concat (take (w_acked ?w) (rp_wires r))) (w_out ?w)"
      and "Suc state \<le> w_acked ?w"
      by (simp_all add: worker_inv_def)
    then have "take (w_acked ?w) (rp_wires r) =
        take (Suc state) (rp_wires r) @ drop (Suc state) (take (w_acked ?w) (rp_wires r))"
      by (metis append_take_drop_id min.absorb1 take_take)
    then have "prefix (concat (take (Suc state) (rp_wires r))) (concat (take (w_acked ?w) (rp_wires r)))"
      by (metis concat_append prefixI)
    with pre show ?thesis
      using assms(2) by (simp add: take_Suc_conv_app_nth prefix_order.trans)
  qed
  with await_inv [OF inv inv'] show ?thesis by auto
qed

lemma rp_reachable_shape:
  "rp_reachable n quorum r \<Longrightarrow> length (rp_workers r) = n \<and> rp_quorum r = quorum"
proof (induction rule: rp_reachable.induct)
  case (rp_work r r')
  have "worker_step r r' \<Longrightarrow> length (rp_workers r') = length (rp_workers r)"
    by (induction rule: worker_step.induct)
      (auto simp: connect_worker_def take_item_def exit_worker_def serve_def Let_def)
  with rp_work show ?case by (simp add: worker_step_quorum)
qed (simp_all add: start_replicator_def enqueue_all_def rp_shutdown_def Let_def)

section \<open>A run\<close>

text \<open>
  The run of the witnesses: three servers, one item; the first server acknowledges it, the
  connections to the two others break.
\<close>

definition ack_message :: message where
  "ack_message = build_message (code ACK) 0 1 0 [] []"

definition one_item :: "byte list \<Rightarrow> nat \<Rightarrow> replicator" where
  "one_item wire quorum = enqueue_all wire (start_replicator 3 quorum (replicate CAPACITY 0))"

definition one_ack :: "byte list \<Rightarrow> nat \<Rightarrow> read_buffer \<Rightarrow> replicator" where
  "one_ack wire quorum rb = serve 0 True wire rb (take_item 0 (connect_worker 0 (one_item wire quorum)))"

definition two_lost :: "byte list \<Rightarrow> nat \<Rightarrow> read_buffer \<Rightarrow> replicator" where
  "two_lost wire quorum rb =
    serve 2 False [] (fresh_buffer (replicate CAPACITY 0)) (take_item 2 (connect_worker 2
      (serve 1 False [] (fresh_buffer (replicate CAPACITY 0)) (take_item 1 (connect_worker 1 (one_ack wire quorum rb))))))"

lemmas run_defs = one_item_def one_ack_def two_lost_def enqueue_all_def start_replicator_def
  connect_worker_def take_item_def serve_def finish_item_def new_worker_def Let_def

lemma exchange_ack:
  "\<exists>rb. exchange (int (length wire)) wire (fresh_buffer (replicate CAPACITY 0)) [Data (frame (serialize ack_message))]
    = Some (Inr (True, wire, rb))"
proof -
  have fit: "fits ack_message"
    by (simp add: ack_message_def fits_def build_message_def MAX_MESSAGE_SIZE_def)
  have len: "length (serialize ack_message) \<le> safe_body"
    by (simp add: ack_message_def serialize_plain layout_def safe_body_def CAPACITY_def
        MAX_MESSAGE_SIZE_def)
  have "rb_inv (fresh_buffer (replicate CAPACITY (0 :: byte)))"
    by (rule rb_inv_fresh) simp
  moreover have "frame (serialize ack_message) \<noteq> []"
    by (metis append_is_Nil_conv frame_def length_be_bytes list.size(3) zero_neq_numeral)
  then have "proper [Data (frame (serialize ack_message))]"
    by (simp add: proper_Cons) (simp add: proper_def)
  moreover have "stream (fresh_buffer (replicate CAPACITY 0)) [Data (frame (serialize ack_message))]
      = frame (serialize ack_message) @ []"
    by simp
  ultimately obtain rb evs where "recv_message_buffered (fresh_buffer (replicate CAPACITY 0))
      [Data (frame (serialize ack_message))] = Some (Inr (Some ack_message, rb, evs))"
    using receive_message [OF _ _ _ fit len] by metis
  then have "exchange (int (length wire)) wire (fresh_buffer (replicate CAPACITY 0)) [Data (frame (serialize ack_message))]
      = Some (Inr (True, wire, rb))"
    by (simp add: exchange_def send_bytes_raw_def)
  then show ?thesis ..
qed

lemma exchange_broken: "wire \<noteq> [] \<Longrightarrow> exchange 0 wire rb evs = Some (Inr (False, [], rb))"
  by (simp add: exchange_def send_bytes_raw_def)

lemma numeral_less_3: "(0 :: nat) < 3" "Suc 0 < 3" "2 < (3 :: nat)" by simp_all

lemma rp_work_steps: "worker_step\<^sup>*\<^sup>* r r' \<Longrightarrow> rp_reachable n quorum r \<Longrightarrow> rp_reachable n quorum r'"
  by (induction rule: rtranclp_induct) (auto intro: rp_work)

lemma one_ack_steps: "\<exists>rb. worker_step\<^sup>*\<^sup>* (one_item wire quorum) (one_ack wire quorum rb)"
proof -
  obtain rb where ex: "exchange (int (length wire)) wire (fresh_buffer (replicate CAPACITY 0))
      [Data (frame (serialize ack_message))] = Some (Inr (True, wire, rb))"
    using exchange_ack by blast
  have "worker_step (one_item wire quorum) (connect_worker 0 (one_item wire quorum))"
    by (rule w_connect) (simp_all add: run_defs)
  moreover have "worker_step (connect_worker 0 (one_item wire quorum)) (take_item 0 (connect_worker 0 (one_item wire quorum)))"
    by (rule w_take) (simp_all add: run_defs)
  moreover have "worker_step (take_item 0 (connect_worker 0 (one_item wire quorum))) (one_ack wire quorum rb)"
    unfolding one_ack_def by (rule w_serve) (use ex in \<open>simp_all add: run_defs\<close>)
  ultimately show ?thesis
    by (meson rtranclp.rtrancl_into_rtrancl rtranclp.rtrancl_refl)
qed

lemma two_lost_steps:
  assumes "wire \<noteq> []"
  shows "worker_step\<^sup>*\<^sup>* (one_ack wire quorum rb) (two_lost wire quorum rb)"
proof -
  let ?j = "fresh_buffer (replicate CAPACITY 0)"
  let ?a = "connect_worker 1 (one_ack wire quorum rb)"
  let ?b = "serve 1 False [] ?j (take_item 1 ?a)"
  have "worker_step (one_ack wire quorum rb) ?a"
    by (rule w_connect) (simp_all add: run_defs nth_list_update)
  moreover have "worker_step ?a (take_item 1 ?a)"
    by (rule w_take) (simp_all add: run_defs nth_list_update)
  moreover have "worker_step (take_item 1 ?a) ?b"
    by (rule w_serve [where accepted = 0 and evs = "[]"])
      (simp_all add: run_defs nth_list_update exchange_broken [OF assms])
  moreover have "worker_step ?b (connect_worker 2 ?b)"
    by (rule w_connect) (simp_all add: run_defs nth_list_update)
  moreover have "worker_step (connect_worker 2 ?b) (take_item 2 (connect_worker 2 ?b))"
    by (rule w_take) (simp_all add: run_defs nth_list_update)
  moreover have "worker_step (take_item 2 (connect_worker 2 ?b)) (two_lost wire quorum rb)"
    unfolding two_lost_def by (rule w_serve [where accepted = 0 and evs = "[]"])
      (simp_all add: run_defs nth_list_update exchange_broken [OF assms])
  ultimately show ?thesis
    by (meson rtranclp.rtrancl_into_rtrancl rtranclp.rtrancl_refl)
qed

lemma one_ack_reachable: "\<exists>rb. rp_reachable 3 quorum (one_ack wire quorum rb)"
  using one_ack_steps rp_work_steps rp_enqueue [OF rp_start] unfolding one_item_def by blast

lemma two_lost_reachable:
  "rp_reachable 3 quorum (one_ack wire quorum rb) \<Longrightarrow> wire \<noteq> [] \<Longrightarrow> rp_reachable 3 quorum (two_lost wire quorum rb)"
  using two_lost_steps rp_work_steps by blast

text \<open>With two connections lost one worker is idle, and a quorum of two out of reach.\<close>

lemma two_lost_facts:
  "idle 0 (two_lost wire quorum rb)" "ackers 0 (two_lost wire quorum rb) \<union> alive (two_lost wire quorum rb) = {0}"
  by (simp add: idle_def run_defs nth_list_update)
    (auto simp: ackers_def alive_def run_defs nth_list_update less_Suc_eq numeral_3_eq_3)

theorem replicate_means_quorum_witness:
  "\<exists>r. rp_reachable 3 1 r \<and> await 0 r r = Some True \<and> prefix [1, 2, 3] (w_out (rp_workers r ! 0))"
proof -
  obtain rb where r: "rp_reachable 3 1 (one_ack [1, 2, 3] 1 rb)"
    using one_ack_reachable by blast
  have "await 0 (one_ack [1, 2, 3] 1 rb) (one_ack [1, 2, 3] 1 rb) = Some True"
    by (simp add: await_def enough_def run_defs)
  moreover have "0 \<in> ackers 0 (one_ack [1, 2, 3] 1 rb)"
    by (simp add: ackers_def run_defs)
  ultimately show ?thesis
    using replicate_means_quorum [OF r _ rl_same, of 0] r
    by (auto simp: one_ack_def run_defs intro!: exI [of _ "one_ack [1, 2, 3] 1 rb"])
qed

text \<open>
  \<^verbatim>\<open>replicate_bytes\<close> may spin for ever. Its loop gives up only when no worker at
  all is left; when some worker is alive and idle, but those that acknowledged or are
  alive are fewer than a quorum, then however the workers go on the caller's loop goes
  round again. With three servers and \<open>f = 1\<close> two broken connections are enough.
\<close>

theorem replicate_spins:
  assumes "rp_reachable n quorum r" and "idle i r"
    and "card (ackers state r \<union> alive r) < rp_quorum r" and "worker_step\<^sup>*\<^sup>* r r'" and "worker_step\<^sup>*\<^sup>* r' r''"
  shows "await state r' r'' = None"
proof -
  have r': "rp_inv r'" "idle i r'" "card (ackers state r' \<union> alive r') < rp_quorum r'"
    using worker_steps_stuck [OF assms(4) rp_inv_reachable [OF assms(1)] assms(2,3)] by auto
  have r'': "rp_inv r''" "idle i r''"
    using worker_steps_stuck [OF assms(5) r'] by auto
  have "card (ackers state r') \<le> card (ackers state r' \<union> alive r')"
    by (intro card_mono) auto
  moreover have "i \<in> alive r''"
    using r''(2) by (simp add: idle_def alive_def)
  ultimately show ?thesis
    using r' r'' by (auto simp: await_inv)
qed

theorem replicate_spins_witness:
  "\<exists>r. rp_reachable 3 2 r \<and> (\<forall>r'. worker_step\<^sup>*\<^sup>* r r' \<longrightarrow> await 0 r' r' = None)"
proof -
  obtain rb where "rp_reachable 3 2 (one_ack [1, 2, 3] 2 rb)"
    using one_ack_reachable by blast
  then have r: "rp_reachable 3 2 (two_lost [1, 2, 3] 2 rb)"
    by (rule two_lost_reachable) simp
  have "rp_quorum (two_lost [1, 2, 3] 2 rb) = 2"
    by (simp add: run_defs)
  then show ?thesis
    using replicate_spins [OF r, of 0 0] r two_lost_facts by auto
qed

end
