(* ===== verification/Proxy.thy ===== *)
theory Proxy
  imports Connection Client_Buffer Slot_Scheduler Server_Replicator
begin

text \<open>
  \<^verbatim>\<open>impl/proxy/proxy.cpp\<close> and \<^verbatim>\<open>impl/proxy/proxy_epoch_timer.h\<close>: the proxy takes
  commands from its clients, and its timer thread gives itself a sequence number per
  epoch, drains the commands into one batch, replicates it and answers the clients.
\<close>

section \<open>State\<close>

text \<open>\<open>tm_joinable\<close>: the timer's thread object has a thread that was not joined.\<close>

record epoch_timer =
  tm_running :: bool
  tm_paused :: bool
  tm_joinable :: bool

record proxy =
  px_shard :: shard_id
  px_id :: node_id
  px_address :: command
  px_registered :: bool
  px_next_seq :: seq_num
  px_epoch_duration :: timestamp
  px_timer :: epoch_timer
  px_sched :: slot_scheduler
  px_buffer :: client_buffer
  px_replicator :: replicator

section \<open>The epoch timer\<close>

text \<open>Assigning to a thread object that is still joinable ends the program.\<close>

definition timer_start :: "epoch_timer \<Rightarrow> fault + epoch_timer" where
  "timer_start tm =
    (let tm = tm\<lparr>tm_running := True\<rparr> in
     require (\<not> tm_joinable tm) Terminated (Inr (tm\<lparr>tm_joinable := True\<rparr>)))"

definition timer_stop :: "epoch_timer \<Rightarrow> epoch_timer" where
  "timer_stop tm = tm\<lparr>tm_running := False, tm_joinable := False\<rparr>"

definition timer_pause :: "epoch_timer \<Rightarrow> epoch_timer" where
  "timer_pause tm = tm\<lparr>tm_paused := True\<rparr>"

definition timer_resume :: "epoch_timer \<Rightarrow> epoch_timer" where
  "timer_resume tm = tm\<lparr>tm_paused := False\<rparr>"

text \<open>
  Times of the clock are nanoseconds, slots are unsigned microseconds that \<^verbatim>\<open>timestamp_to_tp\<close> takes
  as signed ones. Products beyond 64 bits, after the year 2262, are not considered.
\<close>

definition timestamp_to_tp :: "timestamp \<Rightarrow> int" where
  "timestamp_to_tp ts = 1000 * sint ts"

text \<open>
  The inner loop of \<^verbatim>\<open>run\<close>: the sequence numbers for which \<^verbatim>\<open>on_send_batch\<close> is
  called in this epoch.
\<close>

function drain_slots :: "int \<Rightarrow> slot_scheduler \<Rightarrow> seq_num list \<times> slot_scheduler" where
  "drain_slots epoch_end s =
    (case pop_next_slot s of
       None \<Rightarrow> ([], s)
     | Some ((batch_ts, batch_seq), s') \<Rightarrow>
         if epoch_end < timestamp_to_tp batch_ts then ([], push_front batch_ts batch_seq s')
         else let (sent, s'') = drain_slots epoch_end s' in (batch_seq # sent, s''))"
  by pat_completeness auto
termination
  by (relation "measure (\<lambda>(epoch_end, s). length (sequences s))") (auto dest: pop_next_slot_keeps)

declare drain_slots.simps [simp del]

section \<open>Slots of the proxy's own\<close>

fun assign_slots :: "nat \<Rightarrow> nat \<Rightarrow> timestamp \<Rightarrow> timestamp \<Rightarrow> seq_num \<Rightarrow> u64 list \<times> seq_num" where
  "assign_slots i 0 ts interval next = ([], next)"
| "assign_slots i (Suc k) ts interval next =
    (let (vs, next') = assign_slots (i + 1) k ts interval (next + 1)
     in ((ts + interval * (of_nat i + 1)) # next # vs, next'))"

text \<open>\<^verbatim>\<open>update_slot_estimate\<close> with the estimate fixed to 1; \<open>ts\<close> is the clock.\<close>

definition update_slot_estimate :: "timestamp \<Rightarrow> proxy \<Rightarrow> fault + proxy" where
  "update_slot_estimate ts px =
    (let estimate = 1 :: u64;
         interval = px_epoch_duration px div estimate;
         (ordering_values, next) = assign_slots 0 (unat estimate) ts interval (px_next_seq px)
     in map_res (\<lambda>s. px\<lparr>px_sched := s, px_next_seq := next\<rparr>) (load_slots ordering_values (px_sched px)))"

text \<open>
  One turn of the timer's loop: \<open>None\<close> when it is paused and the thread ends. \<open>ts\<close> is the
  clock when the slots are made, \<open>epoch_end\<close> the end of the epoch.
\<close>

definition epoch_turn :: "timestamp \<Rightarrow> int \<Rightarrow> proxy \<Rightarrow> (fault + seq_num list \<times> proxy) option" where
  "epoch_turn ts epoch_end px =
    (if tm_paused (px_timer px) then None
     else Some (map_res (\<lambda>px.
         let (sent, s) = drain_slots epoch_end (px_sched px) in (sent, px\<lparr>px_sched := s\<rparr>))
       (update_slot_estimate ts px)))"

fun epochs :: "(timestamp \<times> int) list \<Rightarrow> proxy \<Rightarrow> fault + seq_num list \<times> proxy" where
  "epochs [] px = Inr ([], px)"
| "epochs ((ts, epoch_end) # es) px =
    (case epoch_turn ts epoch_end px of
       None \<Rightarrow> Inr ([], px)
     | Some r \<Rightarrow> bind_res r (\<lambda>(sent, px). map_res (\<lambda>(sent', px). (sent @ sent', px)) (epochs es px)))"

section \<open>Sending a batch\<close>

text \<open>
  The first half of \<^verbatim>\<open>send_out_batch\<close>: drain, build the wire image, release, and hand
  the image to the replicator. The image is built from the pointer into the buffer.
\<close>

definition batch_image :: "proxy \<Rightarrow> seq_num \<Rightarrow> drain_result \<Rightarrow> client_buffer \<Rightarrow> byte list" where
  "batch_image px n r b =
    (if dr_participating r = {} then build_wire_bytes (code SKIP) (px_shard px) (px_id px) n None 0
     else build_wire_bytes (code APPEND) (px_shard px) (px_id px) n
       (Some (chunk (dr_data r) (dr_len r) (cb_buf b))) (dr_len r))"

definition submit_batch :: "seq_num \<Rightarrow> proxy \<Rightarrow> drain_result \<times> proxy" where
  "submit_batch n px =
    (let (r, b) = drain (px_buffer px);
         wire = batch_image px n r b
     in (r, px\<lparr>px_buffer := release (sent_length r) b,
              px_replicator := enqueue_all wire (px_replicator px)\<rparr>))"

text \<open>The second half, with the answer of the replicator: one response per client.\<close>

definition batch_responses :: "bool \<Rightarrow> drain_result \<Rightarrow> proxy \<Rightarrow> (int \<times> byte list) list" where
  "batch_responses success r px =
    (let resp = build_wire_bytes (code (if success then SUCCESS else FAILURE)) (px_shard px) (px_id px) 0 None 0
     in map (\<lambda>client. (client, resp)) (sorted_list_of_set (dr_participating r)))"

section \<open>The connection of a client\<close>

datatype proxy_output = Reply int "byte list" | To_zipper "byte list"

text \<open>The handler for the slots of the Zipper, which is not called at present.\<close>

definition handle_zip_response :: "message \<Rightarrow> proxy \<Rightarrow> fault + proxy" where
  "handle_zip_response msg px =
    (if shard_id msg \<noteq> px_shard px then Inr px
     else map_res (\<lambda>s. px\<lparr>px_sched := s\<rparr>) (load_slots (ordering_values msg) (px_sched px)))"

text \<open>\<open>zipper_sock\<close> is what the connection pool gives.\<close>

definition attempt_join :: "bool \<Rightarrow> int \<Rightarrow> shard_id \<times> node_id \<times> seq_num \<Rightarrow> proxy \<Rightarrow> proxy_output list" where
  "attempt_join is_new zipper_sock junk px =
    (let req = (blank_message (code (if is_new then REGISTER_PROXY else REJOIN_PROXY)) junk)
           \<lparr>shard_id := px_shard px, msg_data := px_address px\<rparr>;
         req = (if is_new then req else req\<lparr>sender_id := px_id px\<rparr>);
         bytes = serialize req
     in if zipper_sock < 0 \<or> bytes = [] then [] else [To_zipper (frame bytes)])"

definition proxy_handle ::
  "int \<Rightarrow> int \<Rightarrow> shard_id \<times> node_id \<times> seq_num \<Rightarrow> proxy \<Rightarrow> byte list \<Rightarrow> nat \<Rightarrow> nat
    \<Rightarrow> fault + proxy_output list \<times> proxy \<times> bool" where
  "proxy_handle client zipper_sock junk px mem base msg_len =
    bind_res (peek_header_at mem base msg_len) (\<lambda>header.
      case header of
        None \<Rightarrow> Inr ([], px, False)
      | Some h \<Rightarrow>
          if h_type h = code APPEND then
            (if \<not> px_registered px then
               Inr ([Reply client (frame (serialize (blank_message (code FAILURE) junk)))], px, True)
             else if msg_len < 24 then Inr ([], px, True)
             else
               bind_res (get_be 4 mem (base + 20)) (\<lambda>data_len :: u32.
               bind_res (push_raw client (drop (base + 24) mem) (unat data_len) (px_buffer px)) (\<lambda>(b, _).
                 Inr ([], px\<lparr>px_buffer := b, px_sched := record_request (px_sched px)\<rparr>, True))))
          else if h_type h = code INCLUDE_PROXY then
            (if px_registered px then Inr ([], px, True)
             else
               bind_res (timer_start (px_timer px)) (\<lambda>tm.
                 Inr ([], px\<lparr>px_registered := True, px_timer := tm\<rparr>, True)))
          else if h_type h = code FREEZE then
            (let px = px\<lparr>px_registered := False, px_timer := timer_pause (px_timer px)\<rparr>
             in Inr (attempt_join False zipper_sock junk px, px, True))
          else Inr ([], px, True))"

text \<open>After the loop the client no longer takes part in batches.\<close>

definition close_client :: "int \<Rightarrow> proxy \<Rightarrow> proxy" where
  "close_client client px = px\<lparr>px_buffer := remove client (px_buffer px)\<rparr>"

section \<open>Starting\<close>

definition new_proxy ::
  "shard_id \<Rightarrow> node_id \<Rightarrow> command \<Rightarrow> nat \<Rightarrow> timestamp \<Rightarrow> nat \<Rightarrow> nat \<Rightarrow> byte list \<Rightarrow> proxy" where
  "new_proxy sh i addr history duration servers f junk =
    \<lparr>px_shard = sh, px_id = i, px_address = addr, px_registered = True, px_next_seq = 1,
     px_epoch_duration = duration,
     px_timer = \<lparr>tm_running = False, tm_paused = False, tm_joinable = False\<rparr>,
     px_sched = new_scheduler history, px_buffer = new_client_buffer,
     px_replicator = start_replicator servers (f + 1) junk\<rparr>"

text \<open>The two constructors: one for a known proxy, one for a proxy that wants to join.\<close>

definition construct_known :: "proxy \<Rightarrow> fault + proxy" where
  "construct_known px = map_res (\<lambda>tm. px\<lparr>px_timer := tm\<rparr>) (timer_start (px_timer px))"

definition construct_joining ::
  "bool \<Rightarrow> int \<Rightarrow> shard_id \<times> node_id \<times> seq_num \<Rightarrow> proxy \<Rightarrow> fault + proxy_output list \<times> proxy" where
  "construct_joining registered zipper_sock junk px =
    (let px = px\<lparr>px_registered := registered\<rparr>;
         out = attempt_join True zipper_sock junk px
     in map_res (\<lambda>tm. (out, px\<lparr>px_timer := tm\<rparr>)) (timer_start (px_timer px)))"

section \<open>The numbers a proxy gives itself\<close>

lemma update_slot_estimate_ok:
  assumes "slots_inv (px_sched px)"
  shows "\<exists>s. update_slot_estimate ts px = Inr (px\<lparr>px_sched := s, px_next_seq := px_next_seq px + 1\<rparr>) \<and>
    slots_inv s \<and> slots s = slots (px_sched px) @ [(ts + px_epoch_duration px, px_next_seq px)]"
proof -
  obtain s where "load_slots (interleave [(ts + px_epoch_duration px, px_next_seq px)]) (px_sched px) = Inr s"
    "slots_inv s" "slots s = slots (px_sched px) @ [(ts + px_epoch_duration px, px_next_seq px)]"
    using load_slots_interleave [OF assms] by blast
  moreover have "px_epoch_duration px div 1 = px_epoch_duration px"
    by (simp add: word_div_def)
  ultimately show ?thesis
    by (auto simp: update_slot_estimate_def)
qed

lemma drain_slots_keeps:
  assumes "slots_inv s" and "drain_slots epoch_end s = (sent, s')"
  shows "sent @ map snd (slots s') = map snd (slots s) \<and> slots_inv s'"
  using assms
proof (induction epoch_end s arbitrary: sent rule: drain_slots.induct)
  case (1 epoch_end s)
  show ?case
  proof (cases "pop_next_slot s")
    case None
    with "1.prems" show ?thesis by (simp add: drain_slots.simps [of epoch_end s])
  next
    case (Some r)
    obtain t n s1 where r: "r = ((t, n), s1)" by (cases r) auto
    have s1: "slots s = (t, n) # slots s1" "slots_inv s1"
      using pop_next_slot_cases [OF "1.prems"(1)] Some r by auto
    show ?thesis
    proof (cases "epoch_end < timestamp_to_tp t")
      case True
      then have "sent = []" "s' = push_front t n s1"
        using "1.prems"(2) Some r by (simp_all add: drain_slots.simps [of epoch_end s])
      with s1 show ?thesis
        using push_front_slots [OF s1(2), of t n] by simp
    next
      case False
      then obtain sent1 where "sent = n # sent1" "drain_slots epoch_end s1 = (sent1, s')"
        using "1.prems"(2) Some r by (auto simp: drain_slots.simps [of epoch_end s] split: prod.splits)
      with "1.IH" [OF Some r [symmetric] refl False s1(2)] s1(1) show ?thesis by simp
    qed
  qed
qed

lemma epoch_turn_sends:
  assumes "slots_inv (px_sched px)" and "\<not> tm_paused (px_timer px)"
  obtains sent s where "epoch_turn ts e px = Some (Inr (sent, px\<lparr>px_sched := s, px_next_seq := px_next_seq px + 1\<rparr>))"
    "slots_inv s" "sent @ map snd (slots s) = map snd (slots (px_sched px)) @ [px_next_seq px]"
proof -
  obtain s1 where s1: "update_slot_estimate ts px = Inr (px\<lparr>px_sched := s1, px_next_seq := px_next_seq px + 1\<rparr>)"
    "slots_inv s1" "slots s1 = slots (px_sched px) @ [(ts + px_epoch_duration px, px_next_seq px)]"
    using update_slot_estimate_ok [OF assms(1)] by blast
  obtain sent s where d: "drain_slots e s1 = (sent, s)" by (cases "drain_slots e s1")
  have "epoch_turn ts e px = Some (Inr (sent, px\<lparr>px_sched := s, px_next_seq := px_next_seq px + 1\<rparr>))"
    using assms(2) s1(1) d by (simp add: epoch_turn_def)
  with that show thesis
    using drain_slots_keeps [OF s1(2) d] s1(3) by simp
qed

lemma epochs_order:
  assumes "slots_inv (px_sched px)" and "\<not> tm_paused (px_timer px)"
  shows "\<exists>sent px'. epochs es px = Inr (sent, px') \<and>
    sent @ map snd (slots (px_sched px')) =
      map snd (slots (px_sched px)) @ map (\<lambda>k. px_next_seq px + of_nat k) [0..<length es] \<and>
    px_next_seq px' = px_next_seq px + of_nat (length es)"
  using assms
proof (induction es arbitrary: px)
  case (Cons e es)
  obtain ts epoch_end where e: "e = (ts, epoch_end)" by (cases e)
  obtain sent1 s1 where turn: "epoch_turn ts epoch_end px = Some (Inr (sent1, px\<lparr>px_sched := s1, px_next_seq := px_next_seq px + 1\<rparr>))"
    and s1: "slots_inv s1" "sent1 @ map snd (slots s1) = map snd (slots (px_sched px)) @ [px_next_seq px]"
    using epoch_turn_sends [OF Cons.prems] by blast
  define px1 where "px1 = px\<lparr>px_sched := s1, px_next_seq := px_next_seq px + 1\<rparr>"
  obtain sent2 px' where 2: "epochs es px1 = Inr (sent2, px')"
    "sent2 @ map snd (slots (px_sched px')) =
      map snd (slots s1) @ map (\<lambda>k. px_next_seq px + 1 + of_nat k) [0..<length es]"
    "px_next_seq px' = px_next_seq px + 1 + of_nat (length es)"
    using Cons.IH [of px1] Cons.prems(2) s1(1) by (auto simp: px1_def)
  have "map (\<lambda>k. px_next_seq px + of_nat k) [0..<Suc (length es)] =
      px_next_seq px # map (\<lambda>k. px_next_seq px + 1 + of_nat k) [0..<length es]"
    by (simp add: upt_conv_Cons map_Suc_upt [symmetric] add.assoc del: upt_Suc)
  with 2 s1(2) turn show ?case
    by (simp add: e add.assoc flip: px1_def del: upt_Suc)
qed simp

section \<open>Client requests\<close>

lemma push_raw_take:
  "n \<le> length src \<Longrightarrow> push_raw s src n b = push_raw s (take n src) n b"
  by (simp add: push_raw_def get_bytes_def chunk_def Let_def)

text \<open>The length a request claims and the bytes behind its header, for any request.\<close>

lemma handle_request:
  assumes "chunk p (2 + length body) mem = frame body" and "p + 2 + length body \<le> length mem"
    and "body = layout (code APPEND) sh sd n dl d ol vs" and "px_registered px"
  shows "proxy_handle client z junk px mem (p + 2) (length body) =
    bind_res (push_raw client (drop (p + 2 + 24) mem) (unat dl) (px_buffer px)) (\<lambda>(b, _).
      Inr ([], px\<lparr>px_buffer := b, px_sched := record_request (px_sched px)\<rparr>, True))"
proof -
  have "24 \<le> length body"
    using assms(3) by simp
  then show ?thesis
    using layout_in_place [OF assms(1,2,3)] assms(4) by (simp add: proxy_handle_def)
qed

lemma handle_unregistered:
  assumes "chunk p (2 + length body) mem = frame body" and "p + 2 + length body \<le> length mem"
    and "body = layout (code APPEND) sh sd n dl d ol vs" and "\<not> px_registered px"
  shows "proxy_handle client z junk px mem (p + 2) (length body) =
    Inr ([Reply client (frame (serialize (blank_message (code FAILURE) junk)))], px, True)"
  using layout_in_place(1) [OF assms(1,2,3)] assms(4) by (simp add: proxy_handle_def)

text \<open>The bytes behind the header of a request that is what it claims to be.\<close>

lemma request_data:
  assumes "chunk p (2 + length (plain t sh sd n d)) mem = frame (plain t sh sd n d)"
    and "p + 2 + length (plain t sh sd n d) \<le> length mem"
  shows "take (length d) (drop (p + 2 + 24) mem) = d"
  using plain_reads(3) [OF assms] assms(2) by (simp add: get_bytes_inside chunk_def add.commute)

section \<open>What the handlers leave alone\<close>

lemma push_raw_inv:
  assumes "push_raw client src n b = Inr (b', r)" and "cb_inv b"
  shows "cb_inv b' \<and> cb_read b' = cb_read b \<and> cb_used b \<le> cb_used b'"
proof (cases "n \<le> length src")
  case False
  with assms show ?thesis
    by (auto simp: push_raw_def get_bytes_def require_def Let_def split: if_splits)
next
  case True
  then have "push_raw client (take n src) (length (take n src)) b = Inr (b', r)"
    using assms(1) push_raw_take [OF True, of client b] by (simp add: min_def)
  with push_raw_cases [OF assms(2), of client "take n src"] pushed_facts(1) [OF assms(2), of "take n src" client]
  show ?thesis
    using assms(2) by (auto simp: pushed_def split: if_splits)
qed

text \<open>What a message on the connection of a client leaves alone.\<close>

lemma proxy_handle_keeps:
  assumes "proxy_handle client z u px mem base msg_len = Inr (out, px', go)" and "cb_inv (px_buffer px)"
  shows "px_replicator px' = px_replicator px \<and> px_shard px' = px_shard px \<and> px_id px' = px_id px \<and>
    px_next_seq px' = px_next_seq px \<and> slots (px_sched px') = slots (px_sched px) \<and>
    slots_inv (px_sched px') = slots_inv (px_sched px) \<and> cb_inv (px_buffer px') \<and>
    cb_read (px_buffer px') = cb_read (px_buffer px) \<and> cb_used (px_buffer px) \<le> cb_used (px_buffer px')"
proof -
  obtain header where header: "peek_header_at mem base msg_len = Inr header"
    using assms(1) by (cases "peek_header_at mem base msg_len") (auto simp: proxy_handle_def)
  show ?thesis
  proof (cases header)
    case None
    with assms header show ?thesis by (simp add: proxy_handle_def)
  next
    case (Some h)
    consider "h_type h = code APPEND" | "h_type h = code INCLUDE_PROXY" | "h_type h = code FREEZE"
      | "h_type h \<notin> code ` {APPEND, INCLUDE_PROXY, FREEZE}"
      by blast
    then show ?thesis
    proof cases
      case 1
      with assms header Some show ?thesis
        by (auto simp: proxy_handle_def bind_res_eq_Inr record_request_def slots_def slots_inv_def
            dest: push_raw_inv split: if_splits)
    next
      case 2
      with assms header Some show ?thesis
        by (auto simp: proxy_handle_def bind_res_eq_Inr split: if_splits)
    next
      case 3
      with assms header Some show ?thesis
        by (auto simp: proxy_handle_def Let_def)
    next
      case 4
      with assms header Some show ?thesis
        by (simp add: proxy_handle_def)
    qed
  qed
qed

text \<open>The message a batch becomes.\<close>

definition next_batch :: "proxy \<Rightarrow> seq_num \<Rightarrow> drain_result \<Rightarrow> client_buffer \<Rightarrow> log_message" where
  "next_batch px n r b =
    (if dr_participating r = {} then SKIP else APPEND, px_shard px, px_id px, n, payload_of r b)"

lemma batch_image_frame:
  assumes "dr_data r + dr_len r \<le> length (cb_buf b)"
  shows "batch_image px n r b = frame (log_body (next_batch px n r b))"
  using build_wire_plain [of _ _ _ _ "chunk (dr_data r) (dr_len r) (cb_buf b)"] assms
  by (simp add: batch_image_def next_batch_def payload_of_def log_body.simps build_wire_plain_null)

section \<open>Reachable proxies\<close>

text \<open>What a constructor leaves, and what the handlers make of it.\<close>

inductive proxy_reachable :: "proxy \<Rightarrow> bool" where
  px_known: "construct_known (new_proxy sh i addr history duration servers f junk) = Inr px \<Longrightarrow>
    proxy_reachable px"
| px_joining: "construct_joining r z u (new_proxy sh i addr history duration servers f junk) = Inr (out, px) \<Longrightarrow>
    proxy_reachable px"
| px_message: "proxy_reachable px \<Longrightarrow>
    proxy_handle client z u px mem base msg_len = Inr (out, px', go) \<Longrightarrow> proxy_reachable px'"
| px_epoch: "proxy_reachable px \<Longrightarrow> epoch_turn ts e px = Some (Inr (sent, px')) \<Longrightarrow> proxy_reachable px'"
| px_batch: "proxy_reachable px \<Longrightarrow> proxy_reachable (snd (submit_batch n px))"
| px_close: "proxy_reachable px \<Longrightarrow> proxy_reachable (close_client client px)"

lemma timer_start_ok: "timer_start tm = Inr tm' \<Longrightarrow> tm_joinable tm'"
  by (auto simp: timer_start_def require_def Let_def split: if_splits)

lemma proxy_handle_timer:
  assumes "proxy_handle client z u px mem base msg_len = Inr (out, px', go)" and "tm_joinable (px_timer px)"
  shows "tm_joinable (px_timer px')"
proof -
  obtain header where header: "peek_header_at mem base msg_len = Inr header"
    using assms(1) by (cases "peek_header_at mem base msg_len") (auto simp: proxy_handle_def)
  show ?thesis
  proof (cases header)
    case None
    with assms header show ?thesis by (simp add: proxy_handle_def)
  next
    case (Some h)
    consider "h_type h = code APPEND" | "h_type h = code INCLUDE_PROXY" | "h_type h = code FREEZE"
      | "h_type h \<notin> code ` {APPEND, INCLUDE_PROXY, FREEZE}"
      by blast
    then show ?thesis
    proof cases
      case 1
      with assms header Some show ?thesis
        by (auto simp: proxy_handle_def bind_res_eq_Inr split: if_splits)
    next
      case 2
      with assms header Some show ?thesis
        by (auto simp: proxy_handle_def bind_res_eq_Inr dest: timer_start_ok split: if_splits)
    next
      case 3
      with assms header Some show ?thesis
        by (auto simp: proxy_handle_def timer_pause_def Let_def)
    next
      case 4
      with assms header Some show ?thesis
        by (simp add: proxy_handle_def)
    qed
  qed
qed

lemma epoch_turn_timer:
  assumes "epoch_turn ts e px = Some (Inr (sent, px'))"
  shows "px_timer px' = px_timer px"
  using assms
  by (auto simp: epoch_turn_def update_slot_estimate_def map_res_def bind_res_eq_Inr Let_def
      case_prod_beta split: if_splits)

lemma proxy_timer_joinable: "proxy_reachable px \<Longrightarrow> tm_joinable (px_timer px)"
proof (induction rule: proxy_reachable.induct)
  case (px_known sh i addr history duration servers f junk px)
  then show ?case
    by (auto simp: construct_known_def map_res_def bind_res_eq_Inr dest: timer_start_ok)
next
  case (px_joining r z u sh i addr history duration servers f junk out px)
  then show ?case
    by (auto simp: construct_joining_def map_res_def bind_res_eq_Inr Let_def dest: timer_start_ok)
next
  case (px_message px client z u mem base msg_len out px' go)
  then show ?case by (simp add: proxy_handle_timer)
next
  case (px_epoch px ts e sent px')
  then show ?case by (simp add: epoch_turn_timer)
next
  case (px_batch px n)
  then show ?case by (simp add: submit_batch_def case_prod_beta Let_def)
next
  case (px_close px client)
  then show ?case by (simp add: close_client_def)
qed

section \<open>Properties\<close>

text \<open>
  C20: a proxy numbers its batches 1, 2, 3, ... without a gap or a repetition, whatever
  the clock does: over any epochs, the numbers for which it has sent a batch followed by
  those of the slots it still holds are exactly the first numbers, one per epoch, in
  order. A slot that falls behind the end of its epoch is put back and kept.
\<close>

theorem own_numbers_consecutive:
  assumes "px = new_proxy sh i addr history duration servers f junk"
  shows "\<exists>sent px'. epochs es px = Inr (sent, px') \<and>
    sent @ map snd (slots (px_sched px')) = map of_nat [1..<Suc (length es)]"
proof -
  obtain sent px' where "epochs es px = Inr (sent, px')"
    "sent @ map snd (slots (px_sched px')) = map (\<lambda>k. 1 + of_nat k) [0..<length es]"
    using epochs_order [of px es] assms by (auto simp: new_proxy_def)
  moreover have "map (\<lambda>k. 1 + of_nat k :: seq_num) [0..<length es] = map of_nat [1..<Suc (length es)]"
    by (simp add: map_Suc_upt [symmetric] del: upt_Suc)
  ultimately show ?thesis by auto
qed

theorem own_numbers_consecutive_witness:
  "\<exists>sent px'. epochs [(5, 2000), (1000, 2000000), (2000, 3000000)]
      (new_proxy 0 0 [] 3 1000 1 0 (replicate CAPACITY 0)) = Inr (sent, px') \<and>
    sent @ map snd (slots (px_sched px')) = [1, 2, 3]"
  using own_numbers_consecutive [OF refl, of "[(5, 2000), (1000, 2000000), (2000, 3000000)]"]
  by (simp add: numeral_3_eq_3 upt_rec del: epochs.simps)

text \<open>
  C14: a batch carries the clients' commands. With the commands \<open>cs\<close> in the buffer and
  some client waiting, the image handed to the replicator is the frame of an
  \<^verbatim>\<open>APPEND\<close> whose data decode to \<open>cs\<close>, and the buffer is then empty; with no client
  waiting it is the frame of a \<^verbatim>\<open>SKIP\<close> and the buffer keeps its commands. The image
  becomes the newest item of the replicator, and each waiting client gets exactly one
  answer, success or failure as the replication ended.
\<close>

theorem batch_carries_commands:
  assumes "cb_inv (px_buffer px)" and "contents (px_buffer px) = batch_of cs"
    and "\<forall>c \<in> set cs. small c" and "finite (cb_participating (px_buffer px))"
    and "submit_batch n px = (r, px')"
  shows "last (rp_wires (px_replicator px')) =
      frame (log_body (if cb_participating (px_buffer px) = {} then (SKIP, px_shard px, px_id px, n, [])
        else (APPEND, px_shard px, px_id px, n, batch_of cs))) \<and>
    contents (px_buffer px') = (if cb_participating (px_buffer px) = {} then batch_of cs else []) \<and>
    deserialize_batch (batch_of cs) = Inr cs \<and>
    length (rp_wires (px_replicator px')) = length (rp_wires (px_replicator px)) + 1 \<and>
    set (map fst (batch_responses ok r px')) = cb_participating (px_buffer px) \<and>
    distinct (map fst (batch_responses ok r px')) \<and>
    (\<forall>(c, w) \<in> set (batch_responses ok r px').
      w = frame (log_body (if ok then SUCCESS else FAILURE, px_shard px, px_id px, 0, [])))"
proof -
  let ?b = "px_buffer px" and ?P = "cb_participating (px_buffer px)"
  let ?b' = "?b\<lparr>cb_participating := {}\<rparr>"
  have r: "r = \<lparr>dr_data = cb_read ?b, dr_len = cb_used ?b, dr_participating = ?P\<rparr>"
    and px': "px' = px\<lparr>px_buffer := release (sent_length r) ?b', px_replicator := enqueue_all (batch_image px n r ?b') (px_replicator px)\<rparr>"
    using assms(5) by (auto simp: submit_batch_def drain_def Let_def)
  have used: "cb_used ?b = length (batch_of cs)"
    using length_contents [OF assms(1)] assms(2) by simp
  have "dr_data r + dr_len r \<le> length (cb_buf ?b')"
    using assms(1) by (simp add: r cb_inv_def)
  from batch_image_frame [OF this]
  have image: "batch_image px n r ?b' = frame (log_body (if ?P = {} then (SKIP, px_shard px, px_id px, n, [])
      else (APPEND, px_shard px, px_id px, n, batch_of cs)))"
    using assms(2) by (simp add: next_batch_def payload_of_def r contents_def)
  have "cb_inv ?b'" "contents ?b' = batch_of cs" "sent_length r \<le> cb_used ?b'"
    using assms(1,2) by (simp_all add: cb_inv_def contents_def sent_length_def r)
  from release_facts(2) [OF this(1,3)] this(2)
  have contents: "contents (px_buffer px') = (if ?P = {} then batch_of cs else [])"
    using used by (simp add: px' sent_length_def r)
  have "map fst (batch_responses ok r px') = sorted_list_of_set ?P"
    "\<forall>(c, w) \<in> set (batch_responses ok r px').
      w = frame (log_body (if ok then SUCCESS else FAILURE, px_shard px, px_id px, 0, []))"
    by (auto simp: batch_responses_def o_def px' r log_body.simps build_wire_plain_null Let_def)
  moreover have "rp_wires (px_replicator px') = rp_wires (px_replicator px) @ [batch_image px n r ?b']"
    by (simp add: px' enqueue_all_def Let_def)
  ultimately show ?thesis
    using image contents assms(3,4) by simp
qed

text \<open>A proxy with one command of client 5 in its buffer.\<close>

definition sample_proxy :: proxy where
  "sample_proxy = (new_proxy 0 1 [] 3 1000 1 0 (replicate CAPACITY 0))
    \<lparr>px_buffer := pushed 5 [7] new_client_buffer\<rparr>"

lemma sample_proxy_buffer:
  "cb_inv (px_buffer sample_proxy)" "contents (px_buffer sample_proxy) = batch_of [[7]]"
  "cb_participating (px_buffer sample_proxy) = {5}"
proof -
  have "cb_write new_client_buffer + 4 + length [7 :: byte] \<le> CB_CAPACITY"
    by (simp add: new_client_buffer_def CB_CAPACITY_eq)
  from pushed_facts [OF cb_inv_new this, of 5] show "cb_inv (px_buffer sample_proxy)"
    "contents (px_buffer sample_proxy) = batch_of [[7]]"
    by (simp_all add: sample_proxy_def)
  show "cb_participating (px_buffer sample_proxy) = {5}"
    by (simp add: sample_proxy_def pushed_def new_client_buffer_def)
qed

lemma sample_proxy_fields:
  "px_registered sample_proxy" "cb_used (px_buffer sample_proxy) = 5" "cb_write (px_buffer sample_proxy) = 5"
  by (simp_all add: sample_proxy_def new_proxy_def pushed_def new_client_buffer_def)

theorem batch_carries_commands_witness:
  "last (rp_wires (px_replicator (snd (submit_batch 1 sample_proxy)))) =
      frame (log_body (APPEND, 0, 1, 1, batch_of [[7]])) \<and>
    contents (px_buffer (snd (submit_batch 1 sample_proxy))) = []"
  using batch_carries_commands [OF sample_proxy_buffer(1,2) _ _ prod.collapse [symmetric], of 1]
    sample_proxy_buffer(3)
  by (simp add: small_def) (simp add: sample_proxy_def new_proxy_def)

text \<open>A request of a registered proxy's client offers its data to the buffer.\<close>

lemma registered_request:
  assumes "chunk p (2 + length (plain (code APPEND) sh sd n d)) mem = frame (plain (code APPEND) sh sd n d)"
    and "p + 2 + length (plain (code APPEND) sh sd n d) \<le> length mem"
    and "length d < 2 ^ 32" and "px_registered px"
  shows "proxy_handle client z junk px mem (p + 2) (length (plain (code APPEND) sh sd n d)) =
    bind_res (push_raw client d (length d) (px_buffer px)) (\<lambda>(b, _).
      Inr ([], px\<lparr>px_buffer := b, px_sched := record_request (px_sched px)\<rparr>, True))"
proof -
  have "length d \<le> length (drop (p + 2 + 24) mem)"
    using assms(2) by simp
  then have "push_raw client (drop (p + 2 + 24) mem) (length d) (px_buffer px) =
      push_raw client d (length d) (px_buffer px)"
    using push_raw_take request_data [OF assms(1,2)] by metis
  moreover have "unat (of_nat (length d) :: u32) = length d"
    using assms(3) by (intro unat_of_nat_eq) simp
  ultimately show ?thesis
    using handle_request [OF assms(1,2) plain_def assms(4), of client z junk] by simp
qed

text \<open>
  What a client's request does, on every branch. An unregistered proxy answers
  \<^verbatim>\<open>FAILURE\<close>. Otherwise the command is appended to the buffer and counted; when the
  buffer is full it is counted, dropped and not answered, so the client waits for an
  answer that no batch will bring; and when the positions of the buffer have drifted to
  its end the copy writes behind it.
\<close>

theorem request_outcomes:
  assumes "chunk p (2 + length (plain (code APPEND) sh sd n d)) mem = frame (plain (code APPEND) sh sd n d)"
    and "p + 2 + length (plain (code APPEND) sh sd n d) \<le> length mem"
    and "length d < 2 ^ 32" and "cb_inv (px_buffer px)"
  shows "proxy_handle client z junk px mem (p + 2) (length (plain (code APPEND) sh sd n d)) =
    (let counted = px\<lparr>px_sched := record_request (px_sched px)\<rparr> in
     if \<not> px_registered px then
       Inr ([Reply client (frame (serialize (blank_message (code FAILURE) junk)))], px, True)
     else if CB_CAPACITY < cb_used (px_buffer px) + 4 + length d then Inr ([], counted, True)
     else if CB_CAPACITY < cb_write (px_buffer px) + 4 + length d then Inl OutOfBounds
     else Inr ([], counted\<lparr>px_buffer := pushed client d (px_buffer px)\<rparr>, True))"
proof (cases "px_registered px")
  case False
  then show ?thesis
    using handle_unregistered [OF assms(1,2), unfolded plain_def, OF refl] by (simp add: plain_def)
next
  case True
  then show ?thesis
    using registered_request [OF assms(1,2,3) True, of client z junk] push_raw_cases [OF assms(4), of client d]
    by (simp add: Let_def)
qed

theorem request_outcomes_witness:
  "proxy_handle 5 0 (0, 0, 0) sample_proxy (frame (plain (code APPEND) 0 0 0 [9])) 2 29 =
    Inr ([], sample_proxy\<lparr>px_sched := record_request (px_sched sample_proxy),
      px_buffer := pushed 5 [9] (px_buffer sample_proxy)\<rparr>, True)"
proof -
  have "chunk 0 (2 + length (plain (code APPEND) 0 0 0 [9])) (frame (plain (code APPEND) 0 0 0 [9]))
      = frame (plain (code APPEND) 0 0 0 [9])"
    by (simp add: chunk_def)
  from request_outcomes [OF this _ _ sample_proxy_buffer(1), of 5 0 "(0, 0, 0)"]
  show ?thesis
    by (simp add: Let_def sample_proxy_fields CB_CAPACITY_eq del: add_2_eq_Suc add_2_eq_Suc')
qed

text \<open>
  The proxy trusts the length field of a request. Nothing compares it with the length
  of the frame: a request of 28 bytes that claims \<open>k\<close> bytes of data enters the batch with
  the \<open>k\<close> bytes that happen to follow its header in the receive buffer, remains of other
  clients' requests among them, and with a claim beyond the buffer the copy reads out of
  bounds.
\<close>

theorem request_length_unchecked:
  assumes "chunk p (2 + length (layout (code APPEND) sh sd n dl [] 0 [])) mem
      = frame (layout (code APPEND) sh sd n dl [] 0 [])"
    and "p + 2 + length (layout (code APPEND) sh sd n dl [] 0 []) \<le> length mem"
    and "px_registered px" and "cb_inv (px_buffer px)"
    and "cb_write (px_buffer px) + 4 + unat dl \<le> CB_CAPACITY"
  shows "proxy_handle client z junk px mem (p + 2) (length (layout (code APPEND) sh sd n dl [] 0 [])) =
    (if length mem < p + 26 + unat dl then Inl OutOfBounds
     else Inr ([], px\<lparr>px_sched := record_request (px_sched px),
       px_buffer := pushed client (chunk (p + 26) (unat dl) mem) (px_buffer px)\<rparr>, True))"
proof (cases "length mem < p + 26 + unat dl")
  case True
  have "cb_used (px_buffer px) + (4 + unat dl) \<le> CB_CAPACITY"
    "cb_write (px_buffer px) + 4 \<le> length (cb_buf (px_buffer px))"
    using assms(4,5) by (auto simp: cb_inv_def)
  then have "push_raw client (drop (p + 2 + 24) mem) (unat dl) (px_buffer px) = Inl OutOfBounds"
    using True assms(2) by (auto simp: push_raw_def get_bytes_def require_def Let_def)
  with True show ?thesis
    using handle_request [OF assms(1,2) refl assms(3)] by simp
next
  case False
  define c where "c = chunk (p + 26) (unat dl) mem"
  have c: "length c = unat dl" "take (unat dl) (drop (p + 2 + 24) mem) = c"
    using False by (simp_all add: c_def) (simp add: chunk_def add.commute)
  then have "push_raw client (drop (p + 2 + 24) mem) (unat dl) (px_buffer px) = push_raw client c (length c) (px_buffer px)"
    using push_raw_take [of "unat dl" "drop (p + 2 + 24) mem"] False by simp
  also have "\<dots> = Inr (pushed client c (px_buffer px), True)"
    using assms(4,5) c(1) by (intro push_done) simp_all
  finally show ?thesis
    using handle_request [OF assms(1,2) refl assms(3)] False by (simp add: c_def)
qed

theorem request_length_unchecked_witness:
  "proxy_handle 5 0 (0, 0, 0) sample_proxy (frame (layout (code APPEND) 0 0 0 1000 [] 0 [])) 2 28 = Inl OutOfBounds"
proof -
  have "chunk 0 (2 + length (layout (code APPEND) 0 0 0 1000 [] 0 [])) (frame (layout (code APPEND) 0 0 0 1000 [] 0 []))
      = frame (layout (code APPEND) 0 0 0 1000 [] 0 [])"
    by (simp add: chunk_def)
  from request_length_unchecked [OF this _ _ sample_proxy_buffer(1), of 5 0 "(0, 0, 0)"]
  show ?thesis
    by (simp add: sample_proxy_fields CB_CAPACITY_eq del: add_2_eq_Suc add_2_eq_Suc')
qed

text \<open>
  No proxy survives its admission. Whatever has happened since its construction, a
  proxy that is not registered and receives the \<^verbatim>\<open>INCLUDE_PROXY\<close> it waits for starts
  its timer a second time; both constructors have started it and no handler joins its
  thread, so the assignment to the joinable thread ends the program.
\<close>

theorem admission_terminates:
  assumes "proxy_reachable px" and "\<not> px_registered px"
    and "peek_header_at mem base msg_len = Inr (Some h)" and "h_type h = code INCLUDE_PROXY"
  shows "proxy_handle client z junk px mem base msg_len = Inl Terminated"
  using proxy_timer_joinable [OF assms(1)] assms(2-4)
  by (simp add: proxy_handle_def timer_start_def require_def Let_def)

theorem admission_terminates_witness:
  "\<exists>out px. construct_joining False (- 1) (0, 0, 0) (new_proxy 0 0 [] 3 1000 1 0 []) = Inr (out, px) \<and>
    proxy_handle 5 0 (0, 0, 0) px (frame (plain (code INCLUDE_PROXY) 0 0 0 [])) 2 28 = Inl Terminated"
proof -
  define px where "px = (new_proxy 0 0 [] 3 1000 1 0 [])\<lparr>px_registered := False,
    px_timer := \<lparr>tm_running = True, tm_paused = False, tm_joinable = True\<rparr>\<rparr>"
  have 1: "construct_joining False (- 1) (0, 0, 0) (new_proxy 0 0 [] 3 1000 1 0 []) = Inr ([], px)"
    by (simp add: construct_joining_def attempt_join_def timer_start_def new_proxy_def px_def Let_def)
  have "peek_header_at (frame (plain (code INCLUDE_PROXY) 0 0 0 [])) (0 + 2) (28 + length ([] :: byte list))
      = Inr (Some \<lparr>h_type = code INCLUDE_PROXY, h_shard = 0, h_sender = 0, h_seq = 0\<rparr>)"
    by (rule plain_reads(1)) (simp_all add: chunk_def)
  then have "peek_header_at (frame (plain (code INCLUDE_PROXY) 0 0 0 [])) 2 28
      = Inr (Some \<lparr>h_type = code INCLUDE_PROXY, h_shard = 0, h_sender = 0, h_seq = 0\<rparr>)"
    by (simp add: numeral_2_eq_2)
  then have "proxy_handle 5 0 (0, 0, 0) px (frame (plain (code INCLUDE_PROXY) 0 0 0 [])) 2 28 = Inl Terminated"
    using admission_terminates [OF px_joining [OF 1]] by (simp add: px_def)
  with 1 show ?thesis by blast
qed

end
