(* ===== verification/Liveness.thy ===== *)
theory Liveness
  imports Message Slot_Scheduler
begin

text \<open>
  \<^verbatim>\<open>impl/server/message_store.h\<close> and \<^verbatim>\<open>impl/server/proxy_liveness_tracker.h\<close>: the wire
  images a server keeps per proxy, and its view of the proxies: the slots still expected
  from each, the last number used, and whether a proxy is being reconfigured (an entry
  with \<^verbatim>\<open>false\<close>) or blocked (an entry with \<^verbatim>\<open>true\<close>). An absent deque of time-outs is the
  empty one.
\<close>

section \<open>The message store\<close>

type_synonym message_store = "node_id \<rightharpoonup> byte list list"

definition store :: "node_id \<Rightarrow> byte list \<Rightarrow> message_store \<Rightarrow> message_store" where
  "store proxy wire st =
    st(proxy \<mapsto> (case st proxy of None \<Rightarrow> [] | Some ms \<Rightarrow> ms) @ [wire])"

definition has :: "node_id \<Rightarrow> message_store \<Rightarrow> bool" where
  "has proxy st \<longleftrightarrow> st proxy \<noteq> None"

definition stored :: "node_id \<Rightarrow> message_store \<Rightarrow> byte list list" where
  "stored proxy st = (case st proxy of None \<Rightarrow> [] | Some ms \<Rightarrow> ms)"

lemma stored_store [simp]:
  "stored p (store q wire st) = (if p = q then stored p st @ [wire] else stored p st)"
  by (simp add: stored_def store_def)

lemma stored_empty [simp]: "stored p Map.empty = []"
  by (simp add: stored_def)

section \<open>State of the tracker\<close>

record liveness =
  proxy_timeouts :: "node_id \<Rightarrow> u64 list"
  last_used :: "node_id \<rightharpoonup> seq_num"
  reconfiguring :: "node_id \<rightharpoonup> bool"
  lv_lag :: timestamp
  lv_num_proxies :: nat
  lv_server_id :: node_id

definition new_liveness :: "timestamp \<Rightarrow> nat \<Rightarrow> node_id \<Rightarrow> liveness" where
  "new_liveness lag n i =
    \<lparr>proxy_timeouts = (\<lambda>_. []), last_used = Map.empty, reconfiguring = Map.empty, lv_lag = lag,
     lv_num_proxies = n, lv_server_id = i\<rparr>"

section \<open>Operations\<close>

definition update_timeouts :: "node_id \<Rightarrow> u64 list \<Rightarrow> liveness \<Rightarrow> liveness" where
  "update_timeouts proxy vs lv =
    lv\<lparr>proxy_timeouts := (proxy_timeouts lv)(proxy := proxy_timeouts lv proxy @ vs)\<rparr>"

definition last_seq :: "node_id \<Rightarrow> liveness \<Rightarrow> seq_num" where
  "last_seq proxy lv = (case last_used lv proxy of None \<Rightarrow> 0 | Some n \<Rightarrow> n)"

definition remove_timeout :: "node_id \<Rightarrow> seq_num \<Rightarrow> liveness \<Rightarrow> fault + liveness" where
  "remove_timeout proxy n lv =
    (if reconfiguring lv proxy = None then
       let tq = proxy_timeouts lv proxy in
       if length tq < 2 then Inr lv
       else require (2 \<le> length tq \<and> length tq mod 2 = 0) AssertFailed
         (Inr (lv\<lparr>last_used := (last_used lv)(proxy \<mapsto> hd (tl tq)),
                 proxy_timeouts := (proxy_timeouts lv)(proxy := tl (tl tq))\<rparr>))
     else if last_seq proxy lv < n then Inr (lv\<lparr>last_used := (last_used lv)(proxy \<mapsto> n)\<rparr>)
     else Inr (lv\<lparr>last_used := (last_used lv)(proxy \<mapsto> last_seq proxy lv)\<rparr>))"

text \<open>\<^verbatim>\<open>block_proxy\<close> sets the entry and then fails an assertion.\<close>

definition block_proxy :: "node_id \<Rightarrow> liveness \<Rightarrow> fault + liveness" where
  "block_proxy proxy lv =
    (let lv = lv\<lparr>reconfiguring := (reconfiguring lv)(proxy \<mapsto> True)\<rparr>
     in require False AssertFailed (Inr lv))"

definition unblock_proxy :: "node_id \<Rightarrow> liveness \<Rightarrow> liveness" where
  "unblock_proxy proxy lv =
    lv\<lparr>reconfiguring := (reconfiguring lv)(proxy := None),
       proxy_timeouts := (proxy_timeouts lv)(proxy := []),
       last_used := (last_used lv)(proxy := None)\<rparr>"

definition is_blocked :: "node_id \<Rightarrow> liveness \<Rightarrow> bool" where
  "is_blocked proxy lv \<longleftrightarrow> reconfiguring lv proxy = Some True"

definition set_reconfiguring :: "node_id \<Rightarrow> liveness \<Rightarrow> liveness" where
  "set_reconfiguring proxy lv = lv\<lparr>reconfiguring := (reconfiguring lv)(proxy \<mapsto> False)\<rparr>"

definition is_reconfiguring :: "node_id \<Rightarrow> liveness \<Rightarrow> bool" where
  "is_reconfiguring proxy lv \<longleftrightarrow> reconfiguring lv proxy \<noteq> None"

text \<open>
  One round of \<^verbatim>\<open>detect_loop\<close>: the proxies it reports at time \<open>current\<close>. The sum of
  the time and the lag wraps around.
\<close>

definition should_report :: "timestamp \<Rightarrow> liveness \<Rightarrow> node_id \<Rightarrow> bool" where
  "should_report current lv i \<longleftrightarrow>
    \<not> is_blocked i lv \<and> reconfiguring lv i = None \<and> proxy_timeouts lv i \<noteq> [] \<and>
    hd (proxy_timeouts lv i) + lv_lag lv \<le> current"

definition detect_round :: "timestamp \<Rightarrow> liveness \<Rightarrow> node_id list" where
  "detect_round current lv =
    filter (should_report current lv) (map of_nat [0..<lv_num_proxies lv])"

definition report_message :: "liveness \<Rightarrow> node_id \<Rightarrow> fault + message" where
  "report_message lv i =
    set_failed_proxy i (build_message (code REPORT) 0 (lv_server_id lv) 0 [] [])"

section \<open>Slots expected and served\<close>

lemma length_interleave [simp]: "length (interleave ps) = 2 * length ps"
  by (induction ps) auto

fun serve_slots :: "node_id \<Rightarrow> seq_num list \<Rightarrow> liveness \<Rightarrow> fault + liveness" where
  "serve_slots proxy [] lv = Inr lv"
| "serve_slots proxy (n # ns) lv = bind_res (remove_timeout proxy n lv) (serve_slots proxy ns)"

lemma remove_timeout_slot:
  assumes "reconfiguring lv proxy = None" and "proxy_timeouts lv proxy = interleave ((t, q) # ps)"
  shows "\<exists>lv'. remove_timeout proxy n lv = Inr lv' \<and> last_seq proxy lv' = q \<and>
    proxy_timeouts lv' proxy = interleave ps \<and> reconfiguring lv' = reconfiguring lv \<and>
    lv_lag lv' = lv_lag lv \<and> lv_num_proxies lv' = lv_num_proxies lv"
  using assms by (simp add: remove_timeout_def last_seq_def mod_Suc)

lemma serve_slots_ok:
  assumes "reconfiguring lv proxy = None" and "proxy_timeouts lv proxy = interleave (ps @ qs)"
    and "length ns = length ps"
  shows "\<exists>lv'. serve_slots proxy ns lv = Inr lv' \<and>
    last_seq proxy lv' = (if ps = [] then last_seq proxy lv else snd (last ps)) \<and>
    proxy_timeouts lv' proxy = interleave qs \<and> reconfiguring lv' = reconfiguring lv \<and>
    lv_lag lv' = lv_lag lv \<and> lv_num_proxies lv' = lv_num_proxies lv"
  using assms
proof (induction ns arbitrary: ps lv)
  case (Cons n ns)
  then obtain t q ps' where ps: "ps = (t, q) # ps'"
    by (cases ps) auto
  obtain lv1 where 1: "remove_timeout proxy n lv = Inr lv1" "last_seq proxy lv1 = q"
    "proxy_timeouts lv1 proxy = interleave (ps' @ qs)" "reconfiguring lv1 = reconfiguring lv"
    "lv_lag lv1 = lv_lag lv" "lv_num_proxies lv1 = lv_num_proxies lv"
    using remove_timeout_slot [of lv proxy t q "ps' @ qs" n] Cons.prems(1,2) ps by auto
  have "reconfiguring lv1 proxy = None" "length ns = length ps'"
    using Cons.prems(1,3) 1(4) ps by simp_all
  from Cons.IH [OF this(1) 1(3) this(2)] 1 ps show ?case by auto
qed simp

section \<open>The detection thread\<close>

text \<open>
  The thread of \<^verbatim>\<open>detect_loop\<close> tests \<^verbatim>\<open>running_\<close>, makes a round and sleeps for an epoch.
  \<^verbatim>\<open>start\<close> assigns to the thread object, which ends the program when that still has a thread; \<^verbatim>\<open>stop\<close>
  waits until the thread, if there is one, is over.
\<close>

datatype detect_pc = No_thread | Detecting | Asleep | Detect_over

record detector =
  dt_running :: bool
  dt_pc :: detect_pc

definition new_detector :: detector where
  "new_detector = \<lparr>dt_running = False, dt_pc = No_thread\<rparr>"

definition start_detector :: "node_id \<Rightarrow> liveness \<Rightarrow> detector \<Rightarrow> fault + liveness \<times> detector" where
  "start_detector i lv dt =
    require (dt_pc dt = No_thread) Terminated (Inr (lv\<lparr>lv_server_id := i\<rparr>, \<lparr>dt_running = True, dt_pc = Detecting\<rparr>))"

definition detector_step :: "timestamp \<Rightarrow> liveness \<Rightarrow> detector \<Rightarrow> (node_id list \<times> detector) option" where
  "detector_step current lv dt =
    (case dt_pc dt of
       Detecting \<Rightarrow>
         Some (if dt_running dt then (detect_round current lv, dt\<lparr>dt_pc := Asleep\<rparr>) else ([], dt\<lparr>dt_pc := Detect_over\<rparr>))
     | Asleep \<Rightarrow> Some ([], dt\<lparr>dt_pc := Detecting\<rparr>)
     | _ \<Rightarrow> None)"

definition stop_detector :: "detector \<Rightarrow> detector" where
  "stop_detector dt = dt\<lparr>dt_running := False\<rparr>"

definition detector_joined :: "detector \<Rightarrow> detector option" where
  "detector_joined dt =
    (if dt_pc dt = No_thread \<or> dt_pc dt = Detect_over then Some (dt\<lparr>dt_pc := No_thread\<rparr>) else None)"

fun detector_run :: "(timestamp \<times> liveness) list \<Rightarrow> detector \<Rightarrow> (node_id list \<times> detector) option" where
  "detector_run [] dt = Some ([], dt)"
| "detector_run ((current, lv) # es) dt =
    (case detector_step current lv dt of None \<Rightarrow> None
     | Some (ids, dt) \<Rightarrow> map_option (\<lambda>(ids', dt). (ids @ ids', dt)) (detector_run es dt))"

text \<open>Once stopped the thread reports nothing more and is over after its sleep.\<close>

lemma stopped_detector_step:
  "detector_step current lv (stop_detector dt) = Some (ids, dt') \<Longrightarrow> ids = [] \<and> dt' = stop_detector dt' \<and>
    dt_pc dt' = (if dt_pc dt = Asleep then Detecting else Detect_over)"
  by (cases "dt_pc dt") (auto simp: detector_step_def stop_detector_def)

lemma stopped_detector_silent:
  "detector_run es (stop_detector dt) = Some (ids, dt') \<Longrightarrow> ids = [] \<and> length es \<le> 2 \<and>
    (detector_joined dt' \<noteq> None \<or> (\<exists>r. detector_step current lv dt' = Some r))"
proof (induction es arbitrary: dt ids)
  case Nil
  then show ?case
    by (cases "dt_pc dt") (auto simp: detector_step_def detector_joined_def stop_detector_def)
next
  case (Cons e es)
  obtain current1 lv1 where e: "e = (current1, lv1)" by (cases e)
  obtain ids1 dt1 ids2 where 1: "detector_step current1 lv1 (stop_detector dt) = Some (ids1, dt1)"
    "detector_run es dt1 = Some (ids2, dt')" "ids = ids1 @ ids2"
    using Cons.prems e by (auto split: option.splits)
  note s = stopped_detector_step [OF 1(1)]
  have "detector_run es (stop_detector dt1) = Some (ids2, dt')" using 1(2) s by simp
  note ih = Cons.IH [OF this]
  have "length es \<le> 1"
  proof (cases es)
    case (Cons e2 es2)
    obtain current2 lv2 where e2: "e2 = (current2, lv2)" by (cases e2)
    obtain ids3 dt2 where 2: "detector_step current2 lv2 (stop_detector dt1) = Some (ids3, dt2)"
      "\<exists>r. detector_run es2 dt2 = Some r"
      using \<open>detector_run es (stop_detector dt1) = _\<close> Cons e2 by (auto split: option.splits)
    have "dt_pc dt2 = Detect_over"
      using 2(1) s stopped_detector_step [OF 2(1)] by (auto simp: detector_step_def stop_detector_def split: if_splits)
    then have "es2 = []" using 2(2) by (cases es2) (auto simp: detector_step_def)
    with Cons show ?thesis by simp
  qed simp
  with ih s 1(3) show ?case by simp
qed

section \<open>Properties\<close>

text \<open>
  C31: failure detection follows the slots: with the slots of the ZIP_RESPONSEs loaded and
  \<open>k\<close> messages of the proxy seen, the last number used is that of slot \<open>k\<close>, and the proxy
  is reported in a round exactly when it is one of the known proxies and the oldest slot
  without a message is overdue by the lag. It is the number of the slot that is recorded,
  whatever number the message carries.
\<close>

theorem liveness_follows_slots:
  assumes "reconfiguring lv proxy = None" and "proxy_timeouts lv proxy = []"
    and "length ns = length ps" and "ps \<noteq> []"
  shows "\<exists>lv'. serve_slots proxy ns (update_timeouts proxy (interleave (ps @ qs)) lv) = Inr lv' \<and>
    last_seq proxy lv' = snd (last ps) \<and>
    (proxy \<in> set (detect_round current lv') \<longleftrightarrow>
      proxy \<in> of_nat ` {..<lv_num_proxies lv} \<and>
      (\<exists>t q qs'. qs = (t, q) # qs' \<and> t + lv_lag lv \<le> current))"
proof -
  let ?lv = "update_timeouts proxy (interleave (ps @ qs)) lv"
  obtain lv' where lv': "serve_slots proxy ns ?lv = Inr lv'" "last_seq proxy lv' = snd (last ps)"
    "proxy_timeouts lv' proxy = interleave qs" "reconfiguring lv' = reconfiguring ?lv"
    "lv_lag lv' = lv_lag ?lv" "lv_num_proxies lv' = lv_num_proxies ?lv"
    using serve_slots_ok [of ?lv proxy ps qs ns] assms by (auto simp: update_timeouts_def)
  have "should_report current lv' proxy \<longleftrightarrow> (\<exists>t q qs'. qs = (t, q) # qs' \<and> t + lv_lag lv \<le> current)"
    using assms(1) lv'(3-5)
    by (cases qs) (auto simp: should_report_def is_blocked_def update_timeouts_def)
  moreover have "lv_num_proxies lv' = lv_num_proxies lv"
    using lv'(6) by (simp add: update_timeouts_def)
  ultimately have "proxy \<in> set (detect_round current lv') \<longleftrightarrow>
      proxy \<in> of_nat ` {..<lv_num_proxies lv} \<and> (\<exists>t q qs'. qs = (t, q) # qs' \<and> t + lv_lag lv \<le> current)"
    by (auto simp: detect_round_def atLeast0LessThan)
  with lv'(1,2) show ?thesis by blast
qed

theorem liveness_follows_slots_witness:
  "\<exists>lv'. serve_slots 1 [77] (update_timeouts 1 (interleave ([(10, 5)] @ [(20, 6)])) (new_liveness 3 2 0))
      = Inr lv' \<and> last_seq 1 lv' = 5 \<and> 1 \<in> set (detect_round 23 lv')"
proof -
  have "(1 :: node_id) = of_nat (Suc 0)" by simp
  then have "(1 :: node_id) \<in> of_nat ` {..<2}" by (intro image_eqI [of _ _ "Suc 0"]) simp_all
  then show ?thesis
    using liveness_follows_slots [of "new_liveness 3 2 0" 1 "[77]" "[(10, 5)]" "[(20, 6)]" 23]
    by (simp add: new_liveness_def)
qed

text \<open>
  A proxy that numbers its own batches, without slots of the Zipper, is invisible to
  the tracker: whatever numbers its messages carry, no number is recorded as its last
  one, so the freeze protocol would report 0, and it is never reported as failed.
\<close>

theorem self_numbered_invisible:
  assumes "reconfiguring lv proxy = None" and "proxy_timeouts lv proxy = []"
  shows "serve_slots proxy ns lv = Inr lv \<and> proxy \<notin> set (detect_round current lv)"
proof -
  have "serve_slots proxy ns lv = Inr lv"
    by (induction ns) (simp_all add: remove_timeout_def assms)
  then show ?thesis
    using assms by (auto simp: detect_round_def should_report_def)
qed

theorem self_numbered_invisible_witness:
  "\<exists>lv. serve_slots 1 [1, 2, 3] (new_liveness 3 2 0) = Inr lv \<and> last_seq 1 lv = 0 \<and>
    1 \<notin> set (detect_round 99 lv)"
  using self_numbered_invisible [of "new_liveness 3 2 0" 1 "[1, 2, 3]" 99]
  by (auto simp: new_liveness_def last_seq_def)

end
