(* ===== verification/Queues.thy ===== *)
theory Queues
  imports Prelude
begin

text \<open>
  The interface of the queues of the program: the bounded ring of
  \<^verbatim>\<open>include/circular_buffer.h\<close>, the work queues of the replicator and of the
  broadcaster. A queue promises to behave like a list of its items; the clients'
  facts are proved once from that promise.
\<close>

datatype 'a queue_op = Enq 'a | Deq

text \<open>
  A run of operations and what each one answers: whether an item was accepted, or the
  item taken out.
\<close>

datatype 'a queue_answer = Accepted bool | Taken "'a option"

fun run_queue ::
  "('a \<Rightarrow> 'q \<Rightarrow> 'q \<times> bool) \<Rightarrow> ('q \<Rightarrow> ('a \<times> 'q) option) \<Rightarrow> 'q \<Rightarrow> 'a queue_op list
    \<Rightarrow> 'q \<times> 'a queue_answer list" where
  "run_queue enq deq q [] = (q, [])"
| "run_queue enq deq q (Enq x # ops) =
    (let (q, ok) = enq x q; (q, as) = run_queue enq deq q ops in (q, Accepted ok # as))"
| "run_queue enq deq q (Deq # ops) =
    (case deq q of
       None \<Rightarrow> (let (q, as) = run_queue enq deq q ops in (q, Taken None # as))
     | Some (x, q) \<Rightarrow> (let (q, as) = run_queue enq deq q ops in (q, Taken (Some x) # as)))"

text \<open>The items accepted and the items taken out during a run.\<close>

fun items_in :: "'a queue_op list \<Rightarrow> 'a queue_answer list \<Rightarrow> 'a list" where
  "items_in (Enq x # ops) (Accepted True # as) = x # items_in ops as"
| "items_in (op # ops) (a # as) = items_in ops as"
| "items_in ops as = []"

fun items_out :: "'a queue_answer list \<Rightarrow> 'a list" where
  "items_out [] = []"
| "items_out (Taken (Some x) # as) = x # items_out as"
| "items_out (a # as) = items_out as"

locale fifo =
  fixes enq :: "'a \<Rightarrow> 'q \<Rightarrow> 'q \<times> bool"
    and deq :: "'q \<Rightarrow> ('a \<times> 'q) option"
    and items :: "'q \<Rightarrow> 'a list"
    and inv :: "'q \<Rightarrow> bool"
  assumes enq_inv: "inv q \<Longrightarrow> inv (fst (enq x q))"
    and enq_items: "inv q \<Longrightarrow> items (fst (enq x q)) = (if snd (enq x q) then items q @ [x] else items q)"
    and deq_None: "inv q \<Longrightarrow> deq q = None \<longleftrightarrow> items q = []"
    and deq_inv: "inv q \<Longrightarrow> deq q = Some (x, q') \<Longrightarrow> inv q'"
    and deq_items: "inv q \<Longrightarrow> deq q = Some (x, q') \<Longrightarrow> items q = x # items q'"
begin

text \<open>
  First in, first out: over any run, what was there and what was accepted, in order, is
  what was taken out followed by what is left.
\<close>

lemma run_fifo:
  "inv q \<Longrightarrow> run_queue enq deq q ops = (q', as) \<Longrightarrow>
    inv q' \<and> items q @ items_in ops as = items_out as @ items q'"
proof (induction ops arbitrary: q as)
  case Nil
  then show ?case by simp
next
  case (Cons op ops)
  show ?case
  proof (cases op)
    case (Enq x)
    obtain q1 ok where e: "enq x q = (q1, ok)"
      by (cases "enq x q")
    obtain as1 where as1: "run_queue enq deq q1 ops = (q', as1)" "as = Accepted ok # as1"
      using Cons.prems(2) by (auto simp: Enq e split: prod.splits)
    have "inv q1" and "items q1 = (if ok then items q @ [x] else items q)"
      using enq_inv [OF Cons.prems(1), of x] enq_items [OF Cons.prems(1), of x] by (simp_all add: e)
    with Cons.IH [OF _ as1(1)] show ?thesis
      by (cases ok) (auto simp: as1(2) Enq)
  next
    case Deq
    show ?thesis
    proof (cases "deq q")
      case None
      with Cons.prems obtain as1 where "run_queue enq deq q ops = (q', as1)" "as = Taken None # as1"
        by (auto simp: Deq split: prod.splits)
      with Cons.IH [OF Cons.prems(1)] show ?thesis
        by (simp add: Deq)
    next
      case (Some r)
      obtain x q1 where r: "r = (x, q1)" by (cases r)
      with Some Cons.prems obtain as1 where as1: "run_queue enq deq q1 ops = (q', as1)"
        "as = Taken (Some x) # as1"
        by (auto simp: Deq split: prod.splits)
      have "inv q1" "items q = x # items q1"
        using deq_inv deq_items Cons.prems(1) Some r by blast+
      with Cons.IH [OF _ as1(1)] as1(2) show ?thesis
        by (simp add: Deq)
    qed
  qed
qed

end

text \<open>A bounded queue refuses an item exactly when it is full.\<close>

locale bounded_fifo = fifo enq deq items inv
  for enq :: "'a \<Rightarrow> 'q \<Rightarrow> 'q \<times> bool"
    and deq :: "'q \<Rightarrow> ('a \<times> 'q) option"
    and items :: "'q \<Rightarrow> 'a list"
    and inv :: "'q \<Rightarrow> bool" +
  fixes cap :: "'q \<Rightarrow> nat"
  assumes enq_full: "inv q \<Longrightarrow> snd (enq x q) \<longleftrightarrow> length (items q) < cap q"
    and enq_cap: "cap (fst (enq x q)) = cap q"
    and deq_cap: "deq q = Some (x, q') \<Longrightarrow> cap q' = cap q"
    and items_cap: "inv q \<Longrightarrow> length (items q) \<le> cap q"
begin

lemma run_cap: "run_queue enq deq q ops = (q', as) \<Longrightarrow> cap q' = cap q"
proof (induction ops arbitrary: q as)
  case (Cons op ops)
  then show ?case
    using enq_cap deq_cap
    by (cases op) (auto split: prod.splits option.splits, metis fst_conv)
qed simp

lemma enq_deq:
  assumes "inv q" and "items q = []" and "0 < cap q"
  shows "\<exists>q'. deq (fst (enq x q)) = Some (x, q') \<and> items q' = []"
proof -
  let ?q = "fst (enq x q)"
  have inv: "inv ?q" and it: "items ?q = [x]"
    using assms enq_inv enq_items enq_full by auto
  then obtain y q' where "deq ?q = Some (y, q')"
    using deq_None [OF inv] by auto
  with deq_items [OF inv this] it show ?thesis by auto
qed

end

end
