(* ===== verification/Broadcaster.thy ===== *)
theory Broadcaster
  imports Connection Queues "HOL-Library.Sublist"
begin

text \<open>
  \<^verbatim>\<open>impl/server/subscriber_broadcaster.h\<close>: one worker thread and queue per subscriber.
  \<^verbatim>\<open>broadcast\<close> pushes a copy for every worker; a worker takes the images in order,
  sends each on the connection of its subscriber and waits for one frame in return.
\<close>

section \<open>The queue of a worker\<close>

text \<open>\<^verbatim>\<open>std::queue\<close>: an unbounded list.\<close>

definition queue_push :: "'a \<Rightarrow> 'a list \<Rightarrow> 'a list \<times> bool" where
  "queue_push x q = (q @ [x], True)"

definition queue_pop :: "'a list \<Rightarrow> ('a \<times> 'a list) option" where
  "queue_pop q = (case q of [] \<Rightarrow> None | x # xs \<Rightarrow> Some (x, xs))"

interpretation std_queue: fifo queue_push queue_pop "\<lambda>q. q" "\<lambda>_. True"
  by unfold_locales (auto simp: queue_push_def queue_pop_def split: list.splits)

section \<open>State and operations\<close>

text \<open>\<open>bw_sent\<close> is history: the images for which a send and an answer succeeded.\<close>

record bworker =
  bw_queue :: "byte list list"
  bw_socket :: int
  bw_rb :: read_buffer
  bw_shutdown :: bool
  bw_sent :: "byte list list"

type_synonym broadcaster = "nat \<rightharpoonup> bworker"

definition new_bworker :: "byte list \<Rightarrow> bworker" where
  "new_bworker junk =
    \<lparr>bw_queue = [], bw_socket = - 1, bw_rb = fresh_buffer junk, bw_shutdown = False, bw_sent = []\<rparr>"

text \<open>Replacing a worker destroys one whose thread still runs, which ends the program.\<close>

definition add_subscriber :: "nat \<Rightarrow> byte list \<Rightarrow> broadcaster \<Rightarrow> fault + broadcaster" where
  "add_subscriber idx junk b =
    require (idx \<notin> dom b) Terminated (Inr (b(idx \<mapsto> new_bworker junk)))"

fun start_from :: "nat \<Rightarrow> nat \<Rightarrow> byte list \<Rightarrow> broadcaster \<Rightarrow> fault + broadcaster" where
  "start_from i 0 junk b = Inr b"
| "start_from i (Suc n) junk b = bind_res (add_subscriber i junk b) (start_from (i + 1) n junk)"

definition start_broadcaster :: "nat \<Rightarrow> byte list \<Rightarrow> fault + broadcaster" where
  "start_broadcaster n junk = start_from 0 n junk Map.empty"

definition push_image :: "byte list \<Rightarrow> bworker \<Rightarrow> bworker" where
  "push_image wire w = w\<lparr>bw_queue := fst (queue_push wire (bw_queue w))\<rparr>"

definition broadcast :: "byte list \<Rightarrow> broadcaster \<Rightarrow> broadcaster" where
  "broadcast wire b = map_option (push_image wire) \<circ> b"

definition shutdown_broadcaster :: "broadcaster \<Rightarrow> broadcaster" where
  "shutdown_broadcaster b = map_option (\<lambda>w. w\<lparr>bw_shutdown := True\<rparr>) \<circ> b"

text \<open>
  One round of \<^verbatim>\<open>worker_loop\<close>: \<open>sock\<close> is what the connection pool gives, \<open>accepted\<close>
  what the send accepts, \<open>evs\<close> what arrives. \<open>None\<close> is a round that never ends: the
  queue is empty, or the subscriber stays silent.
\<close>

definition worker_round :: "int \<Rightarrow> int \<Rightarrow> socket_in \<Rightarrow> bworker \<Rightarrow> bworker option" where
  "worker_round sock accepted evs w =
    (if bw_shutdown w then Some w
     else case queue_pop (bw_queue w) of
       None \<Rightarrow> None
     | Some (wire, q) \<Rightarrow>
         let w = w\<lparr>bw_queue := q\<rparr> in
         if sock < 0 then Some (w\<lparr>bw_shutdown := True\<rparr>)
         else
           let w = (if sock \<noteq> bw_socket w
                    then w\<lparr>bw_socket := sock, bw_rb := rb_reset (bw_rb w)\<rparr> else w);
               (out, ok) = send_bytes_raw accepted wire
           in if \<not> ok then Some (w\<lparr>bw_shutdown := True\<rparr>)
              else case recv_raw_buffered (bw_rb w) evs of
                None \<Rightarrow> None
              | Some (None, rb, _) \<Rightarrow> Some (w\<lparr>bw_rb := rb, bw_shutdown := True\<rparr>)
              | Some (Some len, rb, _) \<Rightarrow>
                  Some (w\<lparr>bw_rb := consume (2 + len) rb, bw_sent := bw_sent w @ [wire]\<rparr>))"

section \<open>The life of a worker\<close>

text \<open>What happens to one worker: a broadcast, a round of its thread, a shutdown.\<close>

datatype bevent = Image "byte list" | Round int int socket_in | Stop

fun bworker_event :: "bevent \<Rightarrow> bworker \<Rightarrow> bworker" where
  "bworker_event (Image wire) w = push_image wire w"
| "bworker_event (Round sock accepted evs) w =
    (case worker_round sock accepted evs w of None \<Rightarrow> w | Some w' \<Rightarrow> w')"
| "bworker_event Stop w = w\<lparr>bw_shutdown := True\<rparr>"

fun images :: "bevent list \<Rightarrow> byte list list" where
  "images [] = []"
| "images (Image wire # es) = wire # images es"
| "images (e # es) = images es"

definition bworker_inv :: "byte list list \<Rightarrow> bworker \<Rightarrow> bool" where
  "bworker_inv ws w \<longleftrightarrow> prefix (bw_sent w) ws \<and> (\<not> bw_shutdown w \<longrightarrow> ws = bw_sent w @ bw_queue w)"

lemma worker_round_inv:
  assumes "bworker_inv ws w" and "worker_round sock accepted evs w = Some w'"
  shows "bworker_inv ws w'"
proof (cases "bw_shutdown w")
  case True
  with assms show ?thesis by (simp add: worker_round_def)
next
  case False
  then have ws: "ws = bw_sent w @ bw_queue w"
    using assms(1) by (simp add: bworker_inv_def)
  with False assms(2) show ?thesis
    by (auto simp: worker_round_def queue_pop_def bworker_inv_def Let_def
        split: list.splits if_splits prod.splits option.splits)
qed

lemma bworker_event_inv:
  "bworker_inv ws w \<Longrightarrow> bworker_inv (ws @ images [e]) (bworker_event e w)"
  by (cases e) (auto simp: bworker_inv_def push_image_def queue_push_def split: option.splits
      dest: worker_round_inv [unfolded bworker_inv_def, rotated])

lemma images_Cons: "images (e # es) = images [e] @ images es"
  by (cases e) simp_all

lemma bworker_run_inv:
  "bworker_inv ws w \<Longrightarrow> bworker_inv (ws @ images es) (fold bworker_event es w)"
proof (induction es arbitrary: ws w)
  case (Cons e es)
  from Cons.IH [OF bworker_event_inv [OF Cons.prems]] show ?case
    by (simp add: images_Cons [of e es])
qed simp

section \<open>Properties\<close>

text \<open>
  A subscriber's worker is fed in order and without gaps: after any history of
  broadcasts, rounds with any outcomes and shutdowns, the images that reached the
  subscriber are an initial part of the images broadcast since the worker started, and
  while the worker runs the rest of them is exactly its queue.
\<close>

theorem broadcast_in_order:
  assumes "fold bworker_event es (new_bworker junk) = w"
  shows "prefix (bw_sent w) (images es) \<and>
    (\<not> bw_shutdown w \<longrightarrow> images es = bw_sent w @ bw_queue w)"
  using bworker_run_inv [of "[]" "new_bworker junk" es] assms
  by (simp add: bworker_inv_def new_bworker_def)

theorem broadcast_in_order_witness:
  "prefix (bw_sent (fold bworker_event [Image [1], Image [2], Round (- 1) 1 [], Image [3]] (new_bworker [])))
    [[1], [2], [3]]"
  using broadcast_in_order [of "[Image [1], Image [2], Round (- 1) 1 [], Image [3]]" "[]"] by simp

end
