(* ===== verification/Server.thy ===== *)
theory Server
  imports Liveness Broadcaster
begin

text \<open>
  \<^verbatim>\<open>impl/server/server.cpp\<close>: the loop of a storage server on a connection. An
  \<^verbatim>\<open>APPEND\<close> or \<^verbatim>\<open>SKIP\<close> is acknowledged, stored as it came, and broadcast with the
  server's id in place of the proxy's, the bytes patched in the read buffer and restored.
\<close>

section \<open>State and handler\<close>

record server =
  sv_shard :: shard_id
  sv_id :: node_id
  sv_store :: message_store
  sv_liveness :: liveness
  sv_workers :: broadcaster

definition server_ack :: "server \<Rightarrow> seq_num \<Rightarrow> byte list" where
  "server_ack sv n = build_wire_bytes (code ACK) (sv_shard sv) (sv_id sv) n None 0"

text \<open>
  The branch for \<^verbatim>\<open>APPEND\<close> and \<^verbatim>\<open>SKIP\<close>: \<open>base\<close> is the offset of the body, the
  frame begins two bytes before it.
\<close>

definition handle_entry ::
  "message_header \<Rightarrow> server \<Rightarrow> byte list \<Rightarrow> nat \<Rightarrow> nat \<Rightarrow> fault + byte list list \<times> server" where
  "handle_entry h sv mem base msg_len =
    (let ack = server_ack sv (h_seq h) in
     if is_blocked (h_sender h) (sv_liveness sv) then Inr ([ack], sv)
     else
       bind_res (get_bytes (msg_len + 2) mem (base - 2)) (\<lambda>wire.
       let st = store (h_sender h) wire (sv_store sv) in
       bind_res (remove_timeout (h_sender h) (h_seq h) (sv_liveness sv)) (\<lambda>lv.
       let patched = blit mem (base - 2 + 10) (be_bytes 4 (sv_id sv)) in
       bind_res (get_bytes (msg_len + 2) patched (base - 2)) (\<lambda>wire'.
         Inr ([ack], sv\<lparr>sv_store := st, sv_liveness := lv,
                         sv_workers := broadcast wire' (sv_workers sv)\<rparr>)))))"

definition server_handle ::
  "server \<Rightarrow> byte list \<Rightarrow> nat \<Rightarrow> nat \<Rightarrow> fault + byte list list \<times> server \<times> bool" where
  "server_handle sv mem base msg_len =
    bind_res (peek_header_at mem base msg_len) (\<lambda>header.
      case header of
        None \<Rightarrow> Inr ([], sv, False)
      | Some h \<Rightarrow>
          if h_type h \<in> {code APPEND, code SKIP} then
            map_res (\<lambda>(out, sv). (out, sv, True)) (handle_entry h sv mem base msg_len)
          else if h_type h = code ZIP_RESPONSE then
            map_res (\<lambda>r. case r of
                None \<Rightarrow> ([], sv, True)
              | Some m \<Rightarrow>
                  ([server_ack sv 0],
                   sv\<lparr>sv_liveness := update_timeouts (sender_id m) (ordering_values m) (sv_liveness sv)\<rparr>,
                   True))
              (deserialize_raw mem base msg_len)
          else Inr ([], sv, True))"

section \<open>The handler and the bytes of its frame\<close>

text \<open>What a server does with a message of a proxy that is not blocked.\<close>

definition accept_entry :: "node_id \<Rightarrow> byte list \<Rightarrow> byte list \<Rightarrow> liveness \<Rightarrow> server \<Rightarrow> server" where
  "accept_entry proxy wire wire' lv sv =
    sv\<lparr>sv_store := store proxy wire (sv_store sv), sv_liveness := lv,
       sv_workers := broadcast wire' (sv_workers sv)\<rparr>"

definition even_timeouts :: "liveness \<Rightarrow> bool" where
  "even_timeouts lv \<longleftrightarrow> (\<forall>p. even (length (proxy_timeouts lv p)))"

lemma even_timeouts_new [simp]: "even_timeouts (new_liveness lag n i)"
  by (simp add: even_timeouts_def new_liveness_def)

lemma remove_timeout_even:
  assumes "even_timeouts lv"
  shows "\<exists>lv'. remove_timeout p n lv = Inr lv' \<and> even_timeouts lv' \<and> reconfiguring lv' = reconfiguring lv"
  using assms by (auto simp: remove_timeout_def even_timeouts_def even_iff_mod_2_eq_zero [symmetric] Let_def)

text \<open>Patching the sender in the buffer.\<close>

lemma plain_sender:
  "frame (plain t sh sd s d) = be_bytes 2 (of_nat (28 + length d) :: u16) @ be_bytes 4 t @ be_bytes 4 sh
    @ be_bytes 4 sd @ be_bytes 8 s @ be_bytes 4 (of_nat (length d) :: u32) @ d @ be_bytes 4 (0 :: u32)"
  by (simp add: frame_def plain_def layout_def)

lemma patch_sender:
  assumes "chunk p (2 + length (plain t sh sd s d)) mem = frame (plain t sh sd s d)"
    and "p + 2 + length (plain t sh sd s d) \<le> length mem"
  shows "chunk p (2 + length (plain t sh sd s d)) (blit mem (p + 10) (be_bytes 4 sd')) =
    frame (plain t sh sd' s d)"
proof -
  let ?n = "30 + length d"
  define pre where "pre = take p mem"
  define post where "post = drop (p + ?n) mem"
  have "mem = pre @ chunk p ?n mem @ post"
    by (simp add: pre_def post_def chunk_def flip: drop_drop take_drop)
      (metis add.commute append_take_drop_id drop_drop take_drop)
  then have mem: "mem = pre @ frame (plain t sh sd s d) @ post"
    using assms(1) by simp
  have lp: "length pre = p"
    using assms(2) by (simp add: pre_def)
  have "blit mem (p + 10) (be_bytes 4 sd') = pre @ frame (plain t sh sd' s d) @ post"
    unfolding mem plain_sender by (simp add: blit_def lp)
  then show ?thesis
    by (simp add: chunk_def lp)
qed

text \<open>The connection as a sequence of bodies.\<close>

fun resend :: "node_id \<Rightarrow> log_message \<Rightarrow> log_message" where
  "resend i (t, sh, sd, n, d) = (t, sh, i, n, d)"

fun entry_ok :: "log_message \<Rightarrow> bool" where
  "entry_ok (t, sh, sd, n, d) \<longleftrightarrow> t \<in> {APPEND, SKIP} \<and> 28 + length d \<le> safe_body"

fun server_entry :: "log_message \<Rightarrow> server \<Rightarrow> byte list list \<times> server" where
  "server_entry (t, sh, sd, n, d) sv =
    ([server_ack sv n],
     if is_blocked sd (sv_liveness sv) then sv
     else accept_entry sd (frame (log_body (t, sh, sd, n, d)))
       (frame (log_body (resend (sv_id sv) (t, sh, sd, n, d))))
       (case remove_timeout sd n (sv_liveness sv) of Inr lv \<Rightarrow> lv | Inl _ \<Rightarrow> sv_liveness sv) sv)"

declare entry_ok.simps [simp del] server_entry.simps [simp del] resend.simps [simp del]

definition server_step :: "server \<Rightarrow> byte list \<Rightarrow> byte list list \<times> server" where
  "server_step sv body =
    (case deserialize body of
       Inr (Some m) \<Rightarrow>
         server_entry (if msg_type m = code APPEND then APPEND else SKIP, shard_id m, sender_id m,
           seq_or_count m, msg_data m) sv
     | _ \<Rightarrow> ([], sv))"

definition server_body_ok :: "byte list \<Rightarrow> bool" where
  "server_body_ok body \<longleftrightarrow> (\<exists>e. body = log_body e \<and> entry_ok e)"

definition server_ok :: "server \<Rightarrow> bool" where
  "server_ok sv \<longleftrightarrow> even_timeouts (sv_liveness sv)"

lemma entry_small: "entry_ok (t, sh, sd, n, d) \<Longrightarrow> length d < 2 ^ 32"
  by (simp add: entry_ok.simps safe_body_def CAPACITY_def MAX_MESSAGE_SIZE_def)

lemma server_step_body:
  assumes "entry_ok (t, sh, sd, n, d)"
  shows "server_step sv (log_body (t, sh, sd, n, d)) = server_entry (t, sh, sd, n, d) sv"
proof -
  have "t = APPEND \<or> t = SKIP"
    using assms by (simp add: entry_ok.simps)
  then show ?thesis
    by (auto simp: server_step_def log_body.simps deserialize_plain [OF entry_small [OF assms]]
        build_message_def)
qed

lemma server_entry_ok:
  assumes "server_ok sv"
  shows "server_ok (snd (server_entry e sv))"
proof -
  obtain t sh sd n d where e: "e = (t, sh, sd, n, d)" by (rule prod_cases5)
  obtain lv where "remove_timeout sd n (sv_liveness sv) = Inr lv" "even_timeouts lv"
    using remove_timeout_even assms by (metis server_ok_def)
  with assms show ?thesis
    by (simp add: e server_entry.simps accept_entry_def server_ok_def)
qed

lemma server_handle_body:
  assumes mem: "chunk p (2 + length (log_body (t, sh, sd, n, d))) mem = frame (log_body (t, sh, sd, n, d))"
    "p + 2 + length (log_body (t, sh, sd, n, d)) \<le> length mem"
    and ok: "entry_ok (t, sh, sd, n, d)" "server_ok sv"
  shows "server_handle sv mem (p + 2) (length (log_body (t, sh, sd, n, d))) =
    (case server_entry (t, sh, sd, n, d) sv of (out, sv') \<Rightarrow> Inr (out, sv', True))"
proof -
  note mem' = mem [unfolded log_body.simps]
  let ?h = "\<lparr>h_type = code t, h_shard = sh, h_sender = sd, h_seq = n\<rparr>"
  obtain lv where lv: "remove_timeout sd n (sv_liveness sv) = Inr lv"
    using remove_timeout_even ok(2) by (metis server_ok_def)
  have wire: "get_bytes (28 + length d + 2) mem p = Inr (frame (log_body (t, sh, sd, n, d)))"
    using mem by (simp add: get_bytes_inside add.commute)
  let ?patched = "blit mem (p + 10) (be_bytes 4 (sv_id sv))"
  have len: "length ?patched = length mem"
    using mem(2) by simp
  have wire': "get_bytes (28 + length d + 2) ?patched p
      = Inr (frame (log_body (resend (sv_id sv) (t, sh, sd, n, d))))"
    using patch_sender [OF mem'] mem(2) len by (simp add: get_bytes_inside log_body.simps resend.simps add.commute)
  have "handle_entry ?h sv mem (p + 2) (28 + length d) = Inr (server_entry (t, sh, sd, n, d) sv)"
    using wire wire' lv
    by (simp add: handle_entry_def server_entry.simps accept_entry_def Let_def del: add_2_eq_Suc')
  moreover have "peek_header_at mem (p + 2) (28 + length d) = Inr (Some ?h)"
    using plain_reads(1) [OF mem'] .
  moreover have "t = APPEND \<or> t = SKIP"
    using ok(1) by (simp add: entry_ok.simps)
  ultimately show ?thesis
    by (auto simp: server_handle_def map_res_def case_prod_beta)
qed

interpretation srv: frame_handler server_handle server_step server_body_ok server_ok
proof
  fix sv body p and mem :: "byte list"
  assume sv: "server_ok sv" and b: "server_body_ok body"
  obtain t sh sd n d where e: "body = log_body (t, sh, sd, n, d)" "entry_ok (t, sh, sd, n, d)"
    using b by (auto simp: server_body_ok_def)
  show "server_ok (snd (server_step sv body))"
    using server_entry_ok [OF sv] by (simp add: e server_step_body)
  assume "p + 2 + length body \<le> length mem" "chunk p (2 + length body) mem = frame body"
  then show "server_handle sv mem (p + 2) (length body) =
      Inr (fst (server_step sv body), snd (server_step sv body), True)"
    using server_handle_body [OF _ _ e(2) sv] e(1) server_step_body [OF e(2)]
    by (simp only: case_prod_beta)
qed

text \<open>The effect of a run of entries of proxies that are not blocked.\<close>

definition sender :: "log_message \<Rightarrow> node_id" where
  "sender e = fst (snd (snd e))"

definition number :: "log_message \<Rightarrow> seq_num" where
  "number e = fst (snd (snd (snd e)))"

lemma broadcast_queue:
  "broadcast wire b i = map_option (\<lambda>w. w\<lparr>bw_queue := bw_queue w @ [wire]\<rparr>) (b i)"
proof -
  have "push_image wire = (\<lambda>w. w\<lparr>bw_queue := bw_queue w @ [wire]\<rparr>)"
    by (simp add: push_image_def queue_push_def fun_eq_iff)
  then show ?thesis by (simp add: broadcast_def)
qed

lemma run_bodies_server:
  assumes "server_ok sv" and "\<forall>e \<in> set es. entry_ok e \<and> \<not> is_blocked (sender e) (sv_liveness sv)"
  shows "\<exists>sv'. run_bodies server_step sv (map log_body es) = (map (server_ack sv \<circ> number) es, sv') \<and>
    server_ok sv' \<and>
    (\<forall>p. stored p (sv_store sv') = stored p (sv_store sv) @
      map (frame \<circ> log_body) (filter (\<lambda>e. sender e = p) es)) \<and>
    (\<forall>i. sv_workers sv' i = map_option
      (\<lambda>w. w\<lparr>bw_queue := bw_queue w @ map (frame \<circ> log_body \<circ> resend (sv_id sv)) es\<rparr>) (sv_workers sv i))"
  using assms
proof (induction es arbitrary: sv)
  case Nil
  then show ?case by (simp add: option.map_ident_strong)
next
  case (Cons e es)
  obtain t sh sd n d where e: "e = (t, sh, sd, n, d)" by (rule prod_cases5)
  have ok: "entry_ok (t, sh, sd, n, d)" "\<not> is_blocked sd (sv_liveness sv)"
    using Cons.prems(2) by (simp_all add: e sender_def)
  obtain lv where lv: "remove_timeout sd n (sv_liveness sv) = Inr lv" "even_timeouts lv"
    "reconfiguring lv = reconfiguring (sv_liveness sv)"
    using remove_timeout_even Cons.prems(1) by (metis server_ok_def)
  define sv1 where "sv1 = accept_entry sd (frame (log_body e)) (frame (log_body (resend (sv_id sv) e))) lv sv"
  have step: "server_entry (t, sh, sd, n, d) sv = ([server_ack sv n], sv1)"
    using ok(2) lv(1) by (simp add: server_entry.simps sv1_def e)
  have sv1: "server_ok sv1" "sv_id sv1 = sv_id sv" "server_ack sv1 = server_ack sv"
    "stored p (sv_store sv1) = (if p = sd then stored p (sv_store sv) @ [frame (log_body e)] else stored p (sv_store sv))"
    "sv_workers sv1 i = map_option (\<lambda>w. w\<lparr>bw_queue := bw_queue w @ [frame (log_body (resend (sv_id sv) e))]\<rparr>) (sv_workers sv i)"
    "is_blocked q (sv_liveness sv1) = is_blocked q (sv_liveness sv)" for p i q
    using lv(2,3) by (simp_all add: sv1_def accept_entry_def server_ok_def server_ack_def fun_eq_iff
        broadcast_queue is_blocked_def)
  obtain sv' where sv': "run_bodies server_step sv1 (map log_body es) = (map (server_ack sv1 \<circ> number) es, sv')"
    "server_ok sv'"
    "\<forall>p. stored p (sv_store sv') = stored p (sv_store sv1) @
      map (frame \<circ> log_body) (filter (\<lambda>e. sender e = p) es)"
    "\<forall>i. sv_workers sv' i = map_option
      (\<lambda>w. w\<lparr>bw_queue := bw_queue w @ map (frame \<circ> log_body \<circ> resend (sv_id sv1)) es\<rparr>) (sv_workers sv1 i)"
  proof -
    have "\<forall>e \<in> set es. entry_ok e \<and> \<not> is_blocked (sender e) (sv_liveness sv1)"
      using Cons.prems(2) sv1(6) by simp
    from Cons.IH [OF sv1(1) this] that show thesis by blast
  qed
  have "run_bodies server_step sv (map log_body (e # es)) = (map (server_ack sv \<circ> number) (e # es), sv')"
    using sv'(1) step sv1(3) by (simp add: server_step_body [OF ok(1)] e number_def)
  moreover have "\<forall>p. stored p (sv_store sv') = stored p (sv_store sv) @
      map (frame \<circ> log_body) (filter (\<lambda>e. sender e = p) (e # es))"
    using sv'(3) sv1(4) by (auto simp: e sender_def)
  moreover have "\<forall>i. sv_workers sv' i = map_option
      (\<lambda>w. w\<lparr>bw_queue := bw_queue w @ map (frame \<circ> log_body \<circ> resend (sv_id sv)) (e # es)\<rparr>) (sv_workers sv i)"
    using sv'(4) sv1(2,5) by (simp add: option.map_comp o_def)
  ultimately show ?case
    using sv'(2) by blast
qed

section \<open>Construction\<close>

text \<open>
  The constructor: the lag is five epochs, one worker for each subscriber. The detection thread is
  not started (its call is disabled), so that the tracker keeps 0 as the identifier of the server.
\<close>

definition new_server :: "shard_id \<Rightarrow> node_id \<Rightarrow> timestamp \<Rightarrow> nat \<Rightarrow> nat \<Rightarrow> byte list \<Rightarrow> fault + server" where
  "new_server sh i duration proxies subscribers junk =
    map_res (\<lambda>w. \<lparr>sv_shard = sh, sv_id = i, sv_store = Map.empty,
        sv_liveness = new_liveness (duration * 5) proxies 0, sv_workers = w\<rparr>)
      (start_broadcaster subscribers junk)"

lemma start_from_ok:
  "dom b = {..<i} \<Longrightarrow> \<exists>b'. start_from i n junk b = Inr b' \<and> dom b' = {..<i + n}"
proof (induction n arbitrary: i b)
  case (Suc n)
  have "add_subscriber i junk b = Inr (b(i \<mapsto> new_bworker junk))"
    using Suc.prems by (simp add: add_subscriber_def)
  moreover have "dom (b(i \<mapsto> new_bworker junk)) = {..<i + 1}" using Suc.prems by auto
  ultimately show ?case using Suc.IH [of "b(i \<mapsto> new_bworker junk)" "i + 1"]
    by (simp del: fun_upd_apply)
qed simp

lemma new_server_ok:
  "\<exists>sv. new_server sh i duration proxies subscribers junk = Inr sv \<and> server_ok sv \<and> sv_id sv = i \<and>
    sv_shard sv = sh \<and> dom (sv_workers sv) = {..<subscribers} \<and> stored p (sv_store sv) = []"
proof -
  obtain w where "start_broadcaster subscribers junk = Inr w" "dom w = {..<subscribers}"
    using start_from_ok [of Map.empty 0 subscribers junk] by (auto simp: start_broadcaster_def)
  then show ?thesis by (simp add: new_server_def server_ok_def even_timeouts_new)
qed

section \<open>Properties\<close>

text \<open>
  C11: what a proxy sends is what a server keeps and what subscribers are sent. For every
  split of the byte stream, each message of an unblocked proxy is acknowledged with its
  number, the store of its proxy grows by exactly its frame, and the queue of every
  subscriber grows by the same frame with the server as sender, all in the order of
  arrival; the patching of the buffer in place leaves the later messages intact.
\<close>

theorem server_connection:
  assumes "rb_inv rb" and "proper evs"
    and "stream rb evs = concat (map (frame \<circ> log_body) es) @ rest"
    and "server_ok sv" and "\<forall>e \<in> set es. entry_ok e \<and> \<not> is_blocked (sender e) (sv_liveness sv)"
  shows "\<exists>sv' rb' evs'. connection_loop server_handle (length es) sv rb evs =
      Some (Inr (map (server_ack sv \<circ> number) es, sv', rb', evs')) \<and> stream rb' evs' = rest \<and>
    (\<forall>p. stored p (sv_store sv') = stored p (sv_store sv) @
      map (frame \<circ> log_body) (filter (\<lambda>e. sender e = p) es)) \<and>
    (\<forall>i. sv_workers sv' i = map_option
      (\<lambda>w. w\<lparr>bw_queue := bw_queue w @ map (frame \<circ> log_body \<circ> resend (sv_id sv)) es\<rparr>) (sv_workers sv i))"
proof -
  obtain sv' where sv': "run_bodies server_step sv (map log_body es) = (map (server_ack sv \<circ> number) es, sv')"
    "\<forall>p. stored p (sv_store sv') = stored p (sv_store sv) @
      map (frame \<circ> log_body) (filter (\<lambda>e. sender e = p) es)"
    "\<forall>i. sv_workers sv' i = map_option
      (\<lambda>w. w\<lparr>bw_queue := bw_queue w @ map (frame \<circ> log_body \<circ> resend (sv_id sv)) es\<rparr>) (sv_workers sv i)"
    using run_bodies_server [OF assms(4,5)] by blast
  have "length (log_body e) \<le> safe_body" if "entry_ok e" for e
    using that by (cases e rule: prod_cases5) (simp add: entry_ok.simps)
  then have "\<forall>b \<in> set (map log_body es). server_body_ok b \<and> length b \<le> safe_body"
    using assms(5) by (fastforce simp: server_body_ok_def)
  moreover have "stream rb evs = concat (map frame (map log_body es)) @ rest"
    using assms(3) by simp
  ultimately obtain rb' evs' where "connection_loop server_handle (length (map log_body es)) sv rb evs =
      Some (Inr (map (server_ack sv \<circ> number) es, sv', rb', evs'))" "stream rb' evs' = rest"
    using srv.loop_runs [OF assms(1,2) _ _ assms(4)] sv'(1) by (metis fst_conv snd_conv)
  with sv'(2,3) show ?thesis by auto
qed

text \<open>A server with one subscriber, for the instances.\<close>

definition sample_server :: server where
  "sample_server =
    \<lparr>sv_shard = 0, sv_id = 2, sv_store = Map.empty, sv_liveness = new_liveness 5000 1 2,
     sv_workers = [0 \<mapsto> new_bworker (replicate CAPACITY 0)]\<rparr>"

definition sample_entry :: log_message where
  "sample_entry = (APPEND, 0, 0, 1, [])"

lemma frame_nonempty [simp]: "frame b \<noteq> []"
  by (metis length_frame list.size(3) add_is_0 zero_neq_numeral)

theorem server_connection_witness:
  "\<exists>sv' rb' evs'. connection_loop server_handle 1 sample_server (fresh_buffer (replicate CAPACITY 0))
      [Data (frame (log_body sample_entry))] =
      Some (Inr ([build_wire_bytes (code ACK) 0 2 1 None 0], sv', rb', evs')) \<and>
    stored 0 (sv_store sv') = [frame (log_body sample_entry)] \<and>
    map_option bw_queue (sv_workers sv' 0) = Some [frame (log_body (APPEND, 0, 2, 1, []))]"
proof -
  let ?evs = "[Data (frame (log_body sample_entry))]"
  have "proper ?evs"
    by (simp add: proper_Cons) (simp add: proper_def)
  moreover have "rb_inv (fresh_buffer (replicate CAPACITY (0 :: byte)))"
    by (rule rb_inv_fresh) simp
  moreover have "stream (fresh_buffer (replicate CAPACITY 0)) ?evs
      = concat (map (frame \<circ> log_body) [sample_entry]) @ []"
    by simp
  moreover have "server_ok sample_server"
    by (simp add: server_ok_def sample_server_def)
  moreover have "\<forall>e \<in> set [sample_entry]. entry_ok e \<and> \<not> is_blocked (sender e) (sv_liveness sample_server)"
    by (simp add: sample_entry_def entry_ok.simps safe_body_def CAPACITY_def MAX_MESSAGE_SIZE_def
        sample_server_def new_liveness_def is_blocked_def)
  ultimately obtain sv' rb' evs' where "connection_loop server_handle 1 sample_server
        (fresh_buffer (replicate CAPACITY 0)) ?evs = Some (Inr (map (server_ack sample_server \<circ> number) [sample_entry], sv', rb', evs'))"
    "\<forall>p. stored p (sv_store sv') = stored p (sv_store sample_server) @
      map (frame \<circ> log_body) (filter (\<lambda>e. sender e = p) [sample_entry])"
    "\<forall>i. sv_workers sv' i = map_option
      (\<lambda>w. w\<lparr>bw_queue := bw_queue w @ map (frame \<circ> log_body \<circ> resend (sv_id sample_server)) [sample_entry]\<rparr>)
      (sv_workers sample_server i)"
    using server_connection [of "fresh_buffer (replicate CAPACITY 0)" ?evs "[sample_entry]" "[]" sample_server]
    by (auto simp del: connection_loop.simps)
  then show ?thesis
    by (intro exI [of _ sv'] exI [of _ rb'] exI [of _ evs'])
      (simp add: sample_server_def sample_entry_def number_def sender_def server_ack_def resend.simps
        new_bworker_def option.map_comp o_def del: connection_loop.simps)
qed

text \<open>
  An acknowledgement of a server does not mean that the message was kept. The
  acknowledgement of an \<^verbatim>\<open>APPEND\<close> or \<^verbatim>\<open>SKIP\<close> is sent first and for every sender; when
  the sender is blocked the message is acknowledged and dropped: not stored, not
  broadcast, so it counts towards the quorum of its proxy and never reaches a log.
\<close>

theorem blocked_sender_acknowledged:
  assumes "chunk p (2 + length (log_body (t, sh, sd, n, d))) mem = frame (log_body (t, sh, sd, n, d))"
    and "p + 2 + length (log_body (t, sh, sd, n, d)) \<le> length mem"
    and "entry_ok (t, sh, sd, n, d)" and "server_ok sv" and "is_blocked sd (sv_liveness sv)"
  shows "server_handle sv mem (p + 2) (length (log_body (t, sh, sd, n, d))) =
    Inr ([server_ack sv n], sv, True)"
  using server_handle_body [OF assms(1-4)] assms(5) by (simp add: server_entry.simps)

theorem blocked_sender_acknowledged_witness:
  "let sv = sample_server\<lparr>sv_liveness := (new_liveness 5000 1 2)\<lparr>reconfiguring := [0 \<mapsto> True]\<rparr>\<rparr>
   in server_handle sv (frame (log_body sample_entry)) 2 28 = Inr ([server_ack sv 1], sv, True)"
proof -
  define sv where "sv = sample_server\<lparr>sv_liveness := (new_liveness 5000 1 2)\<lparr>reconfiguring := [0 \<mapsto> True]\<rparr>\<rparr>"
  have len: "length (log_body (APPEND, 0, 0, 1, [])) = 28" by simp
  have "chunk 0 (2 + length (log_body (APPEND, 0, 0, 1, []))) (frame (log_body (APPEND, 0, 0, 1, [])))
      = frame (log_body (APPEND, 0, 0, 1, []))"
    by (simp add: chunk_def)
  moreover have "entry_ok (APPEND, 0, 0, 1, [])"
    by (simp add: entry_ok.simps safe_body_def CAPACITY_def MAX_MESSAGE_SIZE_def)
  moreover have "server_ok sv" "is_blocked 0 (sv_liveness sv)"
    by (simp_all add: sv_def server_ok_def even_timeouts_def new_liveness_def is_blocked_def)
  ultimately have "server_handle sv (frame (log_body sample_entry)) 2 28 = Inr ([server_ack sv 1], sv, True)"
    using blocked_sender_acknowledged [of 0 APPEND 0 0 1 "[]" "frame (log_body (APPEND, 0, 0, 1, []))" sv]
    by (simp add: sample_entry_def numeral_2_eq_2)
  then show ?thesis
    by (simp only: Let_def flip: sv_def)
qed

section \<open>Reconfiguration\<close>

text \<open>
  The reconfiguration messages have their calls disabled: no answer, no change of state.
\<close>

lemma server_ignores_reconfiguration:
  assumes "peek_header_at mem base msg_len = Inr (Some h)"
    and "h_type h \<in> code ` {FREEZE, TRANSFER_REQUEST, FREEZE_COMPLETE, INCLUDE_PROXY, INCLUDE_SUBSCRIBER}"
  shows "server_handle sv mem base msg_len = Inr ([], sv, True)"
  using assms by (auto simp: server_handle_def)

end
