(* ===== verification/Log_Tracker.thy ===== *)
theory Log_Tracker
  imports Command_Batch "HOL-Library.Sublist"
begin

text \<open>
  \<^verbatim>\<open>impl/subscriber/log_tracker.h\<close>: the subscriber's log. A message for a sequence
  number is counted per sending server; the message that completes the quorum is
  applied, out of order if it must, and the log grows as long as the next sequence
  number is there.
\<close>

section \<open>State\<close>

record log_tracker =
  log_entries :: "command list"
  out_of_order :: "seq_num \<rightharpoonup> command"
  next_seq :: seq_num
  pending_quorum :: "seq_num \<rightharpoonup> node_id set"
  applied :: "seq_num set"

definition new_tracker :: log_tracker where
  "new_tracker =
    \<lparr>log_entries = [[]], out_of_order = Map.empty, next_seq = 1,
     pending_quorum = Map.empty, applied = {}\<rparr>"

section \<open>Latencies\<close>

text \<open>
  A command of the form \<^verbatim>\<open>digits|...\<close> carries the time it was sent. \<^verbatim>\<open>std::stoull\<close>
  throws when the digits exceed 64 bits, and the difference of the two times is taken
  as \<^verbatim>\<open>int64_t\<close>.
\<close>

definition is_digit :: "byte \<Rightarrow> bool" where
  "is_digit b \<longleftrightarrow> 48 \<le> b \<and> b \<le> 57"

definition stamp :: "command \<Rightarrow> byte list option" where
  "stamp c =
    (let ts = takeWhile (\<lambda>b. b \<noteq> 124) c
     in if 124 \<in> set c \<and> ts \<noteq> [] \<and> list_all is_digit ts then Some ts else None)"

definition digits_value :: "byte list \<Rightarrow> nat" where
  "digits_value ds = foldl (\<lambda>a b. 10 * a + (unat b - 48)) 0 ds"

definition latency :: "timestamp \<Rightarrow> seq_num \<Rightarrow> command \<Rightarrow> fault + (seq_num \<times> int) list" where
  "latency received s c =
    (case stamp c of
       None \<Rightarrow> Inr []
     | Some ts \<Rightarrow>
         let sent = digits_value ts in
         require (sent < 2 ^ 64) Thrown
           (let lat = sint received - sint (of_nat sent :: timestamp) in
            require (- (2 ^ 63) \<le> lat \<and> lat < 2 ^ 63) Overflow (Inr [(s, lat)])))"

fun latencies :: "timestamp \<Rightarrow> seq_num \<Rightarrow> command list \<Rightarrow> fault + (seq_num \<times> int) list" where
  "latencies received s [] = Inr []"
| "latencies received s (c # cs) =
    bind_res (latency received s c) (\<lambda>l. map_res ((@) l) (latencies received s cs))"

section \<open>Operations\<close>

text \<open>The loop of \<^verbatim>\<open>apply_locked\<close>.\<close>

function apply_ready ::
  "timestamp \<Rightarrow> log_tracker \<Rightarrow> (seq_num \<times> int) list \<Rightarrow> fault + (log_tracker \<times> (seq_num \<times> int) list)"
where
  "apply_ready received lt to_print =
    (case out_of_order lt (next_seq lt) of
       None \<Rightarrow> Inr (lt, to_print)
     | Some raw \<Rightarrow>
         bind_res (deserialize_batch raw) (\<lambda>commands.
         bind_res (latencies received (next_seq lt) commands) (\<lambda>ls.
           apply_ready received
             (lt\<lparr>log_entries := log_entries lt @ [raw],
                 out_of_order := (out_of_order lt)(next_seq lt := None),
                 next_seq := next_seq lt + 1\<rparr>)
             (to_print @ ls))))"
  by pat_completeness auto
termination
proof (relation "measure (\<lambda>(received, lt, to_print). card (dom (out_of_order lt)))", goal_cases)
  case 1
  show ?case by simp
next
  case (2 received lt to_print raw x xa)
  then have "next_seq lt \<in> dom (out_of_order lt)"
    by auto
  then have "card (dom (out_of_order lt) - {next_seq lt}) < card (dom (out_of_order lt))"
    by (intro card_Diff1_less) simp_all
  then show ?case by simp
qed

declare apply_ready.simps [simp del]

text \<open>\<^verbatim>\<open>data && data_len > 0 ? vector(data, data + data_len) : vector{}\<close>\<close>

definition apply_locked ::
  "timestamp \<Rightarrow> seq_num \<Rightarrow> command option \<Rightarrow> log_tracker
    \<Rightarrow> fault + (log_tracker \<times> (seq_num \<times> int) list)" where
  "apply_locked received s d lt =
    apply_ready received
      (lt\<lparr>out_of_order := (out_of_order lt)(s \<mapsto> (case d of None \<Rightarrow> [] | Some bs \<Rightarrow> bs))\<rparr>) []"

definition observe ::
  "timestamp \<Rightarrow> node_id \<Rightarrow> seq_num \<Rightarrow> command option \<Rightarrow> nat \<Rightarrow> log_tracker
    \<Rightarrow> fault + (log_tracker \<times> (seq_num \<times> int) list)" where
  "observe received sender s d quorum lt =
    (if s \<in> applied lt then Inr (lt, [])
     else
       let votes = insert sender (case pending_quorum lt s of None \<Rightarrow> {} | Some vs \<Rightarrow> vs);
           lt = lt\<lparr>pending_quorum := (pending_quorum lt)(s \<mapsto> votes)\<rparr>
       in if quorum \<le> card votes
          then map_res (\<lambda>(lt, out).
              (lt\<lparr>applied := insert s (applied lt),
                  pending_quorum := (pending_quorum lt)(s := None)\<rparr>, out))
            (apply_locked received s d lt)
          else Inr (lt, []))"

definition log_size :: "log_tracker \<Rightarrow> nat" where
  "log_size lt = length (log_entries lt)"

text \<open>The conditions that \<^verbatim>\<open>wait_for_size\<close> and \<^verbatim>\<open>wait_for_seq\<close> wait for.\<close>

definition size_reached :: "nat \<Rightarrow> log_tracker \<Rightarrow> bool" where
  "size_reached count lt \<longleftrightarrow> count < length (log_entries lt)"

definition seq_reached :: "seq_num \<Rightarrow> log_tracker \<Rightarrow> bool" where
  "seq_reached s lt \<longleftrightarrow> s < next_seq lt"

text \<open>The two expansions of the log; the loops are over all entries.\<close>

fun expand_entries :: "command list \<Rightarrow> fault + command list list" where
  "expand_entries [] = Inr []"
| "expand_entries (e # es) =
    bind_res (deserialize_batch e) (\<lambda>batch.
      map_res (\<lambda>r. if batch = [] then r else batch # r) (expand_entries es))"

definition expand :: "log_tracker \<Rightarrow> fault + command list list" where
  "expand lt = expand_entries (log_entries lt)"

fun unravel_entries :: "command list \<Rightarrow> fault + command list" where
  "unravel_entries [] = Inr []"
| "unravel_entries (e # es) =
    bind_res (deserialize_batch e) (\<lambda>batch. map_res ((@) batch) (unravel_entries es))"

definition expand_unraveled :: "log_tracker \<Rightarrow> fault + command list" where
  "expand_unraveled lt = unravel_entries (log_entries lt)"

section \<open>Histories\<close>

text \<open>
  An observation as it reaches \<^verbatim>\<open>observe\<close>: the local time, the sending server, the
  sequence number and the data. A history has the newest observation first.
\<close>

type_synonym observation = "timestamp \<times> node_id \<times> seq_num \<times> command option"

fun run_tracker :: "nat \<Rightarrow> observation list \<Rightarrow> fault + log_tracker" where
  "run_tracker q [] = Inr new_tracker"
| "run_tracker q ((t, i, s, d) # h) =
    bind_res (run_tracker q h) (\<lambda>lt. map_res fst (observe t i s d q lt))"

text \<open>The servers that have voted for a sequence number.\<close>

fun voters :: "observation list \<Rightarrow> seq_num \<Rightarrow> node_id set" where
  "voters [] s = {}"
| "voters ((t, i, s', d) # h) s = (if s' = s then insert i (voters h s) else voters h s)"

definition quorate :: "nat \<Rightarrow> observation list \<Rightarrow> seq_num \<Rightarrow> bool" where
  "quorate q h s \<longleftrightarrow> q \<le> card (voters h s)"

text \<open>The data of the message that completed the quorum.\<close>

fun decided :: "nat \<Rightarrow> observation list \<Rightarrow> seq_num \<Rightarrow> command option" where
  "decided q [] s = None"
| "decided q ((t, i, s', d) # h) s =
    (if s' = s \<and> quorate q ((t, i, s', d) # h) s \<and> \<not> quorate q h s
     then Some (case d of None \<Rightarrow> [] | Some bs \<Rightarrow> bs)
     else decided q h s)"

definition numbered :: "observation list \<Rightarrow> bool" where
  "numbered h \<longleftrightarrow> (\<forall>(t, i, s, d) \<in> set h. s \<noteq> 0)"

section \<open>What the tracker maintains\<close>

text \<open>
  \<open>tracks A C lt\<close>: with \<open>A\<close> the sequence numbers whose quorum is complete and \<open>C\<close> their
  data, the log holds the data of 1, 2, ... in order, and the rest of \<open>A\<close> waits out of
  order.
\<close>

definition tracks :: "seq_num set \<Rightarrow> (seq_num \<rightharpoonup> command) \<Rightarrow> log_tracker \<Rightarrow> bool" where
  "tracks A C lt \<longleftrightarrow>
    0 < log_size lt \<and> log_entries lt ! 0 = [] \<and> log_size lt \<le> 2 ^ 64 \<and>
    next_seq lt = of_nat (log_size lt) \<and>
    (\<forall>k. 0 < k \<and> k < log_size lt \<longrightarrow> of_nat k \<in> A \<and> C (of_nat k) = Some (log_entries lt ! k)) \<and>
    out_of_order lt = (\<lambda>s. if s \<in> A \<and> log_size lt \<le> unat s then C s else None)"

definition tracker_inv :: "nat \<Rightarrow> observation list \<Rightarrow> log_tracker \<Rightarrow> bool" where
  "tracker_inv q h lt \<longleftrightarrow>
    tracks {s. quorate q h s} (decided q h) lt \<and> \<not> quorate q h (next_seq lt) \<and>
    applied lt = {s. quorate q h s} \<and>
    pending_quorum lt = (\<lambda>s. if voters h s = {} \<or> quorate q h s then None else Some (voters h s))"

lemma tracks_new: "tracks {} Map.empty new_tracker"
  by (auto simp: tracks_def new_tracker_def log_size_def)

lemma unat_next_seq:
  assumes "tracks A C lt" and "0 \<notin> A" and "next_seq lt \<in> A"
  shows "unat (next_seq lt) = log_size lt"
proof -
  have "next_seq lt \<noteq> 0"
    using assms(2,3) by metis
  moreover have "(of_nat (2 ^ 64) :: u64) = 0"
    by simp
  ultimately have "log_size lt \<noteq> 2 ^ 64"
    using assms(1) unfolding tracks_def by metis
  with assms(1) have "log_size lt < 2 ^ 64"
    by (simp add: tracks_def)
  with assms(1) show ?thesis
    by (simp add: tracks_def unat_of_nat_eq)
qed

lemma tracks_append:
  assumes "tracks A C lt" and "0 \<notin> A" and raw: "out_of_order lt (next_seq lt) = Some raw"
  shows "tracks A C (lt\<lparr>log_entries := log_entries lt @ [raw],
      out_of_order := (out_of_order lt)(next_seq lt := None), next_seq := next_seq lt + 1\<rparr>)"
    (is "tracks A C ?lt")
proof -
  let ?n = "log_size lt"
  have size: "log_size ?lt = Suc ?n"
    by (simp add: log_size_def)
  have ooo: "out_of_order lt = (\<lambda>s. if s \<in> A \<and> ?n \<le> unat s then C s else None)"
    and old: "0 < ?n" "log_entries lt ! 0 = []" "next_seq lt = of_nat ?n"
      "\<And>k. 0 < k \<Longrightarrow> k < ?n \<Longrightarrow> of_nat k \<in> A \<and> C (of_nat k) = Some (log_entries lt ! k)"
    using assms(1) unfolding tracks_def by blast+
  have next_A: "next_seq lt \<in> A" "C (next_seq lt) = Some raw"
    using raw unfolding ooo by (auto split: if_splits)
  have un: "unat (next_seq lt) = ?n"
    using assms(1,2) next_A(1) by (rule unat_next_seq)
  have bound: "?n < 2 ^ 64"
  proof -
    have "unat (next_seq lt) < 2 ^ LENGTH(64)"
      by (rule unsigned_less)
    then show ?thesis by (simp add: un)
  qed
  have other: "unat s = ?n \<longleftrightarrow> s = next_seq lt" for s
    using un by (metis unsigned_word_eqI)
  have entries: "of_nat k \<in> A \<and> C (of_nat k) = Some (log_entries ?lt ! k)"
    if "0 < k" "k < Suc ?n" for k
  proof (cases "k = ?n")
    case True
    then show ?thesis
      using next_A old(3) by (simp add: log_size_def nth_append)
  next
    case False
    with that have "k < ?n" by simp
    with old(4) [OF that(1)] show ?thesis
      by (simp add: log_size_def nth_append)
  qed
  have "out_of_order ?lt s = (if s \<in> A \<and> Suc ?n \<le> unat s then C s else None)" for s
    using other [of s] by (auto simp: ooo Suc_le_eq order_le_less)
  then have "out_of_order ?lt = (\<lambda>s. if s \<in> A \<and> Suc ?n \<le> unat s then C s else None)"
    by (rule ext)
  moreover have "log_entries ?lt ! 0 = []"
    using old(1,2) by (simp add: nth_append log_size_def)
  ultimately show ?thesis
    unfolding tracks_def size using bound old(3) entries by simp
qed

lemma apply_ready_tracks:
  assumes "tracks A C lt" and "0 \<notin> A" and "\<forall>s \<in> A. C s \<noteq> None"
    and "apply_ready received lt out = Inr (lt', out')"
  shows "tracks A C lt' \<and> next_seq lt' \<notin> A \<and> applied lt' = applied lt \<and>
    pending_quorum lt' = pending_quorum lt"
  using assms
proof (induction received lt out rule: apply_ready.induct)
  case (1 received lt out)
  show ?case
  proof (cases "out_of_order lt (next_seq lt)")
    case None
    then have "next_seq lt \<notin> A"
      using "1.prems"(1-3) unat_next_seq by (auto simp: tracks_def split: if_splits)
    with None "1.prems" show ?thesis
      by (simp add: apply_ready.simps [of received lt])
  next
    case (Some raw)
    define lt1 where "lt1 = lt\<lparr>log_entries := log_entries lt @ [raw],
      out_of_order := (out_of_order lt)(next_seq lt := None), next_seq := next_seq lt + 1\<rparr>"
    obtain ls where ls: "latencies received (next_seq lt) (parse_batch raw) = Inr ls"
      and rest: "apply_ready received lt1 (out @ ls) = Inr (lt', out')"
      using "1.prems"(4) Some
      by (auto simp: apply_ready.simps [of received lt] bind_res_eq_Inr lt1_def)
    have "tracks A C lt1"
      unfolding lt1_def using "1.prems"(1,2) Some by (rule tracks_append)
    then have "tracks A C lt' \<and> next_seq lt' \<notin> A \<and> applied lt' = applied lt1 \<and>
        pending_quorum lt' = pending_quorum lt1"
      using "1.prems"(2,3) rest ls unfolding lt1_def by (intro "1.IH" [OF Some]) simp_all
    then show ?thesis
      by (simp add: lt1_def)
  qed
qed

section \<open>Histories and quorums\<close>

lemma voters_set: "voters h s = {i. \<exists>t d. (t, i, s, d) \<in> set h}"
  by (induction h s rule: voters.induct) auto

lemma quorate_mono: "quorate q h s \<Longrightarrow> quorate q (ob # h) s"
  by (cases ob) (auto simp: quorate_def intro: le_trans [OF _ card_mono])

lemma quorate_Cons_other: "s' \<noteq> s \<Longrightarrow> quorate q ((t, i, s', d) # h) s = quorate q h s"
  by (simp add: quorate_def)

lemma quorate_nonzero: "numbered h \<Longrightarrow> 0 < q \<Longrightarrow> \<not> quorate q h 0"
proof -
  assume "numbered h" "0 < q"
  then have "voters h 0 = {}"
    by (auto simp: voters_set numbered_def)
  with \<open>0 < q\<close> show ?thesis by (simp add: quorate_def)
qed

lemma decided_iff: "0 < q \<Longrightarrow> decided q h s \<noteq> None \<longleftrightarrow> quorate q h s"
proof (induction h)
  case Nil
  then show ?case by (simp add: quorate_def)
next
  case (Cons ob h)
  then show ?case
    using quorate_mono [of q h s ob]
    by (cases ob) (auto simp: quorate_Cons_other)
qed

text \<open>The data decided for a number comes from an observation of it.\<close>

lemma decided_observed:
  "decided q h s = Some x \<Longrightarrow> \<exists>t i d. (t, i, s, d) \<in> set h \<and> x = (case d of None \<Rightarrow> [] | Some bs \<Rightarrow> bs)"
  by (induction q h s rule: decided.induct) (auto split: if_splits)

lemma numbered_Cons: "numbered ((t, i, s, d) # h) \<longleftrightarrow> s \<noteq> 0 \<and> numbered h"
  by (simp add: numbered_def)

lemma tracks_insert:
  assumes "tracks A C lt" and "s \<notin> A" and "s \<noteq> 0"
  shows "tracks (insert s A) (C(s \<mapsto> x)) (lt\<lparr>out_of_order := (out_of_order lt)(s \<mapsto> x)\<rparr>)"
proof -
  have "log_size lt \<le> unat s"
  proof (rule ccontr)
    assume "\<not> log_size lt \<le> unat s"
    then have "0 < unat s" "unat s < log_size lt"
      using assms(3) by (auto simp: unat_gt_0)
    then have "of_nat (unat s) \<in> A"
      using assms(1) unfolding tracks_def by blast
    with assms(2) show False by simp
  qed
  with assms show ?thesis
    by (auto simp: tracks_def log_size_def fun_eq_iff)
qed

lemma tracks_update [simp]:
  "tracks A C (lt\<lparr>applied := x\<rparr>) = tracks A C lt"
  "tracks A C (lt\<lparr>pending_quorum := y\<rparr>) = tracks A C lt"
  by (simp_all add: tracks_def log_size_def)

lemma quorate_Cons_same:
  "quorate q ((t, i, s, d) # h) s \<longleftrightarrow> q \<le> card (insert i (voters h s))"
  by (simp add: quorate_def)

text \<open>A vote for a number that already has its quorum changes nothing.\<close>

lemma tracker_inv_late:
  assumes "tracker_inv q h lt" and "quorate q h s"
  shows "tracker_inv q ((t, i, s, d) # h) lt"
proof -
  have "quorate q ((t, i, s, d) # h) s' = quorate q h s'" for s'
    using assms(2) quorate_mono [of q h s "(t, i, s, d)"] by (cases "s = s'") (auto simp: quorate_Cons_other)
  then have q: "quorate q ((t, i, s, d) # h) = quorate q h"
    by (rule ext)
  have "decided q ((t, i, s, d) # h) = decided q h"
    using assms(2) by (auto simp: fun_eq_iff)
  moreover have "(if voters ((t, i, s, d) # h) s' = {} \<or> quorate q h s' then None
      else Some (voters ((t, i, s, d) # h) s')) =
    (if voters h s' = {} \<or> quorate q h s' then None else Some (voters h s'))" for s'
    using assms(2) by (cases "s = s'") simp_all
  ultimately show ?thesis
    using assms(1) unfolding tracker_inv_def q by simp
qed

text \<open>A vote that does not complete the quorum is counted.\<close>

lemma tracker_inv_pending:
  assumes "tracker_inv q h lt" and "\<not> q \<le> card (insert i (voters h s))"
  shows "tracker_inv q ((t, i, s, d) # h)
    (lt\<lparr>pending_quorum := (pending_quorum lt)(s \<mapsto> insert i (voters h s))\<rparr>)"
proof -
  have nq: "\<not> quorate q ((t, i, s, d) # h) s" "\<not> quorate q h s"
    using assms(2) quorate_mono [of q h s "(t, i, s, d)"] by (auto simp: quorate_Cons_same)
  then have q: "quorate q ((t, i, s, d) # h) s' = quorate q h s'" for s'
    by (cases "s = s'") (auto simp: quorate_Cons_other)
  have "decided q ((t, i, s, d) # h) = decided q h"
    using nq by (auto simp: fun_eq_iff)
  then show ?thesis
    using assms(1) nq(2) by (auto simp: tracker_inv_def q tracks_def log_size_def fun_eq_iff)
qed

text \<open>The vote that completes the quorum applies the data.\<close>

lemma tracker_inv_apply:
  assumes inv: "tracker_inv q h lt" and s: "\<not> quorate q h s" "s \<noteq> 0"
    and h: "numbered h" "0 < q" and full: "q \<le> card (insert i (voters h s))"
    and app: "apply_locked t s d (lt\<lparr>pending_quorum := (pending_quorum lt)(s \<mapsto> votes)\<rparr>) = Inr (lt', out)"
  shows "tracker_inv q ((t, i, s, d) # h)
    (lt'\<lparr>applied := insert s (applied lt'), pending_quorum := (pending_quorum lt')(s := None)\<rparr>)"
proof -
  let ?h = "(t, i, s, d) # h" and ?x = "case d of None \<Rightarrow> [] | Some bs \<Rightarrow> bs"
  let ?A = "{s. quorate q h s}"
  define lt1 where "lt1 = lt\<lparr>out_of_order := (out_of_order lt)(s \<mapsto> ?x)\<rparr>"
  define lt2 where "lt2 = lt\<lparr>pending_quorum := (pending_quorum lt)(s \<mapsto> votes),
    out_of_order := (out_of_order lt)(s \<mapsto> ?x)\<rparr>"
  have new: "quorate q ?h s"
    using full by (simp add: quorate_Cons_same)
  have A: "{s. quorate q ?h s} = insert s ?A"
    using new quorate_mono [of q h] by (auto simp: quorate_Cons_other)
  have C: "decided q ?h = (decided q h)(s \<mapsto> ?x)"
    using new s(1) by (auto simp: fun_eq_iff)
  have nz: "0 \<notin> insert s ?A"
    using quorate_nonzero [OF h] s(2) by simp
  have dec: "\<forall>s' \<in> insert s ?A. ((decided q h)(s \<mapsto> ?x)) s' \<noteq> None"
    using decided_iff [OF h(2), of h] by simp
  have "tracks (insert s ?A) ((decided q h)(s \<mapsto> ?x)) lt1"
    unfolding lt1_def using inv s by (intro tracks_insert) (simp_all add: tracker_inv_def)
  then have "tracks (insert s ?A) ((decided q h)(s \<mapsto> ?x)) lt2"
    by (simp add: tracks_def lt2_def lt1_def log_size_def)
  moreover have "apply_ready t lt2 [] = Inr (lt', out)"
    using app by (simp add: apply_locked_def lt2_def)
  ultimately have "tracks (insert s ?A) ((decided q h)(s \<mapsto> ?x)) lt' \<and> next_seq lt' \<notin> insert s ?A \<and>
      applied lt' = applied lt2 \<and> pending_quorum lt' = pending_quorum lt2"
    using nz dec by (intro apply_ready_tracks)
  moreover have "quorate q ?h (next_seq lt') \<longleftrightarrow> next_seq lt' \<in> insert s ?A"
    using A by (metis mem_Collect_eq)
  moreover have "(pending_quorum lt2)(s := None) =
      (\<lambda>s'. if voters ?h s' = {} \<or> quorate q ?h s' then None else Some (voters ?h s'))"
    using inv new by (auto simp: tracker_inv_def lt2_def quorate_def fun_eq_iff)
  moreover have "applied lt2 = ?A"
    using inv by (simp add: tracker_inv_def lt2_def)
  ultimately show ?thesis
    unfolding tracker_inv_def C A by simp
qed

lemma run_tracker_inv:
  assumes "run_tracker q h = Inr lt" and "numbered h" and "0 < q"
  shows "tracker_inv q h lt"
  using assms
proof (induction h arbitrary: lt)
  case Nil
  then show ?case
    using tracks_new by (auto simp: tracker_inv_def quorate_def new_tracker_def)
      (simp_all add: tracks_def fun_eq_iff)
next
  case (Cons ob h)
  obtain t i s d where ob: "ob = (t, i, s, d)"
    by (cases ob) auto
  have s: "s \<noteq> 0" "numbered h"
    using Cons.prems(2) by (simp_all add: ob numbered_Cons)
  obtain lt0 out where lt0: "run_tracker q h = Inr lt0" "observe t i s d q lt0 = Inr (lt, out)"
    using Cons.prems(1) by (auto simp: ob bind_res_eq_Inr map_res_def)
  have inv: "tracker_inv q h lt0"
    using Cons.IH lt0(1) s(2) Cons.prems(3) by blast
  have app: "s \<in> applied lt0 \<longleftrightarrow> quorate q h s"
    using inv by (simp add: tracker_inv_def)
  have votes: "\<not> quorate q h s \<Longrightarrow>
      (case pending_quorum lt0 s of None \<Rightarrow> {} | Some vs \<Rightarrow> vs) = voters h s"
    using inv by (simp add: tracker_inv_def)
  show ?case
  proof (cases "quorate q h s")
    case True
    with lt0(2) app have "lt = lt0"
      by (simp add: observe_def)
    then show ?thesis
      using tracker_inv_late [OF inv True] ob by simp
  next
    case fresh: False
    show ?thesis
    proof (cases "q \<le> card (insert i (voters h s))")
      case False
      with lt0(2) app votes fresh tracker_inv_pending [OF inv False, of t d] ob show ?thesis
        by (simp add: observe_def)
    next
      case True
      with lt0(2) app votes fresh obtain lt1 where
        app: "apply_locked t s d (lt0\<lparr>pending_quorum :=
            (pending_quorum lt0)(s \<mapsto> insert i (voters h s))\<rparr>) = Inr (lt1, out)"
        and "lt = lt1\<lparr>applied := insert s (applied lt1), pending_quorum := (pending_quorum lt1)(s := None)\<rparr>"
        by (auto simp: observe_def map_res_def bind_res_eq_Inr)
      with tracker_inv_apply [OF inv fresh s(1,2) Cons.prems(3) True app] ob show ?thesis
        by simp
    qed
  qed
qed

lemma log_entry:
  assumes "tracker_inv q h lt" and "0 < k" and "k < log_size lt"
  shows "quorate q h (of_nat k)" and "decided q h (of_nat k) = Some (log_entries lt ! k)"
  using assms by (auto simp: tracker_inv_def tracks_def)

lemma log_decided:
  assumes "tracker_inv q h lt"
  shows "log_entries lt = [] # map (\<lambda>k. the (decided q h (of_nat k))) [1..<log_size lt]"
proof (rule nth_equalityI)
  show "length (log_entries lt) = length ([] # map (\<lambda>k. the (decided q h (of_nat k))) [1..<log_size lt])"
    using assms by (simp add: tracker_inv_def tracks_def log_size_def)
next
  fix k assume k: "k < length (log_entries lt)"
  show "log_entries lt ! k = ([] # map (\<lambda>k. the (decided q h (of_nat k))) [1..<log_size lt]) ! k"
  proof (cases k)
    case 0
    then show ?thesis
      using assms by (simp add: tracker_inv_def tracks_def)
  next
    case (Suc j)
    then have "[1..<log_size lt] ! j = k" "j < length [1..<log_size lt]"
      using k by (simp_all add: log_size_def)
    then show ?thesis
      using log_entry(2) [OF assms, of k] k Suc by (simp add: log_size_def del: upt.simps)
  qed
qed

lemma log_end:
  assumes "tracker_inv q h lt"
  shows "\<not> quorate q h (of_nat (log_size lt))" and "0 < log_size lt"
  using assms unfolding tracker_inv_def tracks_def by metis+

text \<open>The first number without a quorum fixes the size of the log.\<close>

lemma log_size_less:
  assumes "tracker_inv q1 h1 lt1" and "tracker_inv q2 h2 lt2"
    and "\<And>s. quorate q2 h2 s \<Longrightarrow> quorate q1 h1 s"
  shows "log_size lt2 \<le> log_size lt1"
proof (rule ccontr)
  assume "\<not> log_size lt2 \<le> log_size lt1"
  then have "quorate q2 h2 (of_nat (log_size lt1))"
    using log_entry(1) [OF assms(2)] log_end(2) [OF assms(1)] by simp
  then show False
    using assms(3) log_end(1) [OF assms(1)] by blast
qed

text \<open>All messages for a number carry the same data, as when one proxy wrote it.\<close>

definition payload :: "command option \<Rightarrow> command" where
  "payload d = (case d of None \<Rightarrow> [] | Some bs \<Rightarrow> bs)"

definition written :: "(seq_num \<Rightarrow> command) \<Rightarrow> observation list \<Rightarrow> bool" where
  "written B h \<longleftrightarrow> (\<forall>(t, i, s, d) \<in> set h. payload d = B s)"

lemma decided_written: "written B h \<Longrightarrow> decided q h s = Some x \<Longrightarrow> x = B s"
  by (auto simp: written_def payload_def dest!: decided_observed)

lemma log_written:
  assumes "tracker_inv q h lt" and "written B h"
  shows "log_entries lt = [] # map (\<lambda>k. B (of_nat k)) [1..<log_size lt]"
proof -
  have "the (decided q h (of_nat k)) = B (of_nat k)" if "k \<in> set [1..<log_size lt]" for k
    using log_entry(2) [OF assms(1), of k] decided_written [OF assms(2)] that by force
  then show ?thesis
    by (subst log_decided [OF assms(1)]) simp
qed

section \<open>Latencies never stop a well-stamped log\<close>

definition stamp_ok :: "command \<Rightarrow> bool" where
  "stamp_ok c \<longleftrightarrow> (case stamp c of None \<Rightarrow> True | Some ts \<Rightarrow> digits_value ts < 2 ^ 63)"

definition well_stamped :: "command \<Rightarrow> bool" where
  "well_stamped d \<longleftrightarrow> (\<forall>c \<in> set (parse_batch d). stamp_ok c)"

lemma sint_small:
  assumes "unat w < 2 ^ 63"
  shows "sint (w :: u64) = uint w" and "uint w < 2 ^ 63" and "0 \<le> uint w"
proof -
  define n where "n = unat w"
  have w: "uint w = int n"
    by (simp add: n_def)
  have "sint w = signed_take_bit 63 (int n)"
    by (simp add: sint_uint w)
  also have "\<dots> = int n"
    using assms unfolding n_def [symmetric] by (intro signed_take_bit_int_eq_self) simp_all
  finally show "sint w = uint w"
    by (simp add: w)
  show "uint w < 2 ^ 63" "0 \<le> uint w"
    using assms unfolding w n_def [symmetric] by simp_all
qed

lemma latency_ok:
  assumes "unat received < 2 ^ 63" and "stamp_ok c"
  shows "\<exists>l. latency received s c = Inr l"
proof (cases "stamp c")
  case None
  then show ?thesis by (simp add: latency_def)
next
  case (Some ts)
  then have d: "digits_value ts < 2 ^ 63"
    using assms(2) by (simp add: stamp_ok_def)
  then have "unat (of_nat (digits_value ts) :: u64) = digits_value ts"
    by (intro unat_of_nat_eq) simp
  then have "unat (of_nat (digits_value ts) :: u64) < 2 ^ 63"
    using d by simp
  note sent = sint_small [OF this] and now = sint_small [OF assms(1)]
  have "- (2 ^ 63) \<le> uint received - uint (of_nat (digits_value ts) :: u64) \<and>
      uint received - uint (of_nat (digits_value ts) :: u64) < 2 ^ 63"
    using sent(2,3) now(2,3) by linarith
  with Some d show ?thesis
    by (simp add: latency_def Let_def sent(1) now(1))
qed

lemma latencies_ok:
  "unat received < 2 ^ 63 \<Longrightarrow> \<forall>c \<in> set cs. stamp_ok c \<Longrightarrow> \<exists>ls. latencies received s cs = Inr ls"
proof (induction cs)
  case Nil
  then show ?case by simp
next
  case (Cons c cs)
  then show ?case
    using latency_ok [of received c s] by (auto simp: map_res_def)
qed

lemma apply_ready_ok:
  "unat received < 2 ^ 63 \<Longrightarrow> \<forall>s d. out_of_order lt s = Some d \<longrightarrow> well_stamped d \<Longrightarrow>
    \<exists>r. apply_ready received lt out = Inr r"
proof (induction received lt out rule: apply_ready.induct)
  case (1 received lt out)
  show ?case
  proof (cases "out_of_order lt (next_seq lt)")
    case None
    then show ?thesis by (simp add: apply_ready.simps [of received lt])
  next
    case (Some raw)
    have "\<forall>c \<in> set (parse_batch raw). stamp_ok c"
      using Some "1.prems"(2) by (auto simp: well_stamped_def)
    then obtain ls where "latencies received (next_seq lt) (parse_batch raw) = Inr ls"
      using latencies_ok "1.prems"(1) by blast
    moreover have "\<exists>r. apply_ready received
        (lt\<lparr>log_entries := log_entries lt @ [raw], out_of_order := (out_of_order lt)(next_seq lt := None),
          next_seq := next_seq lt + 1\<rparr>) (out @ ls) = Inr r"
      using calculation "1.prems" by (intro "1.IH" [OF Some]) simp_all
    ultimately show ?thesis
      using Some by (simp add: apply_ready.simps [of received lt])
  qed
qed

definition sane :: "observation list \<Rightarrow> bool" where
  "sane h \<longleftrightarrow> (\<forall>(t, i, s, d) \<in> set h. unat t < 2 ^ 63 \<and> well_stamped (payload d))"

lemma run_tracker_ok: "numbered h \<Longrightarrow> 0 < q \<Longrightarrow> sane h \<Longrightarrow> \<exists>lt. run_tracker q h = Inr lt"
proof (induction h)
  case Nil
  then show ?case by simp
next
  case (Cons ob h)
  obtain t i s d where ob: "ob = (t, i, s, d)"
    by (cases ob) auto
  have here: "unat t < 2 ^ 63" "well_stamped (payload d)" "sane h" "numbered h"
    using Cons.prems by (auto simp: ob sane_def numbered_def)
  obtain lt where lt: "run_tracker q h = Inr lt"
    using Cons here by blast
  have inv: "tracker_inv q h lt"
    using lt here(4) Cons.prems(2) by (rule run_tracker_inv)
  have "well_stamped x" if "out_of_order lt s' = Some x" for s' x
  proof -
    have "decided q h s' = Some x"
      using inv that by (auto simp: tracker_inv_def tracks_def split: if_splits)
    then obtain t' i' d' where "(t', i', s', d') \<in> set h" "x = payload d'"
      using decided_observed unfolding payload_def by blast
    with here(3) show ?thesis by (auto simp: sane_def)
  qed
  then have "\<exists>r. apply_locked t s d (lt\<lparr>pending_quorum := v\<rparr>) = Inr r" for v
    unfolding apply_locked_def using here(1,2)
    by (intro apply_ready_ok) (auto simp: payload_def)
  then obtain r where "apply_locked t s d (lt\<lparr>pending_quorum := (pending_quorum lt)
      (s \<mapsto> insert i (case pending_quorum lt s of None \<Rightarrow> {} | Some vs \<Rightarrow> vs))\<rparr>) = Inr r"
    by blast
  then have "\<exists>r. observe t i s d q lt = Inr r"
    by (simp add: observe_def Let_def)
  with lt show ?case
    by (auto simp: ob)
qed

section \<open>Expansion\<close>

lemma expand_entries_parse:
  "expand_entries es = Inr (filter (\<lambda>b. b \<noteq> []) (map parse_batch es))"
  by (induction es) auto

lemma unravel_entries_parse: "unravel_entries es = Inr (concat (map parse_batch es))"
  by (induction es) auto

text \<open>A number written with \<open>n\<close> nines.\<close>

lemma digits_value_nines: "Suc (digits_value (replicate n 57)) = 10 ^ n"
proof -
  have "Suc (foldl (\<lambda>a b. 10 * a + (unat b - 48)) a (replicate n (57 :: byte))) = 10 ^ n * Suc a" for a
  proof (induction n arbitrary: a)
    case 0
    then show ?case by simp
  next
    case (Suc n)
    have "foldl (\<lambda>a b. 10 * a + (unat b - 48)) a (replicate (Suc n) (57 :: byte))
        = foldl (\<lambda>a b. 10 * a + (unat b - 48)) (10 * a + 9) (replicate n (57 :: byte))"
      by simp
    moreover have "Suc (10 * a + 9) = 10 * Suc a"
      by simp
    ultimately show ?case
      using Suc.IH [of "10 * a + 9"] by (simp only: power_Suc mult.assoc mult.left_commute)
  qed
  then show ?thesis
    by (simp add: digits_value_def)
qed

section \<open>Properties\<close>

text \<open>
  C5: whatever the order in which the servers' messages arrive, after any history the
  log holds, behind the placeholder, exactly the data decided for the sequence numbers
  1, 2, 3, ..., each confirmed by a quorum of distinct servers, and stops at the first
  number without a quorum.
\<close>

theorem log_is_decided_prefix:
  assumes "run_tracker q h = Inr lt" and "numbered h" and "0 < q"
  shows "log_entries lt = [] # map (\<lambda>k. the (decided q h (of_nat k))) [1..<log_size lt] \<and>
    (\<forall>k \<in> {1..<log_size lt}. q \<le> card (voters h (of_nat k)) \<and> decided q h (of_nat k) \<noteq> None) \<and>
    card (voters h (of_nat (log_size lt))) < q"
proof -
  have inv: "tracker_inv q h lt"
    using assms by (rule run_tracker_inv)
  have "q \<le> card (voters h (of_nat k)) \<and> decided q h (of_nat k) \<noteq> None" if "k \<in> {1..<log_size lt}" for k
    using log_entry [OF inv, of k] that by (auto simp: quorate_def)
  with log_decided [OF inv] log_end(1) [OF inv] show ?thesis
    unfolding quorate_def by (simp add: not_le)
qed

text \<open>
  Four observations from two servers, numbers 2 and 1 out of order, for the instances.
\<close>

definition sample_history :: "observation list" where
  "sample_history =
    [(13, 1, 1, Some (batch_of [[65]])), (12, 0, 1, Some (batch_of [[65]])),
     (11, 1, 2, None), (10, 0, 2, None)]"

lemma sample_parse: "parse_batch (batch_of [[65]]) = [[65 :: byte]]"
  by (rule parse_batch_of) (simp add: small_def)

lemma sample_history_run:
  "\<exists>lt. run_tracker 2 sample_history = Inr lt \<and> log_entries lt = [[], batch_of [[65]], []]"
  by (simp add: sample_history_def new_tracker_def observe_def Let_def apply_locked_def
      apply_ready.simps sample_parse latency_def stamp_def)

lemma sample_history_numbered: "numbered sample_history"
  by (simp add: sample_history_def numbered_def)

definition sample_history' :: "observation list" where
  "sample_history' =
    [(23, 0, 2, None), (22, 1, 2, None), (21, 1, 1, Some (batch_of [[65]])),
     (20, 0, 1, Some (batch_of [[65]]))]"

lemma sample_history'_run:
  "\<exists>lt. run_tracker 2 sample_history' = Inr lt \<and> log_entries lt = [[], batch_of [[65]], []]"
  by (simp add: sample_history'_def new_tracker_def observe_def Let_def apply_locked_def
      apply_ready.simps sample_parse latency_def stamp_def)

lemma sample_history'_numbered: "numbered sample_history'"
  by (simp add: sample_history'_def numbered_def)

definition sample_cmds :: "seq_num \<Rightarrow> command list" where
  "sample_cmds s = (if s = 1 then [[65]] else [])"

lemma sample_written:
  "written (\<lambda>s. batch_of (sample_cmds s)) sample_history"
  "written (\<lambda>s. batch_of (sample_cmds s)) sample_history'"
  by (simp_all add: written_def sample_history_def sample_history'_def payload_def sample_cmds_def)

theorem log_is_decided_prefix_witness:
  "\<exists>lt. run_tracker 2 sample_history = Inr lt \<and> log_size lt = 3 \<and>
    card (voters sample_history (of_nat 3)) < 2"
proof -
  obtain lt where lt: "run_tracker 2 sample_history = Inr lt" "log_entries lt = [[], batch_of [[65]], []]"
    using sample_history_run by blast
  moreover from this have "log_size lt = 3"
    by (simp add: log_size_def)
  ultimately show ?thesis
    using log_is_decided_prefix [OF lt(1) sample_history_numbered] by auto
qed

text \<open>
  C21: two subscribers never disagree. If every sequence number is written once, that is
  all messages for it carry the same data, then the logs of two subscribers, built from
  different messages in different orders, are prefixes of one another.
\<close>

theorem subscribers_agree:
  assumes "run_tracker q h1 = Inr lt1" and "run_tracker q h2 = Inr lt2"
    and "numbered h1" and "numbered h2" and "0 < q"
    and "written B h1" and "written B h2"
  shows "prefix (log_entries lt1) (log_entries lt2) \<or> prefix (log_entries lt2) (log_entries lt1)"
proof -
  note i1 = run_tracker_inv [OF assms(1,3,5)] and i2 = run_tracker_inv [OF assms(2,4,5)]
  have "prefix (map f [1..<m]) (map f [1..<n])" if "m \<le> n" for f :: "nat \<Rightarrow> command" and m n
    using that by (metis map_mono_prefix prefix_def append_Nil2 less_imp_le_nat linorder_cases
        nat_le_linear upt_add_eq_append le_add_diff_inverse upt_conv_Nil)
  then show ?thesis
    unfolding log_written [OF i1 assms(6)] log_written [OF i2 assms(7)]
    using nat_le_linear [of "log_size lt1" "log_size lt2"] by auto
qed

theorem subscribers_agree_witness:
  "\<exists>lt1 lt2. run_tracker 2 sample_history = Inr lt1 \<and> run_tracker 2 sample_history' = Inr lt2 \<and>
    (prefix (log_entries lt1) (log_entries lt2) \<or> prefix (log_entries lt2) (log_entries lt1))"
proof -
  obtain lt1 lt2 where "run_tracker 2 sample_history = Inr lt1" "run_tracker 2 sample_history' = Inr lt2"
    using sample_history_run sample_history'_run by blast
  with subscribers_agree [OF this sample_history_numbered sample_history'_numbered _ sample_written]
  show ?thesis by simp
qed



text \<open>
  The state of the tracker depends on which servers delivered which numbers, not on
  the order or the number of deliveries: duplicates and reorderings of a once-written
  log leave log, buffered messages, votes and applied set the same.
\<close>

theorem delivery_order_irrelevant:
  assumes "run_tracker q h1 = Inr lt1" and "run_tracker q h2 = Inr lt2"
    and "numbered h1" and "numbered h2" and "0 < q" and "written B h1" and "written B h2"
    and same: "\<forall>s. voters h1 s = voters h2 s"
  shows "lt1 = lt2"
proof -
  note i1 = run_tracker_inv [OF assms(1,3,5)] and i2 = run_tracker_inv [OF assms(2,4,5)]
  have v: "voters h1 = voters h2"
    using same by (simp add: fun_eq_iff)
  then have q: "quorate q h1 = quorate q h2"
    by (simp add: quorate_def fun_eq_iff)
  have "decided q h1 s = decided q h2 s" for s
  proof (cases "quorate q h1 s")
    case True
    then obtain x y where "decided q h1 s = Some x" "decided q h2 s = Some y"
      using q decided_iff [OF assms(5)] by (metis not_None_eq)
    then show ?thesis
      using decided_written [OF assms(6)] decided_written [OF assms(7)] by metis
  next
    case False
    then show ?thesis
      using q decided_iff [OF assms(5)] by metis
  qed
  then have d: "decided q h1 = decided q h2"
    by (rule ext)
  have size: "log_size lt1 = log_size lt2"
    using log_size_less [OF i1 i2] log_size_less [OF i2 i1] q by (simp add: le_antisym)
  show ?thesis
  proof (rule log_tracker.equality)
    show "log_entries lt1 = log_entries lt2"
      unfolding log_decided [OF i1] log_decided [OF i2] d size ..
    show "out_of_order lt1 = out_of_order lt2" "next_seq lt1 = next_seq lt2"
      using i1 i2 size unfolding tracker_inv_def tracks_def q d by metis+
    show "applied lt1 = applied lt2" "pending_quorum lt1 = pending_quorum lt2"
      using i1 i2 unfolding tracker_inv_def q v by simp_all
    show "log_tracker.more lt1 = log_tracker.more lt2" by simp
  qed
qed

theorem delivery_order_irrelevant_witness:
  "\<exists>lt. run_tracker 2 sample_history = Inr lt \<and> run_tracker 2 sample_history' = Inr lt"
proof -
  obtain lt1 lt2 where lt: "run_tracker 2 sample_history = Inr lt1" "run_tracker 2 sample_history' = Inr lt2"
    using sample_history_run sample_history'_run by blast
  have "\<forall>s. voters sample_history s = voters sample_history' s"
    by (auto simp: sample_history_def sample_history'_def)
  then have "lt1 = lt2"
    using delivery_order_irrelevant [OF lt sample_history_numbered sample_history'_numbered _ sample_written]
    by simp
  with lt show ?thesis by blast
qed

text \<open>
  The latency computation never stops the subscriber when the commands carry no time
  stamp or one below \<open>2 ^ 63\<close>; but a single command that starts with a decimal number
  of more than 64 bits and a bar makes \<^verbatim>\<open>std::stoull\<close> throw out of \<^verbatim>\<open>observe\<close>.
\<close>

theorem tracker_faults_only_on_stamps:
  assumes "numbered h" and "0 < q" and "sane h"
  shows "(\<exists>lt. run_tracker q h = Inr lt) \<and>
    run_tracker 1 [(0, 0, 1, Some (entry (replicate 20 57 @ [124])))] = Inl Thrown"
proof -
  let ?c = "replicate 20 57 @ [124 :: byte]"
  have "takeWhile (\<lambda>b. b \<noteq> 124) ?c = replicate 20 57"
    by (subst takeWhile_append2) simp_all
  then have "stamp ?c = Some (replicate 20 57)"
    by (simp add: stamp_def is_digit_def list_all_iff)
  moreover have "\<not> digits_value (replicate 20 57) < 2 ^ 64"
    using digits_value_nines [of 20] by simp
  ultimately have "latency 0 1 ?c = Inl Thrown"
    by (simp add: latency_def Let_def)
  moreover have "parse_batch (entry ?c) = [?c]"
    using parse_batch_entry [of ?c "[]"] by (simp add: small_def)
  ultimately have "run_tracker 1 [(0, 0, 1, Some (entry ?c))] = Inl Thrown"
    by (simp add: new_tracker_def observe_def Let_def apply_locked_def apply_ready.simps)
  with run_tracker_ok [OF assms] show ?thesis by blast
qed

theorem tracker_faults_only_on_stamps_witness:
  "\<exists>lt. run_tracker 2 sample_history = Inr lt"
proof -
  have "sane sample_history"
    by (simp add: sane_def sample_history_def payload_def well_stamped_def sample_parse stamp_ok_def
        stamp_def)
  then show ?thesis
    using tracker_faults_only_on_stamps [OF sample_history_numbered, of 2] by simp
qed

text \<open>
  What a reader of the log gets: when the number \<open>k\<close> was written with the batch of
  the commands \<open>cmds k\<close>, \<^verbatim>\<open>expand_unraveled\<close> returns the commands of all committed
  batches in sequence order, and \<^verbatim>\<open>expand\<close> the same grouped by batch without the empty
  ones, which is how SKIPs and the placeholder disappear.
\<close>

theorem expanded_log:
  assumes "run_tracker q h = Inr lt" and "numbered h" and "0 < q"
    and "written (\<lambda>s. batch_of (cmds s)) h" and "\<forall>s. \<forall>c \<in> set (cmds s). small c"
  shows "expand_unraveled lt = Inr (concat (map (\<lambda>k. cmds (of_nat k)) [1..<log_size lt])) \<and>
    expand lt = Inr (filter (\<lambda>b. b \<noteq> []) (map (\<lambda>k. cmds (of_nat k)) [1..<log_size lt]))"
proof -
  have "log_entries lt = [] # map (\<lambda>k. batch_of (cmds (of_nat k))) [1..<log_size lt]"
    using run_tracker_inv [OF assms(1-3)] assms(4) by (rule log_written)
  then have "map parse_batch (log_entries lt) = [] # map (\<lambda>k. cmds (of_nat k)) [1..<log_size lt]"
    using assms(5) by (simp add: o_def)
  then show ?thesis
    by (simp add: expand_unraveled_def expand_def unravel_entries_parse expand_entries_parse)
qed

theorem expanded_log_witness:
  "\<exists>lt. run_tracker 2 sample_history = Inr lt \<and> expand_unraveled lt = Inr [[65]]"
proof -
  obtain lt where lt: "run_tracker 2 sample_history = Inr lt" "log_entries lt = [[], batch_of [[65]], []]"
    using sample_history_run by blast
  have "\<forall>s. \<forall>c \<in> set (sample_cmds s). small c"
    by (simp add: sample_cmds_def small_def)
  then have "expand_unraveled lt = Inr (concat (map (\<lambda>k. sample_cmds (of_nat k)) [1..<log_size lt]))"
    using expanded_log [OF lt(1) sample_history_numbered _ sample_written(1)] by simp
  moreover have "log_size lt = 3"
    using lt(2) by (simp add: log_size_def)
  moreover have "[1..<3] = [1, 2 :: nat]"
    by (simp add: upt_rec)
  ultimately show ?thesis
    using lt(1) by (simp add: sample_cmds_def)
qed

end
