(* ===== verification/Subscriber.thy ===== *)
theory Subscriber
  imports Log_Tracker Connection
begin

text \<open>
  \<^verbatim>\<open>impl/subscriber/subscriber.cpp\<close>: the loop of the subscriber on the connection of a
  server. It peeks the header in place, hands the data of an \<^verbatim>\<open>APPEND\<close> or the absence
  of data of a \<^verbatim>\<open>SKIP\<close> to the log, and acknowledges every message.
\<close>

section \<open>State and handler\<close>

text \<open>The readings of the clock still to come are part of the state.\<close>

record subscriber =
  sub_shard :: shard_id
  sub_id :: node_id
  sub_f :: nat
  sub_log :: log_tracker
  sub_clock :: "timestamp list"

definition new_subscriber :: "shard_id \<Rightarrow> node_id \<Rightarrow> nat \<Rightarrow> timestamp list \<Rightarrow> subscriber" where
  "new_subscriber sh i f clock =
    \<lparr>sub_shard = sh, sub_id = i, sub_f = f, sub_log = new_tracker, sub_clock = clock\<rparr>"

definition clock_now :: "timestamp list \<Rightarrow> timestamp" where
  "clock_now clock = (case clock of [] \<Rightarrow> 0 | t # _ \<Rightarrow> t)"

definition subscriber_ack :: "subscriber \<Rightarrow> seq_num \<Rightarrow> byte list" where
  "subscriber_ack s n = build_wire_bytes (code ACK) (sub_shard s) (sub_id s) n None 0"

definition subscriber_observe ::
  "node_id \<Rightarrow> seq_num \<Rightarrow> command option \<Rightarrow> subscriber \<Rightarrow> fault + subscriber" where
  "subscriber_observe sender n d s =
    map_res (\<lambda>(lt, out). s\<lparr>sub_log := lt, sub_clock := tl (sub_clock s)\<rparr>)
      (observe (clock_now (sub_clock s)) sender n d (sub_f s + 1) (sub_log s))"

definition subscriber_handle ::
  "subscriber \<Rightarrow> byte list \<Rightarrow> nat \<Rightarrow> nat \<Rightarrow> fault + byte list list \<times> subscriber \<times> bool" where
  "subscriber_handle s mem base msg_len =
    bind_res (peek_header_at mem base msg_len) (\<lambda>header.
      case header of
        None \<Rightarrow> Inr ([], s, False)
      | Some h \<Rightarrow>
          bind_res
            (if h_type h \<in> {code APPEND, code SKIP} then
               bind_res (if h_type h = code APPEND then get_data_ptr mem base msg_len else Inr (None, 0))
                 (\<lambda>(ptr, data_len).
               bind_res (case ptr of None \<Rightarrow> Inr None | Some p \<Rightarrow> map_res Some (get_bytes data_len mem p))
                 (\<lambda>d. subscriber_observe (h_sender h) (h_seq h) d s))
             else Inr s)
            (\<lambda>s'. Inr ([subscriber_ack s (h_seq h)], s', True)))"

section \<open>The handler and the bytes of its frame\<close>

fun sound_message :: "log_message \<Rightarrow> bool" where
  "sound_message (t, sh, sd, n, d) \<longleftrightarrow>
    t \<in> {APPEND, SKIP} \<and> n \<noteq> 0 \<and> 28 + length d \<le> safe_body \<and> well_stamped d"

declare sound_message.simps [simp del]

text \<open>The observations made on a connection, the newest first.\<close>

fun observations :: "log_message list \<Rightarrow> timestamp list \<Rightarrow> observation list" where
  "observations [] clock = []"
| "observations ((t, sh, sd, n, d) # fs) clock =
    observations fs (tl clock) @ [(clock_now clock, sd, n, log_data (t, sh, sd, n, d))]"

definition subscriber_inv :: "subscriber \<Rightarrow> observation list \<Rightarrow> bool" where
  "subscriber_inv s h \<longleftrightarrow> run_tracker (sub_f s + 1) h = Inr (sub_log s) \<and> numbered h \<and> sane h \<and>
    (\<forall>t \<in> set (sub_clock s). unat t < 2 ^ 63)"

lemma parse_empty [simp]: "well_stamped []"
  by (simp add: well_stamped_def)

lemma clock_now_ok: "\<forall>t \<in> set clock. unat t < 2 ^ 63 \<Longrightarrow> unat (clock_now clock) < 2 ^ 63"
  by (cases clock) (simp_all add: clock_now_def)

lemma subscriber_observe_ok:
  assumes "subscriber_inv s h" and "n \<noteq> 0" and "well_stamped (payload d)"
  shows "\<exists>s'. subscriber_observe sd n d s = Inr s' \<and>
    subscriber_inv s' ((clock_now (sub_clock s), sd, n, d) # h) \<and> sub_clock s' = tl (sub_clock s) \<and>
    sub_shard s' = sub_shard s \<and> sub_id s' = sub_id s \<and> sub_f s' = sub_f s"
proof -
  let ?h = "(clock_now (sub_clock s), sd, n, d) # h"
  have ok: "numbered ?h" "sane ?h"
    using assms clock_now_ok [of "sub_clock s"]
    by (auto simp: subscriber_inv_def numbered_def sane_def)
  then obtain lt where lt: "run_tracker (sub_f s + 1) ?h = Inr lt"
    using run_tracker_ok [of ?h "sub_f s + 1"] by auto
  then obtain out where "observe (clock_now (sub_clock s)) sd n d (sub_f s + 1) (sub_log s) = Inr (lt, out)"
    using assms(1) by (auto simp: subscriber_inv_def map_res_def bind_res_eq_Inr)
  moreover have "\<forall>t \<in> set (tl (sub_clock s)). unat t < 2 ^ 63"
    using assms(1) by (cases "sub_clock s") (auto simp: subscriber_inv_def)
  ultimately show ?thesis
    using lt ok by (simp add: subscriber_observe_def subscriber_inv_def)
qed

lemma subscriber_handle_forwarded:
  assumes "chunk p (2 + length (log_body (t, sh, sd, n, d))) mem = frame (log_body (t, sh, sd, n, d))"
    and "p + 2 + length (log_body (t, sh, sd, n, d)) \<le> length mem"
    and e: "sound_message (t, sh, sd, n, d)"
  shows "subscriber_handle s mem (p + 2) (length (log_body (t, sh, sd, n, d))) =
    map_res (\<lambda>s'. ([subscriber_ack s n], s', True))
      (subscriber_observe sd n (log_data (t, sh, sd, n, d)) s)"
proof -
  have small: "length d < 2 ^ 32"
    using e by (simp add: sound_message.simps safe_body_def CAPACITY_def MAX_MESSAGE_SIZE_def)
  note r = plain_reads [of p "code t" sh sd n d mem, folded log_body.simps]
  have "peek_header_at mem (p + 2) (28 + length d)
      = Inr (Some \<lparr>h_type = code t, h_shard = sh, h_sender = sd, h_seq = n\<rparr>)"
    "get_data_ptr mem (p + 2) (28 + length d) = Inr (Some (p + 26), length d)"
    "get_bytes (length d) mem (p + 26) = Inr d"
    using r [OF assms(1,2)] small by simp_all
  moreover have "t = APPEND \<or> t = SKIP"
    using e by (simp add: sound_message.simps)
  ultimately show ?thesis
    by (cases "t = APPEND") (auto simp: subscriber_handle_def map_res_def log_data.simps)
qed

text \<open>The connection as a sequence of bodies.\<close>

definition subscriber_step :: "subscriber \<Rightarrow> byte list \<Rightarrow> byte list list \<times> subscriber" where
  "subscriber_step s body =
    (case deserialize body of
       Inr (Some m) \<Rightarrow>
         ([subscriber_ack s (seq_or_count m)],
          case subscriber_observe (sender_id m) (seq_or_count m)
              (if msg_type m = code APPEND then Some (msg_data m) else None) s of
            Inr s' \<Rightarrow> s' | Inl _ \<Rightarrow> s)
     | _ \<Rightarrow> ([], s))"

definition log_ok :: "byte list \<Rightarrow> bool" where
  "log_ok body \<longleftrightarrow> (\<exists>e. body = log_body e \<and> sound_message e)"

definition subscriber_ok :: "subscriber \<Rightarrow> bool" where
  "subscriber_ok s \<longleftrightarrow> (\<exists>h. subscriber_inv s h)"

lemma subscriber_step_forwarded:
  assumes "sound_message (t, sh, sd, n, d)"
  shows "subscriber_step s (log_body (t, sh, sd, n, d)) =
    ([subscriber_ack s n], case subscriber_observe sd n (log_data (t, sh, sd, n, d)) s of
      Inr s' \<Rightarrow> s' | Inl _ \<Rightarrow> s)"
proof -
  have "length d < 2 ^ 32"
    using assms by (simp add: sound_message.simps safe_body_def CAPACITY_def MAX_MESSAGE_SIZE_def)
  then show ?thesis
    by (simp add: subscriber_step_def log_body.simps deserialize_plain build_message_def
        log_data.simps)
qed

lemma sound_payload:
  "sound_message (t, sh, sd, n, d) \<Longrightarrow> n \<noteq> 0 \<and> well_stamped (payload (log_data (t, sh, sd, n, d)))"
  by (auto simp: payload_def sound_message.simps log_data.simps)

lemma log_okE:
  assumes "log_ok body"
  obtains t sh sd n d where "body = log_body (t, sh, sd, n, d)" "sound_message (t, sh, sd, n, d)"
  using assms by (auto simp: log_ok_def)

interpretation sub: frame_handler subscriber_handle subscriber_step log_ok subscriber_ok
proof
  fix s body p and mem :: "byte list"
  assume s: "subscriber_ok s" and b: "log_ok body"
  obtain h where h: "subscriber_inv s h"
    using s by (auto simp: subscriber_ok_def)
  obtain t sh sd n d where e: "body = log_body (t, sh, sd, n, d)" "sound_message (t, sh, sd, n, d)"
    using b by (rule log_okE)
  obtain s' where s': "subscriber_observe sd n (log_data (t, sh, sd, n, d)) s = Inr s'"
    "subscriber_inv s' ((clock_now (sub_clock s), sd, n, log_data (t, sh, sd, n, d)) # h)"
    using subscriber_observe_ok [OF h] sound_payload [OF e(2)] by blast
  have step: "subscriber_step s body = ([subscriber_ack s n], s')"
    by (simp add: e(1) subscriber_step_forwarded [OF e(2)] s'(1))
  then show "subscriber_ok (snd (subscriber_step s body))"
    using s'(2) by (auto simp: subscriber_ok_def)
  assume "p + 2 + length body \<le> length mem" "chunk p (2 + length body) mem = frame body"
  then show "subscriber_handle s mem (p + 2) (length body) =
      Inr (fst (subscriber_step s body), snd (subscriber_step s body), True)"
    using subscriber_handle_forwarded [OF _ _ e(2)] unfolding e(1) [symmetric] step
    by (simp only: s'(1) map_res_Inr fst_conv snd_conv)
qed

lemma run_bodies_subscriber:
  assumes "subscriber_inv s h" and "\<forall>e \<in> set es. sound_message e"
  shows "\<exists>s'. run_bodies subscriber_step s (map log_body es)
      = (map (\<lambda>(t, sh, sd, n, d). subscriber_ack s n) es, s') \<and>
    subscriber_inv s' (observations es (sub_clock s) @ h) \<and> sub_f s' = sub_f s"
  using assms
proof (induction es arbitrary: s h)
  case (Cons e es)
  obtain t sh sd n d where e: "e = (t, sh, sd, n, d)" by (rule prod_cases5)
  have ok: "sound_message (t, sh, sd, n, d)" using Cons.prems(2) e by simp
  obtain s1 where s1: "subscriber_observe sd n (log_data (t, sh, sd, n, d)) s = Inr s1"
    "subscriber_inv s1 ((clock_now (sub_clock s), sd, n, log_data (t, sh, sd, n, d)) # h)"
    "sub_clock s1 = tl (sub_clock s)" "sub_shard s1 = sub_shard s" "sub_id s1 = sub_id s" "sub_f s1 = sub_f s"
    using subscriber_observe_ok [OF Cons.prems(1) sound_payload [OF ok, THEN conjunct1]
        sound_payload [OF ok, THEN conjunct2], of sd] by blast
  have ack: "subscriber_ack s1 = subscriber_ack s"
    by (simp add: fun_eq_iff subscriber_ack_def s1)
  obtain s' where "run_bodies subscriber_step s1 (map log_body es)
      = (map (\<lambda>(t, sh, sd, n, d). subscriber_ack s1 n) es, s')"
    "subscriber_inv s' (observations es (sub_clock s1) @
      (clock_now (sub_clock s), sd, n, log_data (t, sh, sd, n, d)) # h)" "sub_f s' = sub_f s1"
    using Cons.IH [OF s1(2)] Cons.prems(2) by auto
  then show ?case
    using s1(1,3,6) ack by (simp add: e subscriber_step_forwarded [OF ok])
qed simp

lemma subscriber_reads:
  assumes "rb_inv rb" and "proper evs"
    and "stream rb evs = concat (map (\<lambda>e. frame (log_body e)) es) @ rest"
    and "\<forall>e \<in> set es. sound_message e" and "subscriber_inv s h"
  shows "\<exists>s' rb' evs'. connection_loop subscriber_handle (length es) s rb evs =
      Some (Inr (map (\<lambda>(t, sh, sd, n, d). subscriber_ack s n) es, s', rb', evs')) \<and>
    subscriber_inv s' (observations es (sub_clock s) @ h) \<and> sub_f s' = sub_f s \<and> stream rb' evs' = rest"
proof -
  obtain s' where s': "run_bodies subscriber_step s (map log_body es)
      = (map (\<lambda>(t, sh, sd, n, d). subscriber_ack s n) es, s')"
    "subscriber_inv s' (observations es (sub_clock s) @ h)" "sub_f s' = sub_f s"
    using run_bodies_subscriber [OF assms(5,4)] by blast
  have "\<forall>b \<in> set (map log_body es). log_ok b \<and> length b \<le> safe_body"
    using assms(4) by (fastforce simp: log_ok_def sound_message.simps)
  moreover have "stream rb evs = concat (map frame (map log_body es)) @ rest"
    using assms(3) by (simp add: o_def)
  moreover have "subscriber_ok s"
    using assms(5) by (auto simp: subscriber_ok_def)
  ultimately obtain rb' evs' where "connection_loop subscriber_handle (length (map log_body es)) s rb evs =
      Some (Inr (map (\<lambda>(t, sh, sd, n, d). subscriber_ack s n) es, s', rb', evs'))" "stream rb' evs' = rest"
    using sub.loop_runs [OF assms(1,2)] s'(1) by (metis fst_conv snd_conv)
  then show ?thesis using s'(2,3) unfolding length_map by blast
qed

section \<open>Properties\<close>


definition sample_message_in :: log_message where
  "sample_message_in = (APPEND, 0, 2, 1, batch_of [[65]])"


end
