(* ===== verification/System.thy ===== *)
theory System
  imports Proxy Server Subscriber
begin

text \<open>
  The components together: a proxy's batches reach the servers through the replicator, the
  servers forward them, and the subscribers count them. The properties here combine the
  ones of the components into what the log promises its users.
\<close>

section \<open>What a subscriber has received\<close>

text \<open>
  \<open>received h i\<close>: the numbers and data that the history \<open>h\<close> holds from server \<open>i\<close>, in
  the order of arrival. A server forwards its messages in order on one connection, so
  this is what its stream delivered so far; the streams of different servers interleave
  freely.
\<close>

definition received :: "observation list \<Rightarrow> node_id \<Rightarrow> (seq_num \<times> command option) list" where
  "received h i = map (\<lambda>(t, j, s, d). (s, d)) (filter (\<lambda>(t, j, s, d). j = i) (rev h))"

definition content :: "log_message \<Rightarrow> seq_num \<times> command option" where
  "content e = (number e, log_data e)"

text \<open>Batches numbered 1, 2, ... as a proxy numbers them.\<close>

definition consecutive :: "log_message list \<Rightarrow> bool" where
  "consecutive ms \<longleftrightarrow> map number ms = map of_nat [1..<Suc (length ms)]"

definition entry_at :: "log_message list \<Rightarrow> seq_num \<Rightarrow> command" where
  "entry_at ms s = payload (log_data (ms ! (unat s - 1)))"

lemma received_in: "(t, i, s, d) \<in> set h \<Longrightarrow> (s, d) \<in> set (received h i)"
  by (force simp: received_def)

lemma in_received: "(s, d) \<in> set (received h i) \<Longrightarrow> \<exists>t. (t, i, s, d) \<in> set h"
  by (auto simp: received_def)

lemma consecutive_nth:
  assumes "consecutive ms" and "k < length ms"
  shows "number (ms ! k) = of_nat (Suc k)"
proof -
  have "map number ms ! k = map of_nat [1..<Suc (length ms)] ! k"
    using assms(1) by (simp add: consecutive_def)
  with assms(2) show ?thesis
    by (simp del: upt_Suc)
qed

lemma numbers_distinct:
  assumes "length ms < 2 ^ 64" and "k < length ms"
  shows "unat (of_nat (Suc k) :: seq_num) = Suc k" and "of_nat (Suc k) \<noteq> (0 :: seq_num)"
proof -
  show u: "unat (of_nat (Suc k) :: seq_num) = Suc k"
    using assms by (intro unat_of_nat_eq) simp
  then show "of_nat (Suc k) \<noteq> (0 :: seq_num)"
    by (metis unat_0 Zero_not_Suc)
qed

text \<open>The history of a subscriber to one proxy.\<close>

definition one_proxy :: "log_message list \<Rightarrow> (node_id \<Rightarrow> nat) \<Rightarrow> observation list \<Rightarrow> bool" where
  "one_proxy ms delivered h \<longleftrightarrow> consecutive ms \<and> length ms < 2 ^ 64 \<and>
    (\<forall>i. delivered i \<le> length ms \<and> received h i = map content (take (delivered i) ms))"

lemma one_proxy_observation:
  assumes "one_proxy ms delivered h" and "(t, i, s, d) \<in> set h"
  shows "\<exists>k < delivered i. k < length ms \<and> s = of_nat (Suc k) \<and> unat s = Suc k \<and> s \<noteq> 0 \<and>
    d = log_data (ms ! k)"
proof -
  have "(s, d) \<in> content ` set (take (delivered i) ms)"
    using received_in [OF assms(2)] assms(1) by (simp add: one_proxy_def)
  then obtain k where k: "k < delivered i" "k < length ms" "content (ms ! k) = (s, d)"
    by (auto simp: in_set_conv_nth)
  then show ?thesis
    using consecutive_nth [of ms k] numbers_distinct [of ms k] assms(1)
    by (auto simp: one_proxy_def content_def intro!: exI [of _ k])
qed

lemma one_proxy_voters:
  assumes "one_proxy ms delivered h" and "k < length ms"
  shows "voters h (of_nat (Suc k)) = {i. k < delivered i}"
proof -
  have "k < delivered i" if obs: "(t, i, of_nat (Suc k), d) \<in> set h" for t i d
    using one_proxy_observation [OF assms(1) obs] numbers_distinct(1) [OF _ assms(2)] assms(1)
    by (auto simp: one_proxy_def)
  moreover have "\<exists>t d. (t, i, of_nat (Suc k), d) \<in> set h" if "k < delivered i" for i
  proof -
    have "ms ! k \<in> set (take (delivered i) ms)"
      using that assms(2) by (auto simp: in_set_conv_nth intro!: exI [of _ k])
    then have "content (ms ! k) \<in> set (received h i)"
      using assms(1) by (simp add: one_proxy_def)
    moreover have "number (ms ! k) = of_nat (Suc k)"
      using assms by (intro consecutive_nth) (simp_all add: one_proxy_def)
    ultimately have "(of_nat (Suc k), log_data (ms ! k)) \<in> set (received h i)"
      by (simp only: content_def)
    then show ?thesis
      by (blast dest: in_received)
  qed
  ultimately show ?thesis
    by (auto simp: voters_set)
qed

lemma one_proxy_no_voters:
  assumes "one_proxy ms delivered h"
  shows "voters h (of_nat (Suc (length ms))) = {}"
proof (rule ccontr)
  assume "voters h (of_nat (Suc (length ms))) \<noteq> {}"
  then obtain t i d where obs: "(t, i, of_nat (Suc (length ms)), d) \<in> set h"
    by (auto simp: voters_set)
  then obtain k where "k < length ms"
    "unat (of_nat (Suc (length ms)) :: seq_num) = Suc k" "of_nat (Suc (length ms)) \<noteq> (0 :: seq_num)"
    using one_proxy_observation [OF assms obs] by blast
  moreover have "unat (of_nat (Suc (length ms)) :: seq_num) = Suc (length ms) \<or>
      of_nat (Suc (length ms)) = (0 :: seq_num)"
  proof (cases "Suc (length ms) < 2 ^ 64")
    case True
    then have "Suc (length ms) < 2 ^ LENGTH(64)" by simp
    then show ?thesis using unat_of_nat_eq by blast
  next
    case False
    then have "Suc (length ms) = 2 ^ 64"
      using assms by (auto simp: one_proxy_def)
    then have "(of_nat (Suc (length ms)) :: seq_num) = of_nat (2 ^ 64)" by (rule arg_cong)
    then show ?thesis by simp
  qed
  ultimately show False by simp
qed

lemma one_proxy_written:
  assumes "one_proxy ms delivered h"
  shows "written (entry_at ms) h" and "numbered h"
  using one_proxy_observation [OF assms]
  by (fastforce simp: written_def entry_at_def, fastforce simp: numbered_def)

lemma one_proxy_size:
  assumes inv: "tracker_inv q h lt" and one: "one_proxy ms delivered h" and "0 < q"
  shows "log_size lt - 1 \<le> length ms"
    and "k < length ms \<Longrightarrow> k < log_size lt - 1 \<Longrightarrow> q \<le> card {i. k < delivered i}"
    and "card {i. log_size lt - 1 < delivered i} < q"
proof -
  have pos: "0 < log_size lt"
    using log_end [OF inv] by simp
  show le: "log_size lt - 1 \<le> length ms"
  proof (rule ccontr)
    assume "\<not> log_size lt - 1 \<le> length ms"
    then have "quorate q h (of_nat (Suc (length ms)))"
      by (intro log_entry(1) [OF inv]) simp_all
    with one_proxy_no_voters [OF one] assms(3) show False
      by (simp add: quorate_def del: of_nat_Suc)
  qed
  show "q \<le> card {i. k < delivered i}" if "k < length ms" "k < log_size lt - 1" for k
  proof -
    have "quorate q h (of_nat (Suc k))"
      using that by (intro log_entry(1) [OF inv]) simp_all
    with one_proxy_voters [OF one that(1)] show ?thesis
      by (simp add: quorate_def del: of_nat_Suc)
  qed
  show "card {i. log_size lt - 1 < delivered i} < q"
  proof (cases "log_size lt - 1 < length ms")
    case True
    have "of_nat (Suc (log_size lt - 1)) = (of_nat (log_size lt) :: seq_num)"
      using pos by simp
    then have "\<not> quorate q h (of_nat (Suc (log_size lt - 1)))"
      using log_end(1) [OF inv] by simp
    with one_proxy_voters [OF one True] show ?thesis
      by (simp add: quorate_def del: of_nat_Suc)
  next
    case False
    then have none: "{i. log_size lt - 1 < delivered i} = {}"
      using one le by (auto simp: one_proxy_def) (meson le_less_trans not_less)
    show ?thesis unfolding none using assms(3) by simp
  qed
qed

lemma one_proxy_log:
  assumes inv: "tracker_inv q h lt" and one: "one_proxy ms delivered h" and "0 < q"
  shows "log_entries lt = [] # map (\<lambda>e. payload (log_data e)) (take (log_size lt - 1) ms)"
proof -
  let ?n = "log_size lt - 1"
  have le: "?n \<le> length ms"
    using one_proxy_size(1) [OF assms] .
  have "1 + ?n = log_size lt"
    using log_end(2) [OF inv] by simp
  then have range: "[1..<log_size lt] = map Suc [0..<?n]"
    by (simp add: map_Suc_upt)
  have "entry_at ms (of_nat (Suc k)) = payload (log_data (ms ! k))" if "k < ?n" for k
    using numbers_distinct(1) [of ms k] one that le by (simp add: entry_at_def one_proxy_def)
  then have "map (\<lambda>k. entry_at ms (of_nat k)) [1..<log_size lt] = map (\<lambda>k. payload (log_data (ms ! k))) [0..<?n]"
    unfolding range by (simp add: o_def del: of_nat_Suc)
  also have "\<dots> = map (\<lambda>e. payload (log_data e)) (take ?n ms)"
    using le by (simp add: list_eq_iff_nth_eq)
  finally show ?thesis
    using log_written [OF inv one_proxy_written(1) [OF one]] by simp
qed

section \<open>Properties\<close>

text \<open>
  The log of a subscriber to one proxy. With \<open>ms\<close> the proxy's numbered batches, each
  server's stream delivering some initial part of them, and the streams interleaved in
  any way, the subscriber's log is exactly the data of the first \<open>m\<close> batches in order,
  where \<open>m\<close> is the largest count such that a quorum of servers delivered that many: no
  batch missing, repeated, altered or out of order, and none held back.
\<close>

theorem one_proxy_log_exact:
  assumes "run_tracker q h = Inr lt" and "one_proxy ms delivered h" and "0 < q"
  shows "\<exists>m \<le> length ms. log_entries lt = [] # map (\<lambda>e. payload (log_data e)) (take m ms) \<and>
    (\<forall>k < m. q \<le> card {i. k < delivered i}) \<and> card {i. m < delivered i} < q"
proof -
  have inv: "tracker_inv q h lt"
    using assms one_proxy_written(2) by (intro run_tracker_inv)
  show ?thesis
    using one_proxy_size [OF inv assms(2,3)] one_proxy_log [OF inv assms(2,3)]
    by (intro exI [of _ "log_size lt - 1"]) auto
qed

text \<open>Two batches, the second a SKIP; two of three servers have delivered both.\<close>

definition two_batches :: "log_message list" where
  "two_batches = [(APPEND, 0, 0, 1, batch_of [[65]]), (SKIP, 0, 0, 2, [])]"

definition two_servers :: "node_id \<Rightarrow> nat" where
  "two_servers = (\<lambda>_. 0)(0 := 2, 1 := 2)"

definition interleaved :: "observation list" where
  "interleaved =
    rev [(10, 0, 1, Some (batch_of [[65]])), (11, 0, 2, None), (12, 1, 1, Some (batch_of [[65]])),
      (13, 1, 2, None)]"

lemma interleaved_one_proxy: "one_proxy two_batches two_servers interleaved"
proof -
  have "received interleaved i = map content (take (two_servers i) two_batches)" for i
    by (simp add: received_def interleaved_def two_servers_def two_batches_def content_def number_def
        log_data.simps)
  then show ?thesis
    by (simp add: one_proxy_def consecutive_def two_batches_def number_def two_servers_def)
qed

lemma well_stamped_sample: "well_stamped (entry [65])"
proof -
  have "parse_batch (entry [65]) = [[65 :: byte]]"
    using sample_parse by simp
  then show ?thesis
    by (simp add: well_stamped_def) (simp add: stamp_ok_def stamp_def)
qed

lemma interleaved_run: "\<exists>lt. run_tracker 2 interleaved = Inr lt"
proof -
  have "sane interleaved"
    by (simp add: sane_def interleaved_def payload_def well_stamped_sample)
  then show ?thesis
    using run_tracker_ok one_proxy_written(2) [OF interleaved_one_proxy] by simp
qed

theorem one_proxy_log_exact_witness:
  "\<exists>lt m. run_tracker 2 interleaved = Inr lt \<and>
    log_entries lt = [] # map (\<lambda>e. payload (log_data e)) (take m two_batches) \<and> card {i. m < two_servers i} < 2"
proof -
  obtain lt where "run_tracker 2 interleaved = Inr lt"
    using interleaved_run by blast
  with one_proxy_log_exact [OF this interleaved_one_proxy] show ?thesis by auto
qed

text \<open>Enough deliveries push the log past a batch.\<close>

lemma one_proxy_reaches:
  assumes inv: "tracker_inv q h lt" and one: "one_proxy ms delivered h" and "0 < q"
    and "k < length ms" and "q \<le> card {i. k < delivered i}"
  shows "Suc k < log_size lt"
proof (rule ccontr)
  assume "\<not> Suc k < log_size lt"
  then have "log_size lt - 1 \<le> k" by simp
  then have "card {i. k < delivered i} \<le> card {i. log_size lt - 1 < delivered i}"
    by (intro card_mono) auto
  with one_proxy_size(3) [OF inv one assms(3)] assms(5) show False by simp
qed

lemma card_servers:
  assumes "A \<subseteq> {..<n}" and "n \<le> 2 ^ 32"
  shows "card ((of_nat :: nat \<Rightarrow> node_id) ` A) = card A"
proof (rule card_image, rule inj_onI)
  fix i j assume ij: "i \<in> A" "j \<in> A" "(of_nat i :: node_id) = of_nat j"
  have "unat (of_nat k :: node_id) = k" if "k \<in> A" for k
    using that assms by (intro unat_of_nat_eq) auto
  with ij show "i = j" by metis
qed


definition one_batch :: "log_message list" where
  "one_batch = [(APPEND, 0, 0, 1, batch_of [[65]])]"


text \<open>
  Two proxies that number their own batches, their first batches, and two servers that
  got them in different orders. Two subscribers receive everything from both servers,
  each server's stream in its order.
\<close>

definition batch_a :: log_message where
  "batch_a = (APPEND, 0, 0, 1, batch_of [[65]])"

definition batch_b :: log_message where
  "batch_b = (APPEND, 0, 1, 1, batch_of [[66]])"

definition streams :: "node_id \<Rightarrow> log_message list" where
  "streams = (\<lambda>_. [])(0 := [batch_a, batch_b], 1 := [batch_b, batch_a])"

definition observation_of :: "node_id \<Rightarrow> log_message \<Rightarrow> observation" where
  "observation_of i e = (10, i, number e, log_data e)"

definition history_1 :: "observation list" where
  "history_1 = rev [observation_of 0 batch_a, observation_of 1 batch_b, observation_of 0 batch_b,
    observation_of 1 batch_a]"

definition history_2 :: "observation list" where
  "history_2 = rev [observation_of 1 batch_b, observation_of 0 batch_a, observation_of 1 batch_a,
    observation_of 0 batch_b]"

lemmas disagreement_defs = history_1_def history_2_def observation_of_def batch_a_def batch_b_def
  number_def log_data.simps

lemma parse_single: "parse_batch (entry [b]) = [[b]]"
  using parse_batch_entry [of "[b]" "[]"] by (simp add: small_def)


end
