(* ===== verification/Circular_Buffer.thy ===== *)
theory Circular_Buffer
  imports Queues
begin

text \<open>
  \<^verbatim>\<open>include/circular_buffer.h\<close>: a ring in a vector with head, tail and size. Every
  operation takes the lock for its whole body, so an operation is one step.
\<close>

section \<open>State and operations\<close>

record 'a circular_buffer =
  ring :: "'a list"
  ring_head :: nat
  ring_tail :: nat
  ring_size :: nat
  ring_capacity :: nat

definition BUFFER_SIZE :: nat where
  "BUFFER_SIZE = 16"

definition new_ring :: "'a \<Rightarrow> nat \<Rightarrow> 'a circular_buffer" where
  "new_ring d n =
    \<lparr>ring = replicate n d, ring_head = 0, ring_tail = 0, ring_size = 0, ring_capacity = n\<rparr>"

definition ring_put :: "'a \<Rightarrow> 'a circular_buffer \<Rightarrow> 'a circular_buffer" where
  "ring_put x b =
    b\<lparr>ring := (ring b)[ring_tail b := x],
      ring_tail := (ring_tail b + 1) mod ring_capacity b,
      ring_size := ring_size b + 1\<rparr>"

text \<open>The blocking push: \<open>None\<close> while it waits for space.\<close>

definition ring_push :: "'a \<Rightarrow> 'a circular_buffer \<Rightarrow> ('a circular_buffer \<times> bool) option" where
  "ring_push x b = (if ring_size b < ring_capacity b then Some (ring_put x b, True) else None)"

definition ring_try_push :: "'a \<Rightarrow> 'a circular_buffer \<Rightarrow> 'a circular_buffer \<times> bool" where
  "ring_try_push x b =
    (if ring_size b = ring_capacity b then (b, False) else (ring_put x b, True))"

definition ring_drop :: "'a circular_buffer \<Rightarrow> 'a circular_buffer" where
  "ring_drop b =
    b\<lparr>ring_head := (ring_head b + 1) mod ring_capacity b, ring_size := ring_size b - 1\<rparr>"

definition ring_pop :: "'a circular_buffer \<Rightarrow> ('a \<times> 'a circular_buffer) option" where
  "ring_pop b = (if ring_size b = 0 then None else Some (ring b ! ring_head b, ring_drop b))"

definition ring_peek :: "'a circular_buffer \<Rightarrow> 'a option" where
  "ring_peek b = (if ring_size b = 0 then None else Some (ring b ! ring_head b))"

function ring_drain_all :: "'a circular_buffer \<Rightarrow> 'a list \<times> 'a circular_buffer" where
  "ring_drain_all b =
    (if 0 < ring_size b
     then let (xs, b') = ring_drain_all (ring_drop b) in (ring b ! ring_head b # xs, b')
     else ([], b))"
  by pat_completeness auto
termination
  by (relation "measure ring_size") (auto simp: ring_drop_def)

declare ring_drain_all.simps [simp del]

definition ring_empty :: "'a circular_buffer \<Rightarrow> bool" where
  "ring_empty b \<longleftrightarrow> ring_size b = 0"

definition ring_full :: "'a circular_buffer \<Rightarrow> bool" where
  "ring_full b \<longleftrightarrow> ring_size b = ring_capacity b"

section \<open>The ring as a bounded queue\<close>

definition ring_inv :: "'a circular_buffer \<Rightarrow> bool" where
  "ring_inv b \<longleftrightarrow>
    length (ring b) = ring_capacity b \<and> ring_size b \<le> ring_capacity b \<and>
    (0 < ring_capacity b \<longrightarrow> ring_head b < ring_capacity b) \<and>
    ring_tail b = (ring_head b + ring_size b) mod ring_capacity b"

definition ring_items :: "'a circular_buffer \<Rightarrow> 'a list" where
  "ring_items b = map (\<lambda>i. ring b ! ((ring_head b + i) mod ring_capacity b)) [0..<ring_size b]"

lemma length_ring_items [simp]: "length (ring_items b) = ring_size b"
  by (simp add: ring_items_def)

lemma ring_inv_new [simp]: "ring_inv (new_ring d n)"
  by (simp add: ring_inv_def new_ring_def)

lemma ring_items_new [simp]: "ring_items (new_ring d n) = []"
  by (simp add: ring_items_def new_ring_def)

text \<open>Positions in use do not collide with the tail.\<close>

lemma tail_free:
  assumes "ring_inv b" and "ring_size b < ring_capacity b" and "i < ring_size b"
  shows "(ring_head b + i) mod ring_capacity b \<noteq> ring_tail b"
proof
  assume "(ring_head b + i) mod ring_capacity b = ring_tail b"
  then have "(ring_head b + i) mod ring_capacity b = (ring_head b + ring_size b) mod ring_capacity b"
    using assms(1) by (simp add: ring_inv_def)
  then have "i mod ring_capacity b = ring_size b mod ring_capacity b"
    by (simp add: nat_mod_eq_iff)
  with assms show False by simp
qed

lemma ring_put_items:
  assumes inv: "ring_inv b" and room: "ring_size b < ring_capacity b"
  shows "ring_inv (ring_put x b)" and "ring_items (ring_put x b) = ring_items b @ [x]"
proof -
  let ?c = "ring_capacity b"
  have c: "0 < ?c" and tail: "ring_tail b < length (ring b)"
    using assms by (auto simp: ring_inv_def)
  show "ring_inv (ring_put x b)"
    using assms c by (simp add: ring_inv_def ring_put_def mod_Suc_eq)
  have "(ring b)[ring_tail b := x] ! ((ring_head b + i) mod ?c) = ring b ! ((ring_head b + i) mod ?c)"
    if "i < ring_size b" for i
    using tail_free [OF assms that] by (simp add: nth_list_update)
  moreover have "(ring b)[ring_tail b := x] ! ((ring_head b + ring_size b) mod ?c) = x"
    using inv tail by (simp add: ring_inv_def)
  ultimately show "ring_items (ring_put x b) = ring_items b @ [x]"
    by (simp add: ring_items_def ring_put_def)
qed

lemma ring_drop_items:
  assumes inv: "ring_inv b" and some: "0 < ring_size b"
  shows "ring_inv (ring_drop b)" and "ring_items b = ring b ! ring_head b # ring_items (ring_drop b)"
proof -
  let ?c = "ring_capacity b"
  have c: "0 < ?c" "ring_head b < ?c"
    using assms by (auto simp: ring_inv_def)
  have "(Suc (ring_head b) mod ?c + i) mod ?c = (ring_head b + Suc i) mod ?c" for i
    by (simp add: mod_add_left_eq)
  moreover obtain n where n: "ring_size b = Suc n"
    using some by (cases "ring_size b") auto
  moreover have "[0..<Suc n] = 0 # map Suc [0..<n]"
    by (simp add: map_Suc_upt upt_conv_Cons del: upt_Suc)
  ultimately show "ring_items b = ring b ! ring_head b # ring_items (ring_drop b)"
    using c by (simp add: ring_items_def ring_drop_def del: upt_Suc)
  show "ring_inv (ring_drop b)"
    using inv c n by (simp add: ring_inv_def ring_drop_def mod_add_left_eq)
qed

interpretation ring: bounded_fifo ring_try_push ring_pop ring_items ring_inv ring_capacity
proof
  fix b :: "'a circular_buffer" and x
  assume inv: "ring_inv b"
  have room: "ring_size b \<noteq> ring_capacity b \<Longrightarrow> ring_size b < ring_capacity b"
    using inv by (simp add: ring_inv_def)
  show "ring_inv (fst (ring_try_push x b))"
    using inv ring_put_items(1) [OF inv room] by (simp add: ring_try_push_def)
  show "ring_items (fst (ring_try_push x b)) =
      (if snd (ring_try_push x b) then ring_items b @ [x] else ring_items b)"
    using ring_put_items(2) [OF inv room] by (simp add: ring_try_push_def)
  show "ring_pop b = None \<longleftrightarrow> ring_items b = []"
    by (auto simp: ring_pop_def ring_items_def)
  show "snd (ring_try_push x b) \<longleftrightarrow> length (ring_items b) < ring_capacity b"
    using room by (auto simp: ring_try_push_def)
  show "length (ring_items b) \<le> ring_capacity b"
    using inv by (simp add: ring_inv_def)
  fix b'
  assume pop: "ring_pop b = Some (x, b')"
  then have some: "0 < ring_size b" and b': "b' = ring_drop b" "x = ring b ! ring_head b"
    by (auto simp: ring_pop_def split: if_splits)
  show "ring_inv b'" "ring_items b = x # ring_items b'"
    using ring_drop_items [OF inv some] b' by simp_all
next
  fix b b' :: "'a circular_buffer" and x
  show "ring_capacity (fst (ring_try_push x b)) = ring_capacity b"
    by (simp add: ring_try_push_def ring_put_def)
  show "ring_pop b = Some (x, b') \<Longrightarrow> ring_capacity b' = ring_capacity b"
    by (auto simp: ring_pop_def ring_drop_def split: if_splits)
qed

lemma ring_drain_all_items:
  "ring_inv b \<Longrightarrow> fst (ring_drain_all b) = ring_items b \<and> ring_inv (snd (ring_drain_all b)) \<and>
    ring_items (snd (ring_drain_all b)) = []"
proof (induction b rule: ring_drain_all.induct)
  case (1 b)
  show ?case
  proof (cases "0 < ring_size b")
    case True
    with 1 ring_drop_items [OF \<open>ring_inv b\<close> True] show ?thesis
      by (simp add: ring_drain_all.simps [of b] case_prod_beta)
  next
    case False
    with "1.prems" show ?thesis
      by (simp add: ring_drain_all.simps [of b] ring_items_def)
  qed
qed

section \<open>Properties\<close>

text \<open>
  The ring is a first-in first-out queue of its capacity: over any run of
  \<^verbatim>\<open>try_push\<close> and \<^verbatim>\<open>pop\<close> from an empty buffer, the items taken out followed by
  what \<^verbatim>\<open>drain_all\<close> returns at the end are the accepted items in their order, however
  often the indices have wrapped around.
\<close>

theorem ring_is_fifo:
  assumes "run_queue ring_try_push ring_pop (new_ring d n) ops = (b, as)"
  shows "items_out as @ fst (ring_drain_all b) = items_in ops as \<and> ring_size b \<le> n"
proof -
  have "ring_capacity b = n"
    using ring.run_cap [OF assms] by (simp add: new_ring_def)
  then show ?thesis
    using ring.run_fifo [OF ring_inv_new assms] ring_drain_all_items [of b] ring.items_cap [of b]
    by simp
qed

theorem ring_is_fifo_witness:
  "run_queue ring_try_push ring_pop (new_ring (0::nat) 2) [Enq 1, Enq 2, Enq 3, Deq, Enq 4, Deq]
     = (\<lparr>ring = [4, 2], ring_head = 0, ring_tail = 1, ring_size = 1, ring_capacity = 2\<rparr>,
        [Accepted True, Accepted True, Accepted False, Taken (Some 1), Accepted True, Taken (Some 2)]) \<and>
   [1, 2] @ fst (ring_drain_all \<lparr>ring = [4, 2], ring_head = 0, ring_tail = 1, ring_size = 1, ring_capacity = 2\<rparr>)
     = [1, 2, 4 :: nat]"
proof -
  have run: "run_queue ring_try_push ring_pop (new_ring (0::nat) 2) [Enq 1, Enq 2, Enq 3, Deq, Enq 4, Deq]
     = (\<lparr>ring = [4, 2], ring_head = 0, ring_tail = 1, ring_size = 1, ring_capacity = 2\<rparr>,
        [Accepted True, Accepted True, Accepted False, Taken (Some 1), Accepted True, Taken (Some 2)])"
    by (simp add: new_ring_def ring_try_push_def ring_put_def ring_pop_def ring_drop_def numeral_2_eq_2)
  with ring_is_fifo [OF run] show ?thesis by simp
qed

end
