(* ===== verification/Freeze_Handler.thy ===== *)
theory Freeze_Handler
  imports Server Subscriber
begin

text \<open>
  \<^verbatim>\<open>impl/server/freeze_handler.h\<close>: a server's part in a freeze. It collects from the
  other servers the messages it may have missed and answers the Zipper with the last
  number it knows of the proxy. The calls in \<^verbatim>\<open>server.cpp\<close> are commented out at present.

  What the other servers answer is an input: for each of them \<open>None\<close> when it cannot be reached, or the
  messages that arrive before an \<^verbatim>\<open>ACK\<close> or the end of the connection.
\<close>

section \<open>Operations\<close>

type_synonym rounds = "node_id \<rightharpoonup> int"

definition transfer_message ::
  "node_id \<Rightarrow> int \<Rightarrow> shard_id \<times> node_id \<times> seq_num \<Rightarrow> server \<Rightarrow> fault + message" where
  "transfer_message failed rnd junk sv =
    (let m = (blank_message (code TRANSFER_REQUEST) junk)\<lparr>shard_id := sv_shard sv, sender_id := sv_id sv\<rparr>
     in bind_res (set_failed_proxy failed m) (\<lambda>m.
        bind_res (set_round (of_int rnd) m)
          (set_sequence_number (last_seq failed (sv_liveness sv)))))"

definition freeze_response ::
  "node_id \<Rightarrow> int \<Rightarrow> shard_id \<times> node_id \<times> seq_num \<Rightarrow> server \<Rightarrow> fault + message" where
  "freeze_response failed rnd junk sv =
    (let m = (blank_message (code FREEZE_RESPONSE) junk)\<lparr>shard_id := sv_shard sv, sender_id := sv_id sv\<rparr>
     in bind_res (set_failed_proxy failed m) (\<lambda>m.
        bind_res (set_round (of_int rnd) m)
          (set_sequence_number (last_seq failed (sv_liveness sv)))))"

text \<open>What is done with a message of another server: encoded again, stored, broadcast.\<close>

definition absorb :: "node_id \<Rightarrow> message \<Rightarrow> server \<Rightarrow> server" where
  "absorb failed resp sv =
    (let wire = serialize resp
     in sv\<lparr>sv_store := store failed wire (sv_store sv), sv_workers := broadcast wire (sv_workers sv)\<rparr>)"

fun absorb_until_ack :: "node_id \<Rightarrow> message list \<Rightarrow> server \<Rightarrow> server" where
  "absorb_until_ack failed [] sv = sv"
| "absorb_until_ack failed (resp # resps) sv =
    (if msg_type resp = code ACK then sv else absorb_until_ack failed resps (absorb failed resp sv))"

text \<open>The loop over the other servers.\<close>

fun collect_missing :: "node_id \<Rightarrow> message list option list \<Rightarrow> server \<Rightarrow> server" where
  "collect_missing failed [] sv = sv"
| "collect_missing failed (None # peers) sv = collect_missing failed peers sv"
| "collect_missing failed (Some resps # peers) sv =
    collect_missing failed peers (absorb_until_ack failed resps sv)"

text \<open>The result: the request to the other servers and the answer to the Zipper, if any.\<close>

definition handle_freeze ::
  "message \<Rightarrow> bool \<Rightarrow> message list option list \<Rightarrow> shard_id \<times> node_id \<times> seq_num \<Rightarrow> rounds \<times> server
    \<Rightarrow> fault + (message \<times> message) option \<times> rounds \<times> server" where
  "handle_freeze msg from_zipper peers junk s =
    (let (rounds, sv) = s in
     bind_res (get_failed_proxy msg) (\<lambda>failed.
     bind_res (get_round msg) (\<lambda>rnd.
       if from_zipper \<and> (case rounds failed of None \<Rightarrow> False | Some r \<Rightarrow> rnd \<le> r) then Inr (None, rounds, sv)
       else
         let rounds = rounds(failed \<mapsto> rnd);
             sv = sv\<lparr>sv_liveness := set_reconfiguring failed (sv_liveness sv)\<rparr>
         in bind_res (transfer_message failed rnd junk sv) (\<lambda>transfer.
            let sv = collect_missing failed peers sv
            in map_res (\<lambda>resp. (Some (transfer, resp), rounds, sv)) (freeze_response failed rnd junk sv)))))"

text \<open>
  \<^verbatim>\<open>handle_transfer_request\<close>: the bytes written to the peer, and the freeze it starts itself when
  the rnd is new to it.
\<close>

definition peer_ack ::
  "shard_id \<times> node_id \<times> seq_num \<Rightarrow> seq_num option \<Rightarrow> server \<Rightarrow> fault + message" where
  "peer_ack junk n sv =
    (let m = (blank_message (code ACK) junk)\<lparr>shard_id := sv_shard sv, sender_id := sv_id sv\<rparr>
     in case n of None \<Rightarrow> Inr m | Some n \<Rightarrow> set_sequence_number n m)"

definition handle_transfer_request ::
  "message \<Rightarrow> message list option list \<Rightarrow> shard_id \<times> node_id \<times> seq_num \<Rightarrow> rounds \<times> server
    \<Rightarrow> fault + byte list list \<times> (message \<times> message) option \<times> rounds \<times> server" where
  "handle_transfer_request msg peers junk s =
    (let (rounds, sv) = s in
     if shard_id msg \<noteq> sv_shard sv then Inr ([], None, rounds, sv)
     else
       bind_res (get_failed_proxy msg) (\<lambda>failed.
       bind_res (get_round msg) (\<lambda>rnd.
         if (case rounds failed of None \<Rightarrow> False | Some r \<Rightarrow> rnd < r) then
           map_res (\<lambda>ack. ([frame (serialize ack)], None, rounds, sv)) (peer_ack junk None sv)
         else
           let new_round = (case rounds failed of None \<Rightarrow> True | Some r \<Rightarrow> r < rnd);
               rounds = (if new_round then rounds(failed \<mapsto> rnd) else rounds);
               reply =
                 (if \<not> has failed (sv_store sv) then
                    bind_res (get_sequence_number msg) (\<lambda>n.
                      map_res (\<lambda>ack. [frame (serialize ack)]) (peer_ack junk (Some n) sv))
                  else bind_res (get_sequence_number msg) (\<lambda>_.
                    map_res (\<lambda>ack. stored failed (sv_store sv) @ [frame (serialize ack)]) (peer_ack junk None sv)))
           in bind_res reply (\<lambda>out.
                if new_round
                then map_res (\<lambda>(ms, s). (out, ms, s)) (handle_freeze msg False peers junk (rounds, sv))
                else Inr (out, None, rounds, sv)))))"

section \<open>What the transfer changes\<close>

lemma absorb_until_ack_liveness [simp]: "sv_liveness (absorb_until_ack failed resps sv) = sv_liveness sv"
  by (induction failed resps sv rule: absorb_until_ack.induct) (simp_all add: absorb_def Let_def)

lemma absorb_until_ack_fixed [simp]:
  "sv_shard (absorb_until_ack failed resps sv) = sv_shard sv" "sv_id (absorb_until_ack failed resps sv) = sv_id sv"
  by (induction failed resps sv rule: absorb_until_ack.induct) (simp_all add: absorb_def Let_def)

lemma collect_missing_fixed [simp]:
  "sv_liveness (collect_missing failed peers sv) = sv_liveness sv"
  "sv_shard (collect_missing failed peers sv) = sv_shard sv" "sv_id (collect_missing failed peers sv) = sv_id sv"
  by (induction failed peers sv rule: collect_missing.induct) simp_all

lemmas fh_message_defs = blank_message_def build_message_def set_failed_proxy_def set_round_def
  set_sequence_number_def get_failed_proxy_def get_sequence_number_def get_round_def resize2_def

definition freeze_from :: "node_id \<Rightarrow> int \<Rightarrow> message" where
  "freeze_from failed rnd = build_message (code FREEZE) 0 0 (of_int rnd) [] [ucast failed]"

lemma ucast_node [simp]: "ucast (ucast (i :: node_id) :: u64) = i"
  by (rule u32_u64_u32)

text \<open>A run of freezes of the Zipper for one proxy, with whatever the other servers send.\<close>

fun freezes ::
  "(message \<times> message list option list \<times> shard_id \<times> node_id \<times> seq_num) list \<Rightarrow> rounds \<times> server
    \<Rightarrow> fault + message list \<times> rounds \<times> server" where
  "freezes [] s = Inr ([], s)"
| "freezes ((msg, peers, junk) # es) s =
    bind_res (handle_freeze msg True peers junk s) (\<lambda>(ms, s).
      map_res (\<lambda>(rs, s). ((case ms of None \<Rightarrow> [] | Some (transfer, resp) \<Rightarrow> [resp]) @ rs, s)) (freezes es s))"

lemma handle_freeze_result:
  assumes "get_failed_proxy msg = Inr failed" and "get_round msg = Inr rnd"
    and "- (2 ^ 31) \<le> rnd" and "rnd < 2 ^ 31"
  shows "\<exists>ms rounds' sv'. handle_freeze msg True peers junk (rounds, sv) = Inr (ms, rounds', sv') \<and>
    sv_id sv' = sv_id sv \<and> last_seq failed (sv_liveness sv') = last_seq failed (sv_liveness sv) \<and>
    (case ms of
       None \<Rightarrow> (\<exists>r. rounds failed = Some r \<and> rnd \<le> r) \<and> rounds' = rounds
     | Some (transfer, resp) \<Rightarrow> (\<forall>r. rounds failed = Some r \<longrightarrow> r < rnd) \<and> rounds' failed = Some rnd \<and>
         msg_type resp = code FREEZE_RESPONSE \<and> sender_id resp = sv_id sv \<and> get_failed_proxy resp = Inr failed \<and>
         get_round resp = Inr rnd \<and>
         get_sequence_number resp = Inr (last_seq failed (sv_liveness sv)))"
proof -
  have "to_int (of_int rnd) = rnd"
  proof -
    have "(ucast (of_int rnd :: u64) :: 32 word) = of_int rnd"
      by (rule bit_word_eqI) (simp add: bit_ucast_iff bit_of_int_iff)
    then show ?thesis
      using assms(3,4) by (simp add: to_int_def signed_of_int signed_take_bit_int_eq_self)
  qed
  then show ?thesis
    using assms(1,2)
    by (cases "rounds failed")
      (auto simp: handle_freeze_def transfer_message_def freeze_response_def fh_message_defs map_res_def Let_def
        set_reconfiguring_def last_seq_def split: option.splits)
qed

lemma get_round_range: "get_round m = Inr rnd \<Longrightarrow> - (2 ^ 31) \<le> rnd \<and> rnd < 2 ^ 31"
  using sint_range_size [of "ucast (seq_or_count m) :: 32 word"]
  by (auto simp: get_round_def require_eq_Inr to_int_def word_size)

text \<open>
  The transfer between the servers is in vain. Over any run of freezes for a proxy, and
  whatever the other servers send, the server answers each new round once, with increasing
  rounds, and always with the number it had before the first one: the messages it collects are
  stored and broadcast but not counted. Servers that start with different numbers
  therefore answer differently in every round.
\<close>

theorem transfer_never_changes_answer:
  assumes "\<forall>(msg, peers, junk) \<in> set es. get_failed_proxy msg = Inr failed \<and> (\<exists>rnd. get_round msg = Inr rnd)"
  shows "\<exists>rs rounds' sv' ns. freezes es (rounds, sv) = Inr (rs, rounds', sv') \<and>
    map get_round rs = map Inr ns \<and> sorted_wrt (<) ns \<and> (\<forall>n \<in> set ns. \<forall>r. rounds failed = Some r \<longrightarrow> r < n) \<and>
    (\<forall>m \<in> set rs. msg_type m = code FREEZE_RESPONSE \<and> sender_id m = sv_id sv \<and>
      get_failed_proxy m = Inr failed \<and> get_sequence_number m = Inr (last_seq failed (sv_liveness sv)))"
  using assms
proof (induction es arbitrary: rounds sv)
  case (Cons e es)
  obtain msg peers junk rnd where e: "e = (msg, peers, junk)" "get_failed_proxy msg = Inr failed" "get_round msg = Inr rnd"
    using Cons.prems by (cases e) auto
  obtain ms rounds1 sv1 where 1: "handle_freeze msg True peers junk (rounds, sv) = Inr (ms, rounds1, sv1)"
    "sv_id sv1 = sv_id sv" "last_seq failed (sv_liveness sv1) = last_seq failed (sv_liveness sv)"
    "case ms of
       None \<Rightarrow> (\<exists>r. rounds failed = Some r \<and> rnd \<le> r) \<and> rounds1 = rounds
     | Some (transfer, resp) \<Rightarrow> (\<forall>r. rounds failed = Some r \<longrightarrow> r < rnd) \<and> rounds1 failed = Some rnd \<and>
         msg_type resp = code FREEZE_RESPONSE \<and> sender_id resp = sv_id sv \<and> get_failed_proxy resp = Inr failed \<and>
         get_round resp = Inr rnd \<and> get_sequence_number resp = Inr (last_seq failed (sv_liveness sv))"
    using handle_freeze_result [OF e(2,3), where junk = junk and rounds = rounds and sv = sv and peers = peers]
      get_round_range [OF e(3)] by auto
  obtain rs rounds' sv' ns where 2: "freezes es (rounds1, sv1) = Inr (rs, rounds', sv')"
    "map get_round rs = map Inr ns" "sorted_wrt (<) ns" "\<forall>n \<in> set ns. \<forall>r. rounds1 failed = Some r \<longrightarrow> r < n"
    "\<forall>m \<in> set rs. msg_type m = code FREEZE_RESPONSE \<and> sender_id m = sv_id sv \<and>
      get_failed_proxy m = Inr failed \<and> get_sequence_number m = Inr (last_seq failed (sv_liveness sv))"
    using Cons.IH [of rounds1 sv1] Cons.prems 1(2,3) by auto
  show ?case
  proof (cases ms)
    case None
    with 1 2 show ?thesis by (intro exI [of _ rs] exI [of _ rounds'] exI [of _ sv'] exI [of _ ns]) (simp add: e(1) map_res_def)
  next
    case (Some p)
    obtain transfer resp where p: "p = (transfer, resp)" by (cases p)
    have "\<forall>n \<in> set ns. \<forall>r. rounds failed = Some r \<longrightarrow> r < n"
      using 1(4) 2(4) Some p by fastforce
    with 1 2 Some p show ?thesis
      by (intro exI [of _ "resp # rs"] exI [of _ rounds'] exI [of _ sv'] exI [of _ "rnd # ns"]) (simp add: e(1) map_res_def)
  qed
qed simp

theorem transfer_never_changes_answer_witness:
  "\<exists>rs rounds' sv' ns.
    freezes [(freeze_from 0 1, [None, Some [build_message (code APPEND) 0 0 9 [] []]], (0, 0, 0)),
             (freeze_from 0 1, [], (0, 0, 0)), (freeze_from 0 2, [], (0, 0, 0))] (Map.empty, sample_server) =
      Inr (rs, rounds', sv') \<and> map get_round rs = map Inr ns \<and> sorted_wrt (<) ns \<and>
    (\<forall>m \<in> set rs. get_sequence_number m = Inr 0)"
proof -
  let ?es = "[(freeze_from 0 1, [None, Some [build_message (code APPEND) 0 0 9 [] []]], (0, 0, 0)),
    (freeze_from 0 1, [], (0, 0, 0)), (freeze_from 0 2, [], (0, 0, 0))]"
  have "\<forall>(msg, peers, junk) \<in> set ?es. get_failed_proxy msg = Inr 0 \<and> (\<exists>rnd. get_round msg = Inr rnd)"
    by (simp add: freeze_from_def fh_message_defs)
  from transfer_never_changes_answer [OF this, of Map.empty sample_server]
  have "\<exists>rs rounds' sv' ns. freezes ?es (Map.empty, sample_server) = Inr (rs, rounds', sv') \<and>
    map get_round rs = map Inr ns \<and> sorted_wrt (<) ns \<and>
    (\<forall>m \<in> set rs. get_sequence_number m = Inr (last_seq 0 (sv_liveness sample_server)))"
    by (elim exE conjE) (intro exI conjI; (assumption | blast))
  moreover have "last_seq 0 (sv_liveness sample_server) = 0"
    by (simp add: sample_server_def new_liveness_def last_seq_def)
  ultimately show ?thesis by simp
qed

section \<open>What a subscriber makes of an absorbed message\<close>

lemma drop_bit_small: "unat (w :: u32) < 2 ^ 16 \<Longrightarrow> drop_bit 16 w = 0"
proof (rule word_unat_eq_iff [THEN iffD2])
  assume a: "unat w < 2 ^ 16"
  have "unat (drop_bit 16 w) = drop_bit 16 (unat w)" by (rule unat_drop_bit_eq)
  also have "... = unat w div 2 ^ 16" by (rule drop_bit_eq_div)
  also have "... = 0" using a by (rule div_less)
  finally show "unat (drop_bit 16 w) = unat (0 :: u32)" by (simp only: unat_0)
qed

lemma serialize_starts_empty:
  assumes "fits m" and "unat (msg_type m) < 2 ^ 16"
  shows "\<exists>rest. serialize m = frame [] @ rest"
proof -
  have "drop_bit 16 (msg_type m) = 0"
    using assms(2) by (rule drop_bit_small)
  then have "be_bytes 4 (msg_type m) = be_bytes 2 (0 :: u32) @ be_bytes 2 (msg_type m)"
    using be_bytes_append [of 2 2 "msg_type m"] by simp
  moreover have "be_bytes 2 (0 :: u32) = be_bytes 2 (0 :: u16)"
    by (simp add: numeral_2_eq_2)
  ultimately show ?thesis
    unfolding serialize_layout [OF assms(1)] layout_def frame_def by simp
qed

text \<open>
  A collected message breaks the connection to the subscribers. The image that is stored and
  queued for every subscriber is the encoding of the message without the length in front that every
  other image has. A subscriber that gets these bytes reads the two leading zeros of
  the type as an empty frame, in which it finds no header, and ends the connection without an
  acknowledgement; what follows on the stream is lost.
\<close>

theorem absorbed_image_ends_subscriber:
  assumes "fits m" and "unat (msg_type m) < 2 ^ 16" and "sv_workers sv i = Some w"
    and "rb_inv rb" and "proper evs" and "stream rb evs = serialize m @ rest"
  shows "(\<exists>w'. sv_workers (absorb failed m sv) i = Some w' \<and> bw_queue w' = bw_queue w @ [serialize m]) \<and>
    (\<exists>rb' evs'. connection_loop subscriber_handle (Suc n) s rb evs = Some (Inr ([], s, rb', evs')))"
proof -
  obtain tl_bytes where ser: "serialize m = frame [] @ tl_bytes"
    using serialize_starts_empty [OF assms(1,2)] by blast
  then have "stream rb evs = frame [] @ (tl_bytes @ rest)" using assms(6) by simp
  from receive_frame [OF assms(4,5) this] obtain rb' evs' where
    "recv_raw_buffered rb evs = Some (Some 0, rb', evs')" by auto
  moreover have "subscriber_handle s mem base 0 = Inr ([], s, False)" for mem base
    by (simp add: subscriber_handle_def peek_header_at_def HEADER_SIZE_def)
  ultimately have "\<exists>rb' evs'. connection_loop subscriber_handle (Suc n) s rb evs = Some (Inr ([], s, rb', evs'))"
    by simp
  moreover have "\<exists>w'. sv_workers (absorb failed m sv) i = Some w' \<and> bw_queue w' = bw_queue w @ [serialize m]"
    using assms(3) by (simp add: absorb_def Let_def broadcast_def push_image_def queue_push_def)
  ultimately show ?thesis by blast
qed

definition collected_message :: message where
  "collected_message = build_message (code APPEND) 0 0 9 [] []"

theorem absorbed_image_ends_subscriber_witness:
  "\<exists>rb' evs'. connection_loop subscriber_handle 5 (new_subscriber 0 7 0 [5])
      (fresh_buffer (replicate CAPACITY 0)) [Data (serialize collected_message)] =
    Some (Inr ([], new_subscriber 0 7 0 [5], rb', evs'))"
proof -
  have fits: "fits collected_message" by (simp add: collected_message_def build_message_def fits_def MAX_MESSAGE_SIZE_def)
  have type: "unat (msg_type collected_message) < 2 ^ 16" by (simp add: collected_message_def build_message_def)
  have w: "sv_workers sample_server 0 = Some (new_bworker (replicate CAPACITY 0))" by (simp add: sample_server_def)
  have rb: "rb_inv (fresh_buffer (replicate CAPACITY (0 :: byte)))" by (rule rb_inv_fresh) simp
  have "serialize collected_message \<noteq> []"
    using serialize_starts_empty [OF fits type] by auto
  then have p: "proper [Data (serialize collected_message)]" by (simp add: proper_Cons) (simp add: proper_def)
  have st: "stream (fresh_buffer (replicate CAPACITY 0)) [Data (serialize collected_message)] = serialize collected_message @ []"
    by simp
  from absorbed_image_ends_subscriber [OF fits type w rb p st, of 0 4 "new_subscriber 0 7 0 [5]"]
  show ?thesis by (simp add: eval_nat_numeral)
qed

end
