(* ===== verification/Address.thy ===== *)
theory Address
  imports Prelude "HOL-Library.Char_ord"
begin

text \<open>
  \<^verbatim>\<open>api/address.h\<close> and the parser of addresses in \<^verbatim>\<open>api/config.cpp\<close>, with the two
  conversions of the standard library they use, \<^verbatim>\<open>std::stoi\<close> and \<^verbatim>\<open>std::to_string\<close>.
\<close>

section \<open>Decimal numbers\<close>

definition digit :: "char \<Rightarrow> bool" where
  "digit c \<longleftrightarrow> 48 \<le> (of_char c :: nat) \<and> (of_char c :: nat) \<le> 57"

definition digit_value :: "char \<Rightarrow> nat" where
  "digit_value c = of_char c - 48"

definition decimal :: "string \<Rightarrow> nat" where
  "decimal ds = foldl (\<lambda>n c. 10 * n + digit_value c) 0 ds"

fun show_nat :: "nat \<Rightarrow> string" where
  "show_nat n = (if n < 10 then [] else show_nat (n div 10)) @ [char_of (48 + n mod 10)]"

declare show_nat.simps [simp del]

definition show_int :: "int \<Rightarrow> string" where
  "show_int i = (if i < 0 then CHR ''-'' # show_nat (nat (- i)) else show_nat (nat i))"

text \<open>White space of the C locale.\<close>

definition white :: "char \<Rightarrow> bool" where
  "white c \<longleftrightarrow> (of_char c :: nat) = 32 \<or> 9 \<le> (of_char c :: nat) \<and> (of_char c :: nat) \<le> 13"

text \<open>
  \<^verbatim>\<open>std::stoi\<close>: leading white space, an optional sign, digits; what follows the digits
  is ignored. It throws when there is no digit or the value is no \<^verbatim>\<open>int\<close>.
\<close>

definition stoi :: "string \<Rightarrow> fault + int" where
  "stoi s =
    (let t = dropWhile white s;
         negative = (t \<noteq> [] \<and> hd t = CHR ''-'');
         u = (if t \<noteq> [] \<and> (hd t = CHR ''-'' \<or> hd t = CHR ''+'') then tl t else t);
         ds = takeWhile digit u;
         v = (if negative then - int (decimal ds) else int (decimal ds))
     in require (ds \<noteq> []) Thrown (require (- (2 ^ 31) \<le> v \<and> v < 2 ^ 31) Thrown (Inr v)))"

section \<open>Addresses\<close>

type_synonym address = "string \<times> int"

definition address_to_string :: "address \<Rightarrow> string" where
  "address_to_string a = fst a @ '':'' @ show_int (snd a)"

text \<open>
  The regular expression for an IPv4 address: four octets between dots, where an octet is one of
  \<^verbatim>\<open>25[0-5]\<close>, \<^verbatim>\<open>2[0-4][0-9]\<close> and \<^verbatim>\<open>[01]?[0-9][0-9]?\<close>.
\<close>

definition between :: "char \<Rightarrow> char \<Rightarrow> char \<Rightarrow> bool" where
  "between lo hi c \<longleftrightarrow> (of_char lo :: nat) \<le> of_char c \<and> (of_char c :: nat) \<le> of_char hi"

fun octet :: "string \<Rightarrow> bool" where
  "octet [a, b, c] \<longleftrightarrow>
    (a = CHR ''2'' \<and> b = CHR ''5'' \<and> between (CHR ''0'') (CHR ''5'') c) \<or>
    (a = CHR ''2'' \<and> between (CHR ''0'') (CHR ''4'') b \<and> digit c) \<or>
    (between (CHR ''0'') (CHR ''1'') a \<and> digit b \<and> digit c)"
| "octet [a, b] \<longleftrightarrow> digit a \<and> digit b"
| "octet [a] \<longleftrightarrow> digit a"
| "octet _ \<longleftrightarrow> False"

fun split_at :: "char \<Rightarrow> string \<Rightarrow> string list" where
  "split_at x [] = [[]]"
| "split_at x (c # cs) =
    (if c = x then [] # split_at x cs
     else (case split_at x cs of [] \<Rightarrow> [[c]] | p # ps \<Rightarrow> (c # p) # ps))"

definition ipv4 :: "string \<Rightarrow> bool" where
  "ipv4 s \<longleftrightarrow> length (split_at (CHR ''.'') s) = 4 \<and> list_all octet (split_at (CHR ''.'') s)"

text \<open>The exceptions of \<^verbatim>\<open>parse_address\<close>, one for each \<^verbatim>\<open>throw\<close>.\<close>

datatype address_error = Missing_colon | Empty_part | Invalid_ip | Invalid_port | Port_range

text \<open>The string is split at its last colon.\<close>

definition parse_address :: "string \<Rightarrow> address_error + address" where
  "parse_address addr =
    (if CHR '':'' \<notin> set addr then Inl Missing_colon
     else
       let port_str = rev (takeWhile (\<lambda>c. c \<noteq> CHR '':'') (rev addr));
           ip = take (length addr - length port_str - 1) addr
       in if ip = [] \<or> port_str = [] then Inl Empty_part
          else
            let ip = (if ip = ''localhost'' then ''127.0.0.1'' else ip)
            in if \<not> ipv4 ip then Inl Invalid_ip
               else case stoi port_str of
                 Inl _ \<Rightarrow> Inl Invalid_port
               | Inr port \<Rightarrow> if port < 1 \<or> 65535 < port then Inl Port_range else Inr (ip, port))"

section \<open>Reading back what was printed\<close>

lemma digit_of_nat: "n < 10 \<Longrightarrow> digit (char_of (48 + n)) \<and> digit_value (char_of (48 + n)) = n"
  by (simp add: digit_def digit_value_def)

lemma decimal_snoc: "decimal (ds @ [c]) = 10 * decimal ds + digit_value c"
  by (simp add: decimal_def)

lemma show_nat_digits: "list_all digit (show_nat n) \<and> decimal (show_nat n) = n \<and> show_nat n \<noteq> []"
proof (induction n rule: show_nat.induct)
  case (1 n)
  have last: "digit (char_of (48 + n mod 10)) \<and> digit_value (char_of (48 + n mod 10)) = n mod 10"
    by (rule digit_of_nat) simp
  show ?case
  proof (cases "n < 10")
    case True
    with last show ?thesis
      by (subst (1 2 3) show_nat.simps) (simp add: decimal_def)
  next
    case False
    with 1 last show ?thesis
      by (subst (1 2 3) show_nat.simps) (simp add: decimal_snoc)
  qed
qed

lemma digit_not_white: "digit c \<Longrightarrow> \<not> white c"
  by (auto simp: digit_def white_def)

lemma digit_not_sign: "digit c \<Longrightarrow> c \<noteq> CHR ''-'' \<and> c \<noteq> CHR ''+'' \<and> c \<noteq> CHR '':'' \<and> c \<noteq> CHR ''.''"
  by (auto simp: digit_def)

lemma stoi_digits:
  assumes "list_all digit ds" and "ds \<noteq> []" and "decimal ds < 2 ^ 31"
    and "rest = [] \<or> \<not> digit (hd rest)"
  shows "stoi (ds @ rest) = Inr (int (decimal ds))"
proof -
  obtain d ds' where ds: "ds = d # ds'" and d: "digit d"
    using assms(1,2) by (cases ds) auto
  have "takeWhile digit (ds @ rest) = ds"
    using assms(1,4) by (cases rest) (auto simp: list_all_iff takeWhile_append)
  with ds d digit_not_white [OF d] digit_not_sign [OF d] assms(3) show ?thesis
    by (simp add: stoi_def)
qed

section \<open>Valid addresses\<close>

definition valid_address :: "address \<Rightarrow> bool" where
  "valid_address a \<longleftrightarrow> ipv4 (fst a) \<and> 1 \<le> snd a \<and> snd a \<le> 65535"

lemma parse_address_valid: "parse_address s = Inr a \<Longrightarrow> valid_address a"
  by (auto simp: parse_address_def valid_address_def Let_def split: if_splits sum.splits)

lemma of_char_eqD: "(of_char c :: nat) = of_char d \<Longrightarrow> c = d"
  by simp

text \<open>
  The three alternatives of the regular expression are exactly the octets of an IPv4
  address: one to three digits whose value is at most 255, leading zeros allowed.
\<close>

theorem octet_is_byte:
  "octet s = (s \<noteq> [] \<and> length s \<le> 3 \<and> list_all digit s \<and> decimal s < 256)"
proof (cases s rule: octet.cases)
  case (1 a b c)
  have two: "x = CHR ''2'' \<longleftrightarrow> (of_char x :: nat) = 50" "x = CHR ''5'' \<longleftrightarrow> (of_char x :: nat) = 53" for x
    using of_char_eqD [of x "CHR ''2''"] of_char_eqD [of x "CHR ''5''"] by auto
  show ?thesis
    unfolding 1 by (auto simp: two between_def digit_def digit_value_def decimal_def)
qed (auto simp: decimal_def digit_def digit_value_def)

lemma ipv4_not_special: "ipv4 ip \<Longrightarrow> ip \<noteq> [] \<and> ip \<noteq> ''localhost''"
  by (auto simp: ipv4_def)

lemma show_int_pos: "0 \<le> p \<Longrightarrow> show_int p = show_nat (nat p)"
  by (simp add: show_int_def)

text \<open>
  An address survives printing and parsing: \<^verbatim>\<open>parse_address\<close> reads back what
  \<^verbatim>\<open>Address::to_string\<close> prints for a valid address, whatever garbage that does not start
  with a digit and holds no colon follows the port; the garbage is ignored.
\<close>

theorem address_roundtrip:
  assumes "valid_address a" and "junk = [] \<or> \<not> digit (hd junk)" and "CHR '':'' \<notin> set junk"
  shows "parse_address (address_to_string a @ junk) = Inr a"
proof -
  obtain ip p where a: "a = (ip, p)" by (cases a)
  have p: "0 \<le> p" "1 \<le> p" "p \<le> 65535" and ip: "ipv4 ip" using assms(1) by (auto simp: a valid_address_def)
  define ds where "ds = show_nat (nat p)"
  have ds: "list_all digit ds" "decimal ds = nat p" "ds \<noteq> []"
    using show_nat_digits [of "nat p"] by (simp_all add: ds_def)
  then have "CHR '':'' \<notin> set (ds @ junk)"
    using assms(3) digit_not_sign by (auto simp: list_all_iff)
  then have "takeWhile (\<lambda>c. c \<noteq> CHR '':'') (rev (ds @ junk)) = rev (ds @ junk)"
    by (intro takeWhile_eq_all_conv [THEN iffD2]) auto
  moreover have "takeWhile (\<lambda>c. c \<noteq> CHR '':'') (rev (ip @ CHR '':'' # ds @ junk)) =
      takeWhile (\<lambda>c. c \<noteq> CHR '':'') (rev (ds @ junk))"
    using takeWhile_tail [of "\<lambda>c. c \<noteq> CHR '':''" "CHR '':''" "rev (ds @ junk)" "rev ip"] by simp
  ultimately have port: "rev (takeWhile (\<lambda>c. c \<noteq> CHR '':'') (rev (ip @ CHR '':'' # ds @ junk))) = ds @ junk"
    by (simp only: rev_rev_ident)
  have "stoi (ds @ junk) = Inr p"
    using stoi_digits [OF ds(1,3) _ assms(2)] ds(2) p by simp
  moreover have "address_to_string a @ junk = ip @ CHR '':'' # ds @ junk"
    by (simp add: a address_to_string_def show_int_pos p(1) ds_def)
  ultimately show ?thesis
    using ipv4_not_special [OF ip] ip ds(3) p
    by (simp add: parse_address_def port a del: rev_append rev.simps)
qed

lemma sample_address: "address_to_string (''127.0.0.1'', 8001) @ ''x'' = ''127.0.0.1:8001x''"
  by (simp add: address_to_string_def show_int_def show_nat.simps char_of_def bit_0)

theorem address_roundtrip_witness:
  "parse_address ''127.0.0.1:8001x'' = Inr (''127.0.0.1'', 8001)"
proof -
  have "valid_address (''127.0.0.1'', 8001)"
    by (simp add: valid_address_def ipv4_def digit_def between_def)
  from address_roundtrip [OF this, of "''x''"] show ?thesis
    unfolding sample_address by (simp add: digit_def)
qed

end
