(* ===== verification/Slot_Allocator.thy ===== *)
theory Slot_Allocator
  imports Address Slot_Scheduler "HOL-Library.Product_Lexorder" "HOL-Library.Multiset"
begin

text \<open>
  \<^verbatim>\<open>impl/zipper/proxy_state.h\<close> and \<^verbatim>\<open>impl/zipper/slot_allocator.cpp\<close>: the Zipper's
  record of every proxy, and the division of an epoch into the slots the proxies asked
  for, numbered in the order of their times.
\<close>

section \<open>The registry\<close>

datatype proxy_status = Active | Reconfiguring | Blocked

record proxy_state =
  ps_address :: address
  ps_estimate :: nat
  ps_allocated :: "seq_num list"
  ps_status :: proxy_status
  ps_freeze_round :: int
  ps_freeze_responders :: "node_id set"
  ps_reporters :: "node_id set"
  ps_last_sequences :: "seq_num set"

type_synonym registry = "node_id \<rightharpoonup> proxy_state"

definition fresh_proxy :: "address \<Rightarrow> proxy_state" where
  "fresh_proxy a =
    \<lparr>ps_address = a, ps_estimate = 0, ps_allocated = [], ps_status = Active, ps_freeze_round = 0,
     ps_freeze_responders = {}, ps_reporters = {}, ps_last_sequences = {}\<rparr>"

definition add_proxy :: "node_id \<Rightarrow> address \<Rightarrow> registry \<Rightarrow> registry" where
  "add_proxy i a reg = reg(i \<mapsto> fresh_proxy a)"

definition remove_proxy :: "node_id \<Rightarrow> registry \<Rightarrow> registry" where
  "remove_proxy i reg = reg(i := None)"

definition rejoin_proxy :: "node_id \<Rightarrow> registry \<Rightarrow> registry" where
  "rejoin_proxy i reg =
    (case reg i of None \<Rightarrow> reg | Some st \<Rightarrow> reg(i \<mapsto> fresh_proxy (ps_address st)))"

definition proxy_exists :: "node_id \<Rightarrow> registry \<Rightarrow> bool" where
  "proxy_exists i reg \<longleftrightarrow> reg i \<noteq> None"

text \<open>\<^verbatim>\<open>get\<close> throws for an unknown proxy.\<close>

definition get_proxy :: "node_id \<Rightarrow> registry \<Rightarrow> fault + proxy_state" where
  "get_proxy i reg = (case reg i of None \<Rightarrow> Inl Thrown | Some st \<Rightarrow> Inr st)"

section \<open>The allocator\<close>

record allocator =
  al_global_seq :: seq_num
  al_estimates :: "node_id \<rightharpoonup> nat"

definition new_allocator :: "seq_num \<Rightarrow> allocator" where
  "new_allocator s = \<lparr>al_global_seq = s, al_estimates = Map.empty\<rparr>"

definition update_estimate :: "node_id \<Rightarrow> nat \<Rightarrow> allocator \<Rightarrow> allocator" where
  "update_estimate i n al = al\<lparr>al_estimates := (al_estimates al)(i \<mapsto> n)\<rparr>"

text \<open>The times of \<open>k\<close> slots from \<open>time_point\<close> on, each step rounded.\<close>

fun time_points :: "nat \<Rightarrow> rat \<Rightarrow> rat \<Rightarrow> rat list" where
  "time_points 0 time_point interval = []"
| "time_points (Suc k) time_point interval =
    time_point # time_points k (fl (time_point + interval)) interval"

definition proxy_points :: "timestamp \<Rightarrow> nat \<Rightarrow> rat list" where
  "proxy_points duration estimate =
    (let interval = fl (fl (of_nat (unat duration)) / fl (of_nat estimate))
     in time_points estimate (fl (interval / 2)) interval)"

definition wanted :: "registry \<Rightarrow> allocator \<Rightarrow> node_id \<Rightarrow> nat" where
  "wanted reg al i =
    (case reg i of
       None \<Rightarrow> 0
     | Some st \<Rightarrow> if ps_status st = Active then (case al_estimates al i of None \<Rightarrow> 0 | Some n \<Rightarrow> n) else 0)"

text \<open>
  The loop over the registry; \<open>order\<close> is the order in which the hash map is iterated.
\<close>

definition collect_points :: "timestamp \<Rightarrow> registry \<Rightarrow> allocator \<Rightarrow> node_id list \<Rightarrow> (rat \<times> node_id) list" where
  "collect_points duration reg al order =
    concat (map (\<lambda>i. map (\<lambda>t. (t, i)) (proxy_points duration (wanted reg al i))) order)"

text \<open>
  The loop over the sorted points. The conversion of a double to \<^verbatim>\<open>uint64_t\<close> truncates;
  it is undefined from \<open>2^64\<close> on.
\<close>

fun assign_numbers ::
  "timestamp \<Rightarrow> (rat \<times> node_id) list \<Rightarrow> (node_id \<rightharpoonup> u64 list) \<Rightarrow> allocator \<Rightarrow> registry
    \<Rightarrow> fault + (node_id \<rightharpoonup> u64 list) \<times> allocator \<times> registry" where
  "assign_numbers next_epoch [] result al reg = Inr (result, al, reg)"
| "assign_numbers next_epoch ((time_point, i) # ps) result al reg =
    (let s = al_global_seq al;
         al = al\<lparr>al_global_seq := s + 1\<rparr>
     in require (\<lfloor>time_point\<rfloor> < 2 ^ 64) Overflow (
        let old = (case result i of None \<Rightarrow> [] | Some vs \<Rightarrow> vs);
            result = result(i \<mapsto> (old @ [next_epoch + of_int \<lfloor>time_point\<rfloor>]) @ [s])
        in bind_res (get_proxy i reg) (\<lambda>st.
          assign_numbers next_epoch ps result al
            (reg(i \<mapsto> st\<lparr>ps_allocated := ps_allocated st @ [s]\<rparr>)))))"

definition compute_allocations ::
  "node_id list \<Rightarrow> timestamp \<Rightarrow> timestamp \<Rightarrow> allocator \<Rightarrow> registry
    \<Rightarrow> fault + (node_id \<rightharpoonup> u64 list) \<times> allocator \<times> registry" where
  "compute_allocations order next_epoch duration al reg =
    assign_numbers next_epoch (sort (collect_points duration reg al order)) Map.empty al reg"

section \<open>Times inside the epoch\<close>

definition eps :: rat where
  "eps = 1 / 2 ^ 53"

lemma eps_pos: "0 < eps"
  by (simp add: eps_def)

lemma fl_le_eps: "0 \<le> x \<Longrightarrow> fl x \<le> x * (1 + eps)"
  using fl_le [of x] by (simp add: eps_def)

text \<open>Bernoulli's inequality for the growth of the rounding error.\<close>

lemma growth: "(1 + eps) ^ m * (1 - of_nat m * eps) \<le> 1"
proof (induction m)
  case (Suc m)
  have "(1 + eps) ^ Suc m * (1 - of_nat (Suc m) * eps)
      = (1 + eps) ^ m * (1 - of_nat m * eps) - (1 + eps) ^ m * ((of_nat m + 1) * eps ^ 2)"
    by (simp add: algebra_simps power2_eq_square)
  also have "\<dots> \<le> (1 + eps) ^ m * (1 - of_nat m * eps)"
    using eps_pos by (simp add: add_nonneg_nonneg)
  finally show ?case using Suc by linarith
qed simp

lemma time_points_bound:
  assumes "0 \<le> interval" and "0 \<le> t" and "t \<le> (of_nat j + 1 / 2) * interval * (1 + eps) ^ Suc j"
    and "x \<in> set (time_points k t interval)"
  shows "0 \<le> x \<and> x \<le> (of_nat (j + k) - 1 / 2) * interval * (1 + eps) ^ (j + k)"
  using assms(2-)
proof (induction k arbitrary: t j)
  case (Suc k)
  have next_t: "0 \<le> fl (t + interval)"
    "fl (t + interval) \<le> (of_nat (Suc j) + 1 / 2) * interval * (1 + eps) ^ Suc (Suc j)"
  proof -
    show "0 \<le> fl (t + interval)"
      using assms(1) Suc.prems(1) by (intro fl_nonneg) simp
    have "1 \<le> (1 + eps) ^ Suc j"
      using eps_pos by (intro one_le_power) simp
    then have "interval * 1 \<le> interval * (1 + eps) ^ Suc j"
      using assms(1) by (intro mult_left_mono) simp_all
    then have "t + interval \<le> (of_nat (Suc j) + 1 / 2) * interval * (1 + eps) ^ Suc j"
      using Suc.prems(2) by (simp add: distrib_right distrib_left algebra_simps)
    then have "(t + interval) * (1 + eps) \<le> (of_nat (Suc j) + 1 / 2) * interval * (1 + eps) ^ Suc j * (1 + eps)"
      using eps_pos by (intro mult_right_mono) simp_all
    moreover have "fl (t + interval) \<le> (t + interval) * (1 + eps)"
      using assms(1) Suc.prems(1) by (intro fl_le_eps) simp
    ultimately have "fl (t + interval) \<le> (of_nat (Suc j) + 1 / 2) * interval * (1 + eps) ^ Suc j * (1 + eps)"
      by (rule order_trans [rotated])
    then show "fl (t + interval) \<le> (of_nat (Suc j) + 1 / 2) * interval * (1 + eps) ^ Suc (Suc j)"
      by (simp only: power_Suc mult_ac)
  qed
  show ?case
  proof (cases "x = t")
    case True
    have "(1 + eps) ^ Suc j \<le> (1 + eps) ^ (j + Suc k)"
      using eps_pos by (intro power_increasing) simp_all
    moreover have "(of_nat j + 1 / 2) * interval \<le> (of_nat (j + Suc k) - 1 / 2) * interval"
      using assms(1) by (intro mult_right_mono) simp_all
    ultimately have "(of_nat j + 1 / 2) * interval * (1 + eps) ^ Suc j
        \<le> (of_nat (j + Suc k) - 1 / 2) * interval * (1 + eps) ^ (j + Suc k)"
      using assms(1) eps_pos by (intro mult_mono) simp_all
    with True Suc.prems(1,2) show ?thesis by linarith
  next
    case False
    then have "x \<in> set (time_points k (fl (t + interval)) interval)"
      using Suc.prems(3) by simp
    from Suc.IH [OF next_t this] show ?thesis by simp
  qed
qed simp

text \<open>For up to \<open>2^25\<close> slots the rounding never pushes a time past the epoch.\<close>

lemma proxy_points_inside:
  assumes "n \<le> 2 ^ 25" and "x \<in> set (proxy_points duration n)"
  shows "0 \<le> x \<and> x \<le> of_nat (unat duration)"
proof -
  let ?d = "of_nat (unat duration) :: rat"
  have n: "0 < n"
    using assms(2) by (cases n) (simp_all add: proxy_points_def)
  have fn: "fl (of_nat n) = of_nat n"
    by (rule fl_of_nat) (use assms(1) in simp)
  define i where "i = fl (fl ?d / of_nat n)"
  have d: "0 \<le> fl ?d" "fl ?d \<le> ?d * (1 + eps)"
    by (rule fl_nonneg fl_le_eps, rule of_nat_0_le_iff)+
  then have "0 \<le> fl ?d / of_nat n" by simp
  then have i: "0 \<le> i" "i \<le> fl ?d / of_nat n * (1 + eps)"
    unfolding i_def by (rule fl_nonneg, rule fl_le_eps)
  have "fl ?d / of_nat n \<le> ?d * (1 + eps) / of_nat n"
    using d(2) by (intro divide_right_mono) simp_all
  then have "fl ?d / of_nat n * (1 + eps) \<le> ?d * (1 + eps) / of_nat n * (1 + eps)"
    using eps_pos by (intro mult_right_mono) simp_all
  also have "?d * (1 + eps) / of_nat n * (1 + eps) = ?d / of_nat n * (1 + eps) ^ 2"
    by (simp add: power2_eq_square)
  finally have ib: "i \<le> ?d / of_nat n * (1 + eps) ^ 2"
    using i(2) by linarith
  have "x \<in> set (time_points n (fl (i / 2)) i)"
    using assms(2) by (simp add: proxy_points_def fn i_def Let_def)
  moreover have "0 \<le> fl (i / 2)" "fl (i / 2) \<le> (of_nat 0 + 1 / 2) * i * (1 + eps) ^ Suc 0"
    using i(1) fl_le_eps [of "i / 2"] by (simp_all add: fl_nonneg)
  ultimately have x: "0 \<le> x" "x \<le> (of_nat n - 1 / 2) * i * (1 + eps) ^ n"
    using time_points_bound [OF i(1), of "fl (i / 2)" 0 x n] by simp_all
  have half: "0 \<le> (of_nat n - 1 / 2 :: rat)"
    using n by (cases n) simp_all
  have "(of_nat n - 1 / 2) * i * (1 + eps) ^ n
      \<le> (of_nat n - 1 / 2) * (?d / of_nat n * (1 + eps) ^ 2) * (1 + eps) ^ n"
    using half ib eps_pos by (intro mult_right_mono mult_left_mono) simp_all
  also have "\<dots> = ?d * ((1 - 1 / (2 * of_nat n)) * (1 + eps) ^ (n + 2))"
    using n by (simp add: field_simps power_add power2_eq_square)
  also have "\<dots> \<le> ?d * 1"
  proof (intro mult_left_mono)
    have "2 * n * (n + 2) \<le> 2 * 2 ^ 25 * (2 ^ 25 + 2)"
      using assms(1) by (intro mult_le_mono) simp_all
    then have "2 * n * (n + 2) \<le> 2 ^ 53" by simp
    then have "of_nat (2 * n * (n + 2)) \<le> (2 ^ 53 :: rat)"
      by (metis of_nat_le_iff of_nat_numeral of_nat_power)
    then have "of_nat (n + 2) * eps \<le> 1 / (2 * of_nat n)"
      using n by (simp add: eps_def field_simps)
    then have "(1 - 1 / (2 * of_nat n)) * (1 + eps) ^ (n + 2) \<le> (1 - of_nat (n + 2) * eps) * (1 + eps) ^ (n + 2)"
      using eps_pos by (intro mult_right_mono) simp_all
    also have "\<dots> \<le> 1"
      using growth [of "n + 2"] by (simp add: mult.commute)
    finally show "(1 - 1 / (2 * of_nat n)) * (1 + eps) ^ (n + 2) \<le> 1" .
  qed (rule of_nat_0_le_iff)
  finally show ?thesis using x by simp
qed

section \<open>Numbering the points\<close>

text \<open>The slots of one proxy among the points, numbered from \<open>g\<close> on.\<close>

fun slots_for :: "timestamp \<Rightarrow> node_id \<Rightarrow> seq_num \<Rightarrow> (rat \<times> node_id) list \<Rightarrow> (timestamp \<times> seq_num) list" where
  "slots_for next_epoch i g [] = []"
| "slots_for next_epoch i g ((t, j) # ps) =
    (if j = i then [(next_epoch + of_int \<lfloor>t\<rfloor>, g)] else []) @ slots_for next_epoch i (g + 1) ps"

definition given :: "(node_id \<rightharpoonup> u64 list) \<Rightarrow> node_id \<Rightarrow> u64 list" where
  "given result i = (case result i of None \<Rightarrow> [] | Some vs \<Rightarrow> vs)"

definition allocated :: "registry \<Rightarrow> node_id \<Rightarrow> seq_num list" where
  "allocated reg i = (case reg i of None \<Rightarrow> [] | Some st \<Rightarrow> ps_allocated st)"

lemma assign_numbers_result:
  assumes "\<forall>(t, i) \<in> set ps. \<lfloor>t\<rfloor> < 2 ^ 64 \<and> reg i \<noteq> None"
  shows "\<exists>result' al' reg'. assign_numbers next_epoch ps result al reg = Inr (result', al', reg') \<and>
    (\<forall>i. given result' i = given result i @ interleave (slots_for next_epoch i (al_global_seq al) ps)) \<and>
    (\<forall>i. allocated reg' i = allocated reg i @ map snd (slots_for next_epoch i (al_global_seq al) ps)) \<and>
    al_global_seq al' = al_global_seq al + of_nat (length ps) \<and> al_estimates al' = al_estimates al"
  using assms
proof (induction ps arbitrary: result al reg)
  case (Cons p ps)
  obtain t i where p: "p = (t, i)" by (cases p)
  let ?s = "al_global_seq al"
  let ?al = "al\<lparr>al_global_seq := ?s + 1\<rparr>"
  obtain st where st: "reg i = Some st"
    using Cons.prems by (auto simp: p)
  let ?reg = "reg(i \<mapsto> st\<lparr>ps_allocated := ps_allocated st @ [?s]\<rparr>)"
  let ?res = "result(i \<mapsto> (given result i @ [next_epoch + of_int \<lfloor>t\<rfloor>]) @ [?s])"
  have step: "assign_numbers next_epoch (p # ps) result al reg = assign_numbers next_epoch ps ?res ?al ?reg"
    using Cons.prems st by (simp add: p get_proxy_def given_def Let_def)
  have "\<forall>(t, i) \<in> set ps. \<lfloor>t\<rfloor> < 2 ^ 64 \<and> ?reg i \<noteq> None"
    using Cons.prems by auto
  from Cons.IH [OF this, of ?res ?al] obtain result' al' reg' where ih:
    "assign_numbers next_epoch ps ?res ?al ?reg = Inr (result', al', reg')"
    "\<forall>j. given result' j = given ?res j @ interleave (slots_for next_epoch j (?s + 1) ps)"
    "\<forall>j. allocated reg' j = allocated ?reg j @ map snd (slots_for next_epoch j (?s + 1) ps)"
    "al_global_seq al' = ?s + 1 + of_nat (length ps)" "al_estimates al' = al_estimates al"
    by (simp del: fun_upd_apply) blast
  have "given result' j = given result j @ interleave (slots_for next_epoch j ?s (p # ps))" for j
    using ih(2) by (auto simp: p given_def interleave_append)
  moreover have "allocated reg' j = allocated reg j @ map snd (slots_for next_epoch j ?s (p # ps))" for j
    using ih(3) st by (auto simp: p allocated_def)
  ultimately show ?case
    using step ih(1,4,5) by (simp add: add.assoc)
qed simp

text \<open>Which numbers a proxy gets.\<close>

lemma slots_for_numbers:
  "map snd (slots_for next_epoch i g ps) =
    map (\<lambda>k. g + of_nat k) (filter (\<lambda>k. snd (ps ! k) = i) [0..<length ps])"
proof (induction ps arbitrary: g)
  case (Cons p ps)
  have "filter (\<lambda>k. snd ((p # ps) ! k) = i) [0..<length (p # ps)] =
      (if snd p = i then [0] else []) @ map Suc (filter (\<lambda>k. snd (ps ! k) = i) [0..<length ps])"
    by (simp add: upt_conv_Cons map_Suc_upt [symmetric] filter_map o_def del: upt_Suc)
  with Cons [of "g + 1"] show ?case
    by (cases p) (simp add: add.assoc)
qed simp

lemma length_slots_for: "length (slots_for next_epoch i g ps) = count (image_mset snd (mset ps)) i"
  by (induction next_epoch i g ps rule: slots_for.induct) auto

lemma length_time_points [simp]: "length (time_points k t i) = k"
  by (induction k t i rule: time_points.induct) auto

lemma length_proxy_points [simp]: "length (proxy_points duration n) = n"
  by (simp add: proxy_points_def Let_def)

lemma count_points:
  assumes "distinct order"
  shows "count (image_mset snd (mset (collect_points duration reg al order))) i =
    (if i \<in> set order then wanted reg al i else 0)"
  using assms
proof (induction order)
  case (Cons j order)
  have "image_mset snd (mset (map (\<lambda>t. (t, j)) xs)) = replicate_mset (length xs) j" for xs :: "rat list"
    by (induction xs) auto
  with Cons show ?case
    by (auto simp: collect_points_def)
qed (simp add: collect_points_def)

text \<open>Iterating the hash map in another order permutes the points.\<close>

lemma mset_concat_map: "mset (concat (map f xs)) = (\<Sum>x\<in>#mset xs. mset (f x))"
  by (induction xs) auto

lemma collect_points_order:
  assumes "distinct order1" and "distinct order2" and "set order1 = set order2"
  shows "sort (collect_points duration reg al order1) = sort (collect_points duration reg al order2)"
proof -
  have "mset order1 = mset order2"
    using assms set_eq_iff_mset_eq_distinct by blast
  then have "mset (collect_points duration reg al order1) = mset (collect_points duration reg al order2)"
    by (simp add: collect_points_def mset_concat_map)
  then show ?thesis
    by (intro properties_for_sort) simp_all
qed

lemma sorted_slots_for:
  "sorted (map fst ps) \<Longrightarrow> sorted (map fst (filter (\<lambda>p. snd p = i) ps))"
  by (induction ps) auto

lemma points_inside:
  assumes "\<forall>i. wanted reg al i \<le> 2 ^ 25" and "(t, i) \<in> set (collect_points duration reg al order)"
  shows "0 \<le> t \<and> t \<le> of_nat (unat duration) \<and> i \<in> set order \<and> 0 < wanted reg al i"
proof -
  have "i \<in> set order" "t \<in> set (proxy_points duration (wanted reg al i))"
    using assms(2) by (auto simp: collect_points_def)
  moreover from this(2) have "0 < wanted reg al i"
    by (metis length_proxy_points length_pos_if_in_set)
  ultimately show ?thesis
    using proxy_points_inside assms(1) by blast
qed

lemma floor_in_word:
  fixes t :: rat
  assumes "0 \<le> t" and "t \<le> of_nat (unat (d :: u64))"
  shows "\<lfloor>t\<rfloor> < 2 ^ 64" and "0 \<le> \<lfloor>t\<rfloor>" and "nat \<lfloor>t\<rfloor> \<le> unat d"
proof -
  have fl: "\<lfloor>t\<rfloor> \<le> int (unat d)"
    using floor_mono [OF assms(2)] by (simp only: floor_of_nat)
  have "unat d < 2 ^ 64"
    using unsigned_less [of d, where 'a = nat] by simp
  then have "int (unat d) < 2 ^ 64"
    by (metis of_nat_less_iff of_nat_numeral of_nat_power)
  from fl this show "\<lfloor>t\<rfloor> < 2 ^ 64" by (rule le_less_trans)
  show lo: "0 \<le> \<lfloor>t\<rfloor>" using assms(1) by simp
  from fl lo show "nat \<lfloor>t\<rfloor> \<le> unat d" by (simp only: nat_le_iff)
qed

text \<open>The offsets of one proxy's slots from the start of the epoch.\<close>

definition offsets :: "node_id \<Rightarrow> (rat \<times> node_id) list \<Rightarrow> timestamp list" where
  "offsets i ps = map (\<lambda>p. of_int \<lfloor>fst p\<rfloor>) (filter (\<lambda>p. snd p = i) ps)"

lemma slots_for_times: "map fst (slots_for next_epoch i g ps) = map ((+) next_epoch) (offsets i ps)"
  by (induction next_epoch i g ps rule: slots_for.induct) (auto simp: offsets_def)

lemma unat_of_int_floor:
  fixes t :: rat
  assumes "0 \<le> t" and "t \<le> of_nat (unat (d :: u64))"
  shows "unat (of_int \<lfloor>t\<rfloor> :: u64) = nat \<lfloor>t\<rfloor>"
proof -
  have "uint (of_int \<lfloor>t\<rfloor> :: u64) = \<lfloor>t\<rfloor>"
    using floor_in_word(1,2) [OF assms] by (simp only: uint_word_of_int) (simp add: mod_pos_pos_trivial)
  then show ?thesis by (simp only: unat_eq_nat_uint)
qed

lemma sorted_offsets:
  assumes "sorted (map fst ps)" and "\<forall>(t, i) \<in> set ps. 0 \<le> t \<and> t \<le> of_nat (unat (d :: u64))"
  shows "sorted (offsets i ps)" and "\<forall>x \<in> set (offsets i ps). x \<le> d"
proof -
  have *: "unat (of_int \<lfloor>fst p\<rfloor> :: u64) = nat \<lfloor>fst p\<rfloor> \<and> nat \<lfloor>fst p\<rfloor> \<le> unat d" if "p \<in> set ps" for p
    using assms(2) that unat_of_int_floor [of "fst p" d] floor_in_word(3) [of "fst p" d] by (cases p) auto
  then show "\<forall>x \<in> set (offsets i ps). x \<le> d"
    by (auto simp: offsets_def word_le_nat_alt simp del: of_int_floor_le)
  have "sorted_wrt (\<lambda>p q. fst p \<le> fst q) ps"
    using assms(1) by (simp add: sorted_map)
  then have "sorted_wrt (\<lambda>p q. fst p \<le> fst q) (filter (\<lambda>p. snd p = i) ps)"
    by (rule sorted_wrt_filter)
  then have "sorted_wrt (\<lambda>p q. (of_int \<lfloor>fst p\<rfloor> :: u64) \<le> of_int \<lfloor>fst q\<rfloor>) (filter (\<lambda>p. snd p = i) ps)"
  proof (rule sorted_wrt_mono_rel [rotated])
    fix p q assume "p \<in> set (filter (\<lambda>p. snd p = i) ps)" "q \<in> set (filter (\<lambda>p. snd p = i) ps)"
      and le: "fst p \<le> fst q"
    then have "unat (of_int \<lfloor>fst p\<rfloor> :: u64) = nat \<lfloor>fst p\<rfloor>" "unat (of_int \<lfloor>fst q\<rfloor> :: u64) = nat \<lfloor>fst q\<rfloor>"
      using * by auto
    moreover have "nat \<lfloor>fst p\<rfloor> \<le> nat \<lfloor>fst q\<rfloor>" using le by (intro nat_mono floor_mono)
    ultimately show "(of_int \<lfloor>fst p\<rfloor> :: u64) \<le> of_int \<lfloor>fst q\<rfloor>"
      by (simp only: word_le_nat_alt)
  qed
  then show "sorted (offsets i ps)"
    by (simp add: offsets_def sorted_map)
qed

lemma sorted_fst_sort: "sorted (map fst (sort ps))" for ps :: "(rat \<times> node_id) list"
proof -
  have "sorted_wrt (\<le>) (sort ps)" by (rule sorted_sort)
  then have "sorted_wrt (\<lambda>p q. fst p \<le> fst q) (sort ps)"
    by (rule sorted_wrt_mono_rel [rotated]) (auto simp: less_eq_prod_def)
  then show ?thesis by (simp add: sorted_map)
qed

text \<open>Every number handed out belongs to exactly one proxy.\<close>

lemma numbers_owned_once:
  assumes "length ps < 2 ^ 64" and "k < length ps"
  shows "g + of_nat k \<in> set (map snd (slots_for next_epoch i g ps)) \<longleftrightarrow> snd (ps ! k) = i"
proof -
  have "(g + of_nat k = g + (of_nat j :: u64)) = (k = j)" if "j < length ps" for j
  proof -
    have "unat (of_nat k :: u64) = k" "unat (of_nat j :: u64) = j"
      using assms that by (simp_all add: unat_of_nat_eq)
    then show ?thesis by (metis add_left_cancel)
  qed
  then show ?thesis
    using assms(2) unfolding slots_for_numbers by (auto simp: image_iff) 
qed

lemma distinct_numbers:
  assumes "length ps < 2 ^ 64"
  shows "distinct (map snd (slots_for next_epoch i g ps))"
proof -
  have "inj_on (\<lambda>k. g + (of_nat k :: u64)) {0..<length ps}"
  proof (rule inj_onI)
    fix x y assume xy: "x \<in> {0..<length ps}" "y \<in> {0..<length ps}" "g + (of_nat x :: u64) = g + of_nat y"
    have "unat (of_nat z :: u64) = z" if "z < length ps" for z
      using assms that by (simp add: unat_of_nat_eq)
    then show "x = y" using xy by (metis add_left_cancel atLeastLessThan_iff)
  qed
  then have "inj_on (\<lambda>k. g + (of_nat k :: u64)) (set (filter (\<lambda>k. snd (ps ! k) = i) [0..<length ps]))"
    by (rule inj_on_subset) auto
  then show ?thesis
    by (simp only: slots_for_numbers distinct_map distinct_filter distinct_upt simp_thms)
qed

section \<open>What an allocation promises\<close>

definition allocation_of ::
  "timestamp \<Rightarrow> timestamp \<Rightarrow> allocator \<Rightarrow> registry \<Rightarrow> node_id list \<Rightarrow> node_id \<Rightarrow> (timestamp \<times> seq_num) list" where
  "allocation_of next_epoch duration al reg order i =
    slots_for next_epoch i (al_global_seq al) (sort (collect_points duration reg al order))"

definition slots_wanted :: "registry \<Rightarrow> allocator \<Rightarrow> node_id list \<Rightarrow> nat" where
  "slots_wanted reg al order = (\<Sum>i\<leftarrow>order. wanted reg al i)"

lemma length_points: "length (collect_points duration reg al order) = slots_wanted reg al order"
  by (simp add: collect_points_def slots_wanted_def length_concat o_def)

text \<open>What the routine promises: exactly the slots asked for, and every number has one owner.\<close>

lemma compute_allocations_result:
  assumes "\<forall>i. wanted reg al i \<le> 2 ^ 25" and "set order = dom reg"
  shows "\<exists>result al' reg'. compute_allocations order next_epoch duration al reg = Inr (result, al', reg') \<and>
    (\<forall>i. given result i = interleave (allocation_of next_epoch duration al reg order i)) \<and>
    (\<forall>i. allocated reg' i = allocated reg i @ map snd (allocation_of next_epoch duration al reg order i)) \<and>
    al_global_seq al' = al_global_seq al + of_nat (slots_wanted reg al order) \<and> al_estimates al' = al_estimates al"
proof -
  have "\<forall>(t, i) \<in> set (sort (collect_points duration reg al order)). \<lfloor>t\<rfloor> < 2 ^ 64 \<and> reg i \<noteq> None"
  proof (intro ballI, unfold split_paired_all prod.case, intro conjI)
    fix t i assume "(t, i) \<in> set (sort (collect_points duration reg al order))"
    then have p: "(t, i) \<in> set (collect_points duration reg al order)" by simp
    then have "0 \<le> t \<and> t \<le> of_nat (unat duration)" and i: "i \<in> set order"
      using points_inside [OF assms(1)] by blast+
    then show "\<lfloor>t\<rfloor> < 2 ^ 64" using floor_in_word(1) by blast
    show "reg i \<noteq> None" using i assms(2) by auto
  qed
  from assign_numbers_result [OF this, of next_epoch Map.empty al] show ?thesis
    by (simp add: compute_allocations_def allocation_of_def given_def length_points)
qed


definition two_proxies :: registry where
  "two_proxies = add_proxy 2 (''10.0.0.2'', 6000) (add_proxy 1 (''10.0.0.1'', 6000) Map.empty)"

definition two_estimates :: allocator where
  "two_estimates = update_estimate 2 1 (update_estimate 1 2 (new_allocator 7))"

lemma wanted_two_proxies: "wanted two_proxies two_estimates i = (if i = 1 then 2 else if i = 2 then 1 else 0)"
  by (simp add: wanted_def two_proxies_def two_estimates_def add_proxy_def update_estimate_def
      new_allocator_def fresh_proxy_def)


text \<open>
  The allocation does not depend on the order in which the hash map of proxies is
  iterated: any two orders give the same slots, the same counter and the same registry.
\<close>

theorem allocation_ignores_map_order:
  assumes "distinct order1" and "distinct order2" and "set order1 = set order2"
  shows "compute_allocations order1 next_epoch duration al reg = compute_allocations order2 next_epoch duration al reg"
  unfolding compute_allocations_def using collect_points_order [OF assms] by simp

theorem allocation_ignores_map_order_witness:
  "compute_allocations [2, 1] 1000 100 two_estimates two_proxies =
   compute_allocations [1, 2] 1000 100 two_estimates two_proxies"
  by (rule allocation_ignores_map_order) auto

end
