(* ===== verification/Reconfiguration.thy ===== *)
theory Reconfiguration
  imports Message Slot_Allocator
begin

text \<open>
  \<^verbatim>\<open>impl/zipper/reconfig_manager.cpp\<close>: how the Zipper takes a failed proxy out of the
  system. A quorum of reports starts a freeze; the servers answer a freeze with the last
  number they have of the proxy; a quorum of equal answers completes it.

  The handlers run in one thread per connection, and \<^verbatim>\<open>handle_report\<close> starts a detached
  thread. Each section under the registry's lock is one operation here; what a thread has
  still to do between two sections is a task.
\<close>

section \<open>The sections under the lock\<close>

text \<open>
  \<^verbatim>\<open>handle_report\<close>: the result names the proxy for which a thread with \<^verbatim>\<open>send_freeze\<close> is
  to be started.
\<close>

definition handle_report ::
  "nat \<Rightarrow> message \<Rightarrow> registry \<Rightarrow> fault + registry \<times> node_id option" where
  "handle_report quorum msg reg =
    bind_res (get_failed_proxy msg) (\<lambda>failed.
      case reg failed of
        None \<Rightarrow> Inr (reg, None)
      | Some st \<Rightarrow>
          if ps_status st \<noteq> Active then Inr (reg, None)
          else
            let st = st\<lparr>ps_reporters := insert (sender_id msg) (ps_reporters st)\<rparr>
            in if card (ps_reporters st) < quorum then Inr (reg(failed \<mapsto> st), None)
               else Inr (reg(failed \<mapsto> st\<lparr>ps_status := Reconfiguring\<rparr>), Some failed))"

datatype task =
    Announce node_id bool
  | Read_round node_id
  | Finish node_id seq_num

text \<open>
  \<^verbatim>\<open>handle_freeze_response\<close> up to the point where it gives the lock back. The first
  element of the ordered set of last numbers is its least one.
\<close>

definition handle_freeze_response ::
  "nat \<Rightarrow> message \<Rightarrow> registry \<Rightarrow> fault + registry \<times> task option" where
  "handle_freeze_response quorum msg reg =
    bind_res (get_failed_proxy msg) (\<lambda>failed.
      case reg failed of
        None \<Rightarrow> Inr (reg, None)
      | Some st \<Rightarrow>
          bind_res (get_round msg) (\<lambda>round.
            if round \<noteq> ps_freeze_round st then Inr (reg, None)
            else bind_res (get_sequence_number msg) (\<lambda>n.
              let st = st\<lparr>ps_freeze_responders := insert (sender_id msg) (ps_freeze_responders st),
                          ps_last_sequences := insert n (ps_last_sequences st)\<rparr>;
                  reg = reg(failed \<mapsto> st)
              in if card (ps_freeze_responders st) < quorum then Inr (reg, None)
                 else if card (ps_last_sequences st) = 1
                 then Inr (reg, Some (Finish failed (Min (ps_last_sequences st))))
                 else Inr (reg, Some (Announce failed False)))))"

text \<open>The two sections of \<^verbatim>\<open>send_freeze\<close>, the second with the message to broadcast.\<close>

definition announce_freeze :: "node_id \<Rightarrow> bool \<Rightarrow> registry \<Rightarrow> fault + registry" where
  "announce_freeze failed first_round reg =
    bind_res (get_proxy failed reg) (\<lambda>st.
      let round = (if first_round then 1 else ps_freeze_round st + 1)
      in require (round < 2 ^ 31) Overflow
        (Inr (reg(failed \<mapsto> st\<lparr>ps_freeze_round := round, ps_freeze_responders := {},
                                ps_last_sequences := {}\<rparr>))))"

definition freeze_message ::
  "shard_id \<Rightarrow> shard_id \<times> node_id \<times> seq_num \<Rightarrow> node_id \<Rightarrow> registry \<Rightarrow> fault + message" where
  "freeze_message shard junk failed reg =
    (let freeze = (blank_message (code FREEZE) junk)\<lparr>shard_id := shard\<rparr>
     in bind_res (set_failed_proxy failed freeze) (\<lambda>freeze.
        bind_res (get_proxy failed reg) (\<lambda>st. set_round (of_int (ps_freeze_round st)) freeze)))"

text \<open>\<^verbatim>\<open>send_freeze_complete\<close>: the skips of the numbers not used, then the completion.\<close>

definition skip_message ::
  "shard_id \<Rightarrow> shard_id \<times> node_id \<times> seq_num \<Rightarrow> node_id \<Rightarrow> seq_num \<Rightarrow> fault + message" where
  "skip_message shard junk failed n =
    set_sequence_number n ((blank_message (code SKIP) junk)\<lparr>shard_id := shard, sender_id := failed\<rparr>)"

fun skip_messages ::
  "shard_id \<Rightarrow> shard_id \<times> node_id \<times> seq_num \<Rightarrow> node_id \<Rightarrow> seq_num \<Rightarrow> seq_num list \<Rightarrow> fault + message list" where
  "skip_messages shard junk failed last_seq [] = Inr []"
| "skip_messages shard junk failed last_seq (n # ns) =
    (if last_seq < n
     then bind_res (skip_message shard junk failed n) (\<lambda>m.
       map_res (Cons m) (skip_messages shard junk failed last_seq ns))
     else skip_messages shard junk failed last_seq ns)"

definition complete_message ::
  "shard_id \<Rightarrow> shard_id \<times> node_id \<times> seq_num \<Rightarrow> node_id \<Rightarrow> seq_num \<Rightarrow> fault + message" where
  "complete_message shard junk failed last_seq =
    bind_res (set_failed_proxy failed ((blank_message (code FREEZE_COMPLETE) junk)\<lparr>shard_id := shard\<rparr>))
      (set_sequence_number last_seq)"

definition send_freeze_complete ::
  "shard_id \<Rightarrow> shard_id \<times> node_id \<times> seq_num \<Rightarrow> node_id \<Rightarrow> seq_num \<Rightarrow> registry
    \<Rightarrow> fault + registry \<times> message list" where
  "send_freeze_complete shard junk failed last_seq reg =
    bind_res (get_proxy failed reg) (\<lambda>st.
    bind_res (skip_messages shard junk failed last_seq (ps_allocated st)) (\<lambda>skips.
    bind_res (complete_message shard junk failed last_seq) (\<lambda>fc.
      Inr (reg(failed \<mapsto> st\<lparr>ps_status := Blocked\<rparr>), skips @ [fc]))))"

text \<open>One section of a task: the new registry, what is left of the task, what is broadcast.\<close>

fun run_task ::
  "shard_id \<Rightarrow> shard_id \<times> node_id \<times> seq_num \<Rightarrow> task \<Rightarrow> registry
    \<Rightarrow> fault + registry \<times> task list \<times> message list" where
  "run_task shard junk (Announce failed first_round) reg =
    map_res (\<lambda>reg'. (reg', [Read_round failed], [])) (announce_freeze failed first_round reg)"
| "run_task shard junk (Read_round failed) reg =
    map_res (\<lambda>m. (reg, [], [m])) (freeze_message shard junk failed reg)"
| "run_task shard junk (Finish failed last_seq) reg =
    map_res (\<lambda>(reg', ms). (reg', [], ms)) (send_freeze_complete shard junk failed last_seq reg)"

section \<open>The Zipper's threads\<close>

text \<open>
  The reports and the answers received so far are kept as a history. The registry is also
  changed by rejoining proxies, new ones and allocations, at any time.
\<close>

record reconfig =
  rc_registry :: registry
  rc_tasks :: "task list"
  rc_sent :: "message list"
  rc_reports :: "(node_id \<times> node_id) set"
  rc_answers :: "(node_id \<times> int \<times> node_id \<times> seq_num) set"

definition new_reconfig :: "registry \<Rightarrow> reconfig" where
  "new_reconfig reg = \<lparr>rc_registry = reg, rc_tasks = [], rc_sent = [], rc_reports = {}, rc_answers = {}\<rparr>"

definition allocate_number :: "node_id \<Rightarrow> seq_num \<Rightarrow> registry \<Rightarrow> registry" where
  "allocate_number i n reg =
    (case reg i of None \<Rightarrow> reg | Some st \<Rightarrow> reg(i \<mapsto> st\<lparr>ps_allocated := ps_allocated st @ [n]\<rparr>))"

inductive rc_step :: "nat \<Rightarrow> shard_id \<Rightarrow> reconfig \<Rightarrow> reconfig \<Rightarrow> bool" for quorum shard where
  rc_report: "msg_type m = code REPORT \<Longrightarrow> get_failed_proxy m = Inr fp \<Longrightarrow>
    handle_report quorum m (rc_registry c) = Inr (reg', start) \<Longrightarrow>
    rc_step quorum shard c (c\<lparr>rc_registry := reg',
      rc_tasks := rc_tasks c @ (case start of None \<Rightarrow> [] | Some fp \<Rightarrow> [Announce fp True]),
      rc_reports := insert (fp, sender_id m) (rc_reports c)\<rparr>)"
| rc_answer: "msg_type m = code FREEZE_RESPONSE \<Longrightarrow> get_failed_proxy m = Inr fp \<Longrightarrow>
    get_round m = Inr r \<Longrightarrow> get_sequence_number m = Inr n \<Longrightarrow>
    handle_freeze_response quorum m (rc_registry c) = Inr (reg', next) \<Longrightarrow>
    rc_step quorum shard c (c\<lparr>rc_registry := reg',
      rc_tasks := rc_tasks c @ (case next of None \<Rightarrow> [] | Some t \<Rightarrow> [t]),
      rc_answers := insert (fp, r, sender_id m, n) (rc_answers c)\<rparr>)"
| rc_task: "i < length (rc_tasks c) \<Longrightarrow>
    run_task shard junk (rc_tasks c ! i) (rc_registry c) = Inr (reg', ts, ms) \<Longrightarrow>
    rc_step quorum shard c (c\<lparr>rc_registry := reg',
      rc_tasks := take i (rc_tasks c) @ ts @ drop (Suc i) (rc_tasks c),
      rc_sent := rc_sent c @ ms\<rparr>)"
| rc_rejoin: "rc_step quorum shard c (c\<lparr>rc_registry := rejoin_proxy i (rc_registry c)\<rparr>)"
| rc_add: "rc_step quorum shard c (c\<lparr>rc_registry := add_proxy i a (rc_registry c)\<rparr>)"
| rc_allocate: "rc_step quorum shard c (c\<lparr>rc_registry := allocate_number i n (rc_registry c)\<rparr>)"

inductive rc_reachable :: "nat \<Rightarrow> shard_id \<Rightarrow> reconfig \<Rightarrow> bool" for quorum shard where
  rc_start: "(\<forall>i st. reg i = Some st \<longrightarrow> (\<exists>a. st = fresh_proxy a)) \<Longrightarrow> rc_reachable quorum shard (new_reconfig reg)"
| rc_next: "rc_reachable quorum shard c \<Longrightarrow> rc_step quorum shard c c' \<Longrightarrow> rc_reachable quorum shard c'"

section \<open>Quorums behind every broadcast\<close>

definition reported :: "nat \<Rightarrow> reconfig \<Rightarrow> node_id \<Rightarrow> bool" where
  "reported quorum c fp \<longleftrightarrow> (\<exists>R. finite R \<and> quorum \<le> card R \<and> (\<forall>i \<in> R. (fp, i) \<in> rc_reports c))"

definition answered :: "nat \<Rightarrow> reconfig \<Rightarrow> node_id \<Rightarrow> bool" where
  "answered quorum c fp \<longleftrightarrow>
    (\<exists>r R. finite R \<and> quorum \<le> card R \<and> (\<forall>i \<in> R. \<exists>n. (fp, r, i, n) \<in> rc_answers c))"

definition agreed :: "nat \<Rightarrow> reconfig \<Rightarrow> node_id \<Rightarrow> seq_num \<Rightarrow> bool" where
  "agreed quorum c fp n \<longleftrightarrow>
    (\<exists>r R. finite R \<and> quorum \<le> card R \<and> (\<forall>i \<in> R. (fp, r, i, n) \<in> rc_answers c))"

definition justified :: "nat \<Rightarrow> reconfig \<Rightarrow> message \<Rightarrow> bool" where
  "justified quorum c m \<longleftrightarrow>
    (\<exists>fp. msg_type m = code FREEZE \<and> get_failed_proxy m = Inr fp \<and> (reported quorum c fp \<or> answered quorum c fp)) \<or>
    (\<exists>fp n. msg_type m = code FREEZE_COMPLETE \<and> get_failed_proxy m = Inr fp \<and> get_sequence_number m = Inr n \<and>
      agreed quorum c fp n) \<or>
    (\<exists>k n. msg_type m = code SKIP \<and> get_sequence_number m = Inr k \<and> n < k \<and> agreed quorum c (sender_id m) n)"

definition votes_of :: "reconfig \<Rightarrow> node_id \<Rightarrow> proxy_state \<Rightarrow> (node_id \<times> seq_num) set \<Rightarrow> bool" where
  "votes_of c fp st V \<longleftrightarrow> finite V \<and> (\<forall>(i, n) \<in> V. (fp, ps_freeze_round st, i, n) \<in> rc_answers c) \<and>
    ps_freeze_responders st = fst ` V \<and> ps_last_sequences st = snd ` V"

definition entry_inv :: "nat \<Rightarrow> reconfig \<Rightarrow> node_id \<Rightarrow> proxy_state \<Rightarrow> bool" where
  "entry_inv quorum c fp st \<longleftrightarrow>
    finite (ps_reporters st) \<and> (\<forall>i \<in> ps_reporters st. (fp, i) \<in> rc_reports c) \<and>
    (ps_status st \<noteq> Active \<longrightarrow> reported quorum c fp \<or> answered quorum c fp) \<and> (\<exists>V. votes_of c fp st V)"

fun task_inv :: "nat \<Rightarrow> reconfig \<Rightarrow> task \<Rightarrow> bool" where
  "task_inv quorum c (Announce fp first_round) = (reported quorum c fp \<or> answered quorum c fp)"
| "task_inv quorum c (Read_round fp) = (reported quorum c fp \<or> answered quorum c fp)"
| "task_inv quorum c (Finish fp n) = agreed quorum c fp n"

definition rc_inv :: "nat \<Rightarrow> reconfig \<Rightarrow> bool" where
  "rc_inv quorum c \<longleftrightarrow>
    (\<forall>fp st. rc_registry c fp = Some st \<longrightarrow> entry_inv quorum c fp st) \<and>
    (\<forall>t \<in> set (rc_tasks c). task_inv quorum c t) \<and> (\<forall>m \<in> set (rc_sent c). justified quorum c m)"

text \<open>What is known stays known as the history grows.\<close>

definition grows :: "reconfig \<Rightarrow> reconfig \<Rightarrow> bool" where
  "grows c c' \<longleftrightarrow> rc_reports c \<subseteq> rc_reports c' \<and> rc_answers c \<subseteq> rc_answers c'"

lemma grows_reports: "grows c c' \<Longrightarrow> (fp, i) \<in> rc_reports c \<Longrightarrow> (fp, i) \<in> rc_reports c'"
  unfolding grows_def by blast

lemma reported_mono: "grows c c' \<Longrightarrow> reported quorum c fp \<Longrightarrow> reported quorum c' fp"
  unfolding grows_def reported_def by blast

lemma answered_mono:
  assumes "grows c c'" and "answered quorum c fp"
  shows "answered quorum c' fp"
proof -
  obtain r R where "finite R" "quorum \<le> card R" and each: "\<forall>i \<in> R. \<exists>n. (fp, r, i, n) \<in> rc_answers c"
    using assms(2) unfolding answered_def by blast
  moreover have "\<forall>i \<in> R. \<exists>n. (fp, r, i, n) \<in> rc_answers c'"
    using each assms(1) unfolding grows_def by fast
  ultimately show ?thesis unfolding answered_def by blast
qed

lemma agreed_mono: "grows c c' \<Longrightarrow> agreed quorum c fp n \<Longrightarrow> agreed quorum c' fp n"
  unfolding grows_def agreed_def by blast

lemma agreed_answered: "agreed quorum c fp n \<Longrightarrow> answered quorum c fp"
  unfolding agreed_def answered_def by blast

lemmas known_mono = reported_mono answered_mono agreed_mono

lemma justified_mono:
  assumes "grows c c'" and "justified quorum c m"
  shows "justified quorum c' m"
  using assms(2) unfolding justified_def
  by (elim disj_forward ex_forward conj_forward) (assumption | erule known_mono [OF assms(1)])+

lemma task_inv_mono: "grows c c' \<Longrightarrow> task_inv quorum c t \<Longrightarrow> task_inv quorum c' t"
  by (cases t) (auto intro: known_mono)

lemma votes_of_mono: "grows c c' \<Longrightarrow> votes_of c fp st V \<Longrightarrow> votes_of c' fp st V"
  unfolding votes_of_def grows_def by blast

lemma entry_inv_mono: "grows c c' \<Longrightarrow> entry_inv quorum c fp st \<Longrightarrow> entry_inv quorum c' fp st"
  unfolding entry_inv_def by (intro conjI) (blast intro: known_mono votes_of_mono dest: grows_reports)+

lemma no_votes: "ps_freeze_responders st = {} \<Longrightarrow> ps_last_sequences st = {} \<Longrightarrow> votes_of c fp st {}"
  by (simp add: votes_of_def)

lemma entry_inv_fresh [intro]: "entry_inv quorum c fp (fresh_proxy a)"
  unfolding entry_inv_def by (intro conjI exI [of _ "{}"] no_votes) (simp_all add: fresh_proxy_def)

text \<open>One step: the entries that change, the tasks that appear, the messages that go out.\<close>

lemma rc_inv_step:
  assumes "rc_inv quorum c" and "grows c c'"
    and "\<And>fp st. rc_registry c' fp = Some st \<Longrightarrow> rc_registry c fp = Some st \<or> entry_inv quorum c' fp st"
    and "\<And>t. t \<in> set (rc_tasks c') \<Longrightarrow> t \<in> set (rc_tasks c) \<or> task_inv quorum c' t"
    and "\<And>m. m \<in> set (rc_sent c') \<Longrightarrow> m \<in> set (rc_sent c) \<or> justified quorum c' m"
  shows "rc_inv quorum c'"
  unfolding rc_inv_def
proof (intro conjI allI ballI impI)
  show "entry_inv quorum c' fp st" if "rc_registry c' fp = Some st" for fp st
    using assms(1) assms(3) [OF that] entry_inv_mono [OF assms(2)] unfolding rc_inv_def by blast
  show "task_inv quorum c' t" if "t \<in> set (rc_tasks c')" for t
    using assms(1) assms(4) [OF that] task_inv_mono [OF assms(2)] unfolding rc_inv_def by blast
  show "justified quorum c' m" if "m \<in> set (rc_sent c')" for m
    using assms(1) assms(5) [OF that] justified_mono [OF assms(2)] unfolding rc_inv_def by blast
qed

lemma handle_report_inv:
  assumes "rc_inv quorum c" and "get_failed_proxy m = Inr fp"
    and "handle_report quorum m (rc_registry c) = Inr (reg', start)"
    and "c' = c\<lparr>rc_registry := reg', rc_tasks := rc_tasks c @ (case start of None \<Rightarrow> [] | Some fp \<Rightarrow> [Announce fp True]),
      rc_reports := insert (fp, sender_id m) (rc_reports c)\<rparr>"
  shows "rc_inv quorum c'"
proof (cases "rc_registry c fp")
  case None
  with assms show ?thesis
    by (intro rc_inv_step [OF assms(1)]) (auto simp: handle_report_def grows_def)
next
  case (Some st)
  have grows: "grows c c'" by (auto simp: assms(4) grows_def)
  from Some assms(1) have "entry_inv quorum c fp st" by (simp add: rc_inv_def)
  then have st: "entry_inv quorum c' fp st" by (rule entry_inv_mono [OF grows])
  let ?st = "st\<lparr>ps_reporters := insert (sender_id m) (ps_reporters st)\<rparr>"
  have votes: "votes_of c' fp ?st V = votes_of c' fp st V" "votes_of c' fp (?st\<lparr>ps_status := s\<rparr>) V = votes_of c' fp st V" for V s
    by (simp_all add: votes_of_def)
  have one: "entry_inv quorum c' fp ?st"
    using st assms(4) unfolding entry_inv_def votes by auto
  show ?thesis
  proof (cases "ps_status st \<noteq> Active \<or> card (ps_reporters ?st) < quorum")
    case True
    then show ?thesis
      using assms Some one
      by (intro rc_inv_step [OF assms(1) grows]) (auto simp: handle_report_def Let_def split: if_splits)
  next
    case False
    then have "reported quorum c' fp"
      using one unfolding entry_inv_def reported_def by (intro exI [of _ "ps_reporters ?st"]) auto
    moreover from this have "entry_inv quorum c' fp (?st\<lparr>ps_status := Reconfiguring\<rparr>)"
      using one unfolding entry_inv_def votes by simp
    ultimately show ?thesis
      using False assms Some
      by (intro rc_inv_step [OF assms(1) grows]) (auto simp: handle_report_def Let_def split: if_splits)
  qed
qed

lemma votes_answered:
  assumes "votes_of c fp st V" and "quorum \<le> card (ps_freeze_responders st)"
  shows "answered quorum c fp"
    and "ps_last_sequences st = {n} \<Longrightarrow> agreed quorum c fp n"
proof -
  let ?R = "ps_freeze_responders st"
  have R: "finite ?R" using assms(1) by (simp add: votes_of_def)
  have "\<forall>i \<in> ?R. \<exists>n \<in> ps_last_sequences st. (fp, ps_freeze_round st, i, n) \<in> rc_answers c"
    using assms(1) unfolding votes_of_def by force
  then have "\<forall>i \<in> ?R. \<exists>n. (fp, ps_freeze_round st, i, n) \<in> rc_answers c"
    and "ps_last_sequences st = {n} \<Longrightarrow> \<forall>i \<in> ?R. (fp, ps_freeze_round st, i, n) \<in> rc_answers c"
    by fast+
  then show "answered quorum c fp" and "ps_last_sequences st = {n} \<Longrightarrow> agreed quorum c fp n"
    unfolding answered_def agreed_def
    by (intro exI [of _ "ps_freeze_round st"] exI [of _ ?R] conjI R assms(2); simp)+
qed

lemma handle_freeze_response_inv:
  assumes inv: "rc_inv quorum c" and fp: "get_failed_proxy m = Inr fp"
    and round: "get_round m = Inr r" and num: "get_sequence_number m = Inr n"
    and run: "handle_freeze_response quorum m (rc_registry c) = Inr (reg', next)"
    and c': "c' = c\<lparr>rc_registry := reg', rc_tasks := rc_tasks c @ (case next of None \<Rightarrow> [] | Some t \<Rightarrow> [t]),
      rc_answers := insert (fp, r, sender_id m, n) (rc_answers c)\<rparr>"
  shows "rc_inv quorum c'"
proof (cases "\<exists>st. rc_registry c fp = Some st \<and> ps_freeze_round st = r")
  case False
  then have "reg' = rc_registry c" "next = None"
    using run fp round by (auto simp: handle_freeze_response_def split: option.splits)
  then show ?thesis
    using inv c' by (intro rc_inv_step [OF inv]) (auto simp: grows_def)
next
  case True
  then obtain st where st: "rc_registry c fp = Some st" "ps_freeze_round st = r" by blast
  have grows: "grows c c'" by (auto simp: c' grows_def)
  from st(1) inv have "entry_inv quorum c fp st" by (simp add: rc_inv_def)
  then have old: "entry_inv quorum c' fp st" by (rule entry_inv_mono [OF grows])
  define st' where "st' = st\<lparr>ps_freeze_responders := insert (sender_id m) (ps_freeze_responders st),
    ps_last_sequences := insert n (ps_last_sequences st)\<rparr>"
  obtain V where "votes_of c' fp st V" using old by (auto simp: entry_inv_def)
  then have V: "votes_of c' fp st' (insert (sender_id m, n) V)"
    using st(2) by (auto simp: votes_of_def st'_def c')
  then have new: "entry_inv quorum c' fp st'"
    using old unfolding entry_inv_def st'_def by auto
  have reg': "reg' = (rc_registry c)(fp \<mapsto> st')"
    and "next": "next = (if card (ps_freeze_responders st') < quorum then None
      else if card (ps_last_sequences st') = 1 then Some (Finish fp (Min (ps_last_sequences st')))
      else Some (Announce fp False))"
    using run fp round num st by (auto simp: handle_freeze_response_def Let_def st'_def split: if_splits)
  have "task_inv quorum c' t" if "next = Some t" for t
  proof (cases "card (ps_last_sequences st') = 1")
    case True
    then obtain k where "ps_last_sequences st' = {k}" by (auto simp: card_1_singleton_iff)
    with True that "next" votes_answered(2) [OF V, of quorum k] show ?thesis
      by (auto split: if_splits)
  next
    case False
    with that "next" votes_answered(1) [OF V, of quorum] show ?thesis
      by (auto split: if_splits)
  qed
  then show ?thesis
    using new by (intro rc_inv_step [OF inv grows]) (auto simp: c' reg' split: if_splits option.splits)
qed

text \<open>The messages a task broadcasts say what the task knows.\<close>

lemmas message_defs = blank_message_def build_message_def set_failed_proxy_def set_round_def
  set_sequence_number_def get_failed_proxy_def get_sequence_number_def get_round_def

lemma freeze_message_reads:
  "freeze_message shard junk fp reg = Inr m \<Longrightarrow> msg_type m = code FREEZE \<and> get_failed_proxy m = Inr fp"
  by (auto simp: freeze_message_def message_defs Let_def get_proxy_def bind_res_eq_Inr split: option.splits)

lemma complete_message_reads:
  "\<exists>m. complete_message shard junk fp n = Inr m \<and> msg_type m = code FREEZE_COMPLETE \<and> shard_id m = shard \<and>
    get_failed_proxy m = Inr fp \<and> get_sequence_number m = Inr n"
  by (simp add: complete_message_def message_defs)

lemma skip_message_reads:
  "\<exists>m. skip_message shard junk fp n = Inr m \<and> msg_type m = code SKIP \<and> shard_id m = shard \<and>
    sender_id m = fp \<and> get_sequence_number m = Inr n"
  by (simp add: skip_message_def message_defs)

lemma skip_messages_reads:
  "\<exists>ms. skip_messages shard junk fp last_seq ns = Inr ms \<and> map get_sequence_number ms = map Inr (filter ((<) last_seq) ns) \<and>
    (\<forall>m \<in> set ms. msg_type m = code SKIP \<and> shard_id m = shard \<and> sender_id m = fp)"
proof (induction ns)
  case (Cons n ns)
  then obtain ms where "skip_messages shard junk fp last_seq ns = Inr ms"
    "map get_sequence_number ms = map Inr (filter ((<) last_seq) ns)"
    "\<forall>m \<in> set ms. msg_type m = code SKIP \<and> shard_id m = shard \<and> sender_id m = fp" by blast
  with skip_message_reads [of shard junk fp n] show ?case by (auto simp: map_res_def)
qed simp

lemma send_freeze_complete_result:
  assumes "reg fp = Some st"
  shows "\<exists>ms fc. send_freeze_complete shard junk fp last_seq reg =
      Inr (reg(fp \<mapsto> st\<lparr>ps_status := Blocked\<rparr>), ms @ [fc]) \<and>
    map get_sequence_number ms = map Inr (filter ((<) last_seq) (ps_allocated st)) \<and>
    (\<forall>m \<in> set ms. msg_type m = code SKIP \<and> shard_id m = shard \<and> sender_id m = fp) \<and>
    msg_type fc = code FREEZE_COMPLETE \<and> shard_id fc = shard \<and> get_failed_proxy fc = Inr fp \<and>
    get_sequence_number fc = Inr last_seq"
  using skip_messages_reads [of shard junk fp last_seq "ps_allocated st"]
    complete_message_reads [of shard junk fp last_seq] assms
  by (auto simp: send_freeze_complete_def get_proxy_def)

lemma finish_justified:
  assumes "agreed quorum c fp last_seq" and "send_freeze_complete shard junk fp last_seq reg = Inr (reg', ms)"
    and "m \<in> set ms"
  shows "justified quorum c m"
proof -
  obtain st where st: "reg fp = Some st"
    using assms(2) by (auto simp: send_freeze_complete_def get_proxy_def split: option.splits)
  from send_freeze_complete_result [where reg = reg and fp = fp and shard = shard and junk = junk and last_seq = last_seq, OF st] assms(2) obtain sks fc where
    ms: "ms = sks @ [fc]" "map get_sequence_number sks = map Inr (filter ((<) last_seq) (ps_allocated st))"
      "\<forall>m \<in> set sks. msg_type m = code SKIP \<and> sender_id m = fp"
    and fc: "msg_type fc = code FREEZE_COMPLETE" "get_failed_proxy fc = Inr fp" "get_sequence_number fc = Inr last_seq"
    by auto
  show ?thesis
  proof (cases "m = fc")
    case True
    with fc assms(1) show ?thesis by (auto simp: justified_def)
  next
    case False
    then have m: "m \<in> set sks" using assms(3) ms(1) by simp
    then have "get_sequence_number m \<in> set (map get_sequence_number sks)" by simp
    then obtain k where "get_sequence_number m = Inr k" "last_seq < k" unfolding ms(2) by auto
    with m ms(3) assms(1) show ?thesis by (auto simp: justified_def)
  qed
qed

lemma entry_inv_same_votes:
  assumes "entry_inv quorum c fp st"
    and "ps_status st' \<noteq> Active \<Longrightarrow> reported quorum c fp \<or> answered quorum c fp"
    and "ps_reporters st' = ps_reporters st" and "ps_freeze_round st' = ps_freeze_round st"
    and "ps_freeze_responders st' = ps_freeze_responders st" and "ps_last_sequences st' = ps_last_sequences st"
  shows "entry_inv quorum c fp st'"
  using assms by (auto simp: entry_inv_def votes_of_def)

lemma run_task_inv:
  assumes inv: "rc_inv quorum c" and i: "i < length (rc_tasks c)"
    and run: "run_task shard junk (rc_tasks c ! i) (rc_registry c) = Inr (reg', ts, ms)"
    and c': "c' = c\<lparr>rc_registry := reg', rc_tasks := take i (rc_tasks c) @ ts @ drop (Suc i) (rc_tasks c),
      rc_sent := rc_sent c @ ms\<rparr>"
  shows "rc_inv quorum c'"
proof -
  have grows: "grows c c'" by (simp add: c' grows_def)
  have task: "task_inv quorum c (rc_tasks c ! i)" using inv i by (simp add: rc_inv_def)
  have "rc_registry c fp = Some st \<or> entry_inv quorum c fp st" if "reg' fp = Some st" for fp st
  proof (cases "rc_tasks c ! i")
    case (Announce failed first_round)
    then obtain st0 r where reg: "rc_registry c failed = Some st0"
      "reg' = (rc_registry c)(failed \<mapsto> st0\<lparr>ps_freeze_round := r, ps_freeze_responders := {}, ps_last_sequences := {}\<rparr>)"
      using run by (auto simp: announce_freeze_def get_proxy_def bind_res_eq_Inr require_eq_Inr map_res_def Let_def
          split: option.splits)
    then have "entry_inv quorum c failed st0" using inv by (simp add: rc_inv_def)
    then have "entry_inv quorum c failed (st0\<lparr>ps_freeze_round := r, ps_freeze_responders := {}, ps_last_sequences := {}\<rparr>)"
      unfolding entry_inv_def by (auto intro!: exI [of _ "{}"] simp: votes_of_def)
    with that reg show ?thesis by (auto split: if_splits)
  next
    case (Read_round failed)
    with run that show ?thesis by (auto simp: map_res_def bind_res_eq_Inr)
  next
    case (Finish failed n)
    then obtain st0 where reg: "rc_registry c failed = Some st0"
      "reg' = (rc_registry c)(failed \<mapsto> st0\<lparr>ps_status := Blocked\<rparr>)"
      using run by (auto simp: send_freeze_complete_def get_proxy_def bind_res_eq_Inr map_res_def split: option.splits)
    then have "entry_inv quorum c failed st0" using inv by (simp add: rc_inv_def)
    then have "entry_inv quorum c failed (st0\<lparr>ps_status := Blocked\<rparr>)"
      by (rule entry_inv_same_votes) (use task Finish in \<open>auto intro: agreed_answered\<close>)
    with that reg show ?thesis by (auto split: if_splits)
  qed
  moreover have "\<forall>t \<in> set ts. task_inv quorum c t"
    using run task by (cases "rc_tasks c ! i") (auto simp: map_res_def bind_res_eq_Inr)
  moreover have "\<forall>m \<in> set ms. justified quorum c m"
    using run task
    by (cases "rc_tasks c ! i")
      (auto simp: map_res_def bind_res_eq_Inr justified_def dest: freeze_message_reads
        dest!: finish_justified [unfolded justified_def, rotated])
  ultimately have new: "rc_registry c' fp = Some st \<Longrightarrow> rc_registry c fp = Some st \<or> entry_inv quorum c' fp st"
    "t \<in> set (rc_tasks c') \<Longrightarrow> t \<in> set (rc_tasks c) \<or> task_inv quorum c' t"
    "m \<in> set (rc_sent c') \<Longrightarrow> m \<in> set (rc_sent c) \<or> justified quorum c' m" for fp st t m
    using entry_inv_mono [OF grows] task_inv_mono [OF grows] justified_mono [OF grows]
    by (simp_all add: c') (blast dest: in_set_takeD in_set_dropD)+
  show ?thesis by (rule rc_inv_step [OF inv grows]) (rule new, assumption)+
qed

lemma rc_inv_registry:
  assumes "rc_inv quorum c" and "\<And>fp st. reg fp = Some st \<Longrightarrow> rc_registry c fp = Some st \<or> entry_inv quorum c fp st"
  shows "rc_inv quorum (c\<lparr>rc_registry := reg\<rparr>)"
proof -
  have grows: "grows c (c\<lparr>rc_registry := reg\<rparr>)" by (simp add: grows_def)
  show ?thesis
  proof (rule rc_inv_step [OF assms(1) grows])
    fix fp st assume "rc_registry (c\<lparr>rc_registry := reg\<rparr>) fp = Some st"
    then show "rc_registry c fp = Some st \<or> entry_inv quorum (c\<lparr>rc_registry := reg\<rparr>) fp st"
      using assms(2) [of fp st] entry_inv_mono [OF grows] by auto
  qed simp_all
qed

lemma rc_inv_rc_step: "rc_step quorum shard c c' \<Longrightarrow> rc_inv quorum c \<Longrightarrow> rc_inv quorum c'"
proof (induction rule: rc_step.induct)
  case (rc_report m fp c reg' start)
  then show ?case using handle_report_inv by blast
next
  case (rc_answer m fp r n c reg' "next")
  then show ?case using handle_freeze_response_inv by blast
next
  case (rc_task i c junk reg' ts ms)
  then show ?case using run_task_inv by blast
next
  case (rc_rejoin c i)
  then show ?case
    by (intro rc_inv_registry) (auto simp: rejoin_proxy_def split: option.splits if_splits)
next
  case (rc_add c i a)
  then show ?case by (intro rc_inv_registry) (auto simp: add_proxy_def split: if_splits)
next
  case (rc_allocate c i n)
  show ?case
  proof (rule rc_inv_registry [OF rc_allocate])
    fix fp st assume "allocate_number i n (rc_registry c) fp = Some st"
    then consider "rc_registry c fp = Some st" | st0 where "fp = i" "rc_registry c i = Some st0"
        "st = st0\<lparr>ps_allocated := ps_allocated st0 @ [n]\<rparr>"
      by (auto simp: allocate_number_def split: option.splits if_splits)
    then show "rc_registry c fp = Some st \<or> entry_inv quorum c fp st"
    proof cases
      case 2
      then have st0: "entry_inv quorum c fp st0" using rc_allocate by (simp add: rc_inv_def)
      show ?thesis
        by (rule disjI2, rule entry_inv_same_votes [OF st0]) (use st0 2 in \<open>auto simp: entry_inv_def\<close>)
    qed simp
  qed
qed

lemma rc_inv_reachable: "rc_reachable quorum shard c \<Longrightarrow> rc_inv quorum c"
proof (induction rule: rc_reachable.induct)
  case (rc_start reg)
  then show ?case by (auto simp: rc_inv_def new_reconfig_def)
next
  case (rc_next c c')
  then show ?case using rc_inv_rc_step by blast
qed

text \<open>
  C9: nothing is broadcast about a proxy without a quorum behind it, under every
  interleaving of reports, answers, the sections of the freezing threads, rejoins and allocations.
  A \<^verbatim>\<open>FREEZE\<close> goes out only after a quorum of distinct servers reported the proxy or answered
  one round; a \<^verbatim>\<open>FREEZE_COMPLETE\<close> with the number \<open>n\<close> only after a quorum of distinct servers
  answered \<open>n\<close> in one round; a number is skipped only if it lies above such an \<open>n\<close>.
\<close>

theorem freeze_needs_quorums:
  assumes "rc_reachable quorum shard c" and "m \<in> set (rc_sent c)"
  shows "(msg_type m = code FREEZE \<and> (\<exists>fp. get_failed_proxy m = Inr fp \<and>
      (reported quorum c fp \<or> answered quorum c fp))) \<or>
    (msg_type m = code FREEZE_COMPLETE \<and> (\<exists>fp n. get_failed_proxy m = Inr fp \<and>
      get_sequence_number m = Inr n \<and> agreed quorum c fp n)) \<or>
    (msg_type m = code SKIP \<and> (\<exists>k n. get_sequence_number m = Inr k \<and> n < k \<and> agreed quorum c (sender_id m) n))"
  using rc_inv_reachable [OF assms(1)] assms(2) unfolding rc_inv_def justified_def by fast

section \<open>Runs\<close>

text \<open>Runs by events, to build reachable states.\<close>

datatype rc_event = Hear message | Work nat | Allocate node_id seq_num

fun rc_do :: "nat \<Rightarrow> shard_id \<Rightarrow> rc_event \<Rightarrow> reconfig \<Rightarrow> reconfig option" where
  "rc_do quorum shard (Hear m) c =
    (case (get_failed_proxy m, get_round m, get_sequence_number m) of
       (Inr fp, r, n) \<Rightarrow>
         if msg_type m = code REPORT then
           (case handle_report quorum m (rc_registry c) of
              Inr (reg', start) \<Rightarrow> Some (c\<lparr>rc_registry := reg',
                rc_tasks := rc_tasks c @ (case start of None \<Rightarrow> [] | Some fp \<Rightarrow> [Announce fp True]),
                rc_reports := insert (fp, sender_id m) (rc_reports c)\<rparr>)
            | Inl _ \<Rightarrow> None)
         else if msg_type m = code FREEZE_RESPONSE then
           (case (r, n, handle_freeze_response quorum m (rc_registry c)) of
              (Inr r, Inr n, Inr (reg', next)) \<Rightarrow> Some (c\<lparr>rc_registry := reg',
                rc_tasks := rc_tasks c @ (case next of None \<Rightarrow> [] | Some t \<Rightarrow> [t]),
                rc_answers := insert (fp, r, sender_id m, n) (rc_answers c)\<rparr>)
            | _ \<Rightarrow> None)
         else None
     | _ \<Rightarrow> None)"
| "rc_do quorum shard (Work i) c =
    (if i < length (rc_tasks c) then
       (case run_task shard (0, 0, 0) (rc_tasks c ! i) (rc_registry c) of
          Inr (reg', ts, ms) \<Rightarrow> Some (c\<lparr>rc_registry := reg',
            rc_tasks := take i (rc_tasks c) @ ts @ drop (Suc i) (rc_tasks c), rc_sent := rc_sent c @ ms\<rparr>)
        | Inl _ \<Rightarrow> None)
     else None)"
| "rc_do quorum shard (Allocate i n) c = Some (c\<lparr>rc_registry := allocate_number i n (rc_registry c)\<rparr>)"

fun rc_run :: "nat \<Rightarrow> shard_id \<Rightarrow> rc_event list \<Rightarrow> reconfig \<Rightarrow> reconfig option" where
  "rc_run quorum shard [] c = Some c"
| "rc_run quorum shard (e # es) c =
    (case rc_do quorum shard e c of None \<Rightarrow> None | Some c' \<Rightarrow> rc_run quorum shard es c')"

lemma rc_do_step: "rc_do quorum shard e c = Some c' \<Longrightarrow> rc_step quorum shard c c'"
  by (cases e) (auto split: sum.splits prod.splits if_splits intro: rc_step.intros)

lemma rc_run_reachable:
  "rc_reachable quorum shard c \<Longrightarrow> rc_run quorum shard es c = Some c' \<Longrightarrow> rc_reachable quorum shard c'"
proof (induction es arbitrary: c)
  case (Cons e es)
  then obtain c1 where "rc_do quorum shard e c = Some c1" and run: "rc_run quorum shard es c1 = Some c'"
    by (auto split: option.splits)
  then have "rc_reachable quorum shard c1"
    using Cons.prems(1) rc_next rc_do_step by blast
  then show ?case using run by (rule Cons.IH)
qed simp

definition report_from :: "node_id \<Rightarrow> node_id \<Rightarrow> message" where
  "report_from i fp = build_message (code REPORT) 0 i (ucast fp) [] []"

definition answer_from :: "node_id \<Rightarrow> node_id \<Rightarrow> seq_num \<Rightarrow> seq_num \<Rightarrow> message" where
  "answer_from i fp r n = build_message (code FREEZE_RESPONSE) 0 i r [] [ucast fp, n]"

definition one_proxy_registry :: registry where
  "one_proxy_registry = add_proxy 0 (''10.0.0.1'', 6000) Map.empty"

lemma one_proxy_registry_reachable: "rc_reachable quorum shard (new_reconfig one_proxy_registry)"
  by (rule rc_start) (auto simp: one_proxy_registry_def add_proxy_def split: if_splits)

definition completed_freeze :: "rc_event list" where
  "completed_freeze =
    [Allocate 0 5, Allocate 0 6, Allocate 0 7, Hear (report_from 0 0), Hear (report_from 1 0), Work 0, Work 0,
     Hear (answer_from 0 0 1 5), Hear (answer_from 1 0 1 5), Work 0]"

definition second_freeze :: "rc_event list" where
  "second_freeze =
    [Hear (answer_from 2 0 1 7), Work 0, Work 0,
     Hear (answer_from 0 0 2 7), Hear (answer_from 1 0 2 7), Work 0]"

lemmas rc_eval = completed_freeze_def second_freeze_def one_proxy_registry_def add_proxy_def fresh_proxy_def
  new_reconfig_def allocate_number_def report_from_def answer_from_def message_defs
  handle_report_def handle_freeze_response_def announce_freeze_def freeze_message_def get_proxy_def
  send_freeze_complete_def skip_message_def complete_message_def map_res_def Let_def to_int_def

lemma completed_freeze_run:
  "\<exists>c. rc_run 2 0 completed_freeze (new_reconfig one_proxy_registry) = Some c \<and>
    map (\<lambda>m. (msg_type m, seq_or_count m)) (rc_sent c) =
      [(code FREEZE, 1), (code SKIP, 6), (code SKIP, 7), (code FREEZE_COMPLETE, 5)]"
  by (simp add: rc_eval)

lemma second_freeze_run:
  "\<exists>c. rc_run 2 0 (completed_freeze @ second_freeze) (new_reconfig one_proxy_registry) = Some c \<and>
    rc_answers c = {(0, 1, 0, 5), (0, 1, 1, 5), (0, 1, 2, 7), (0, 2, 0, 7), (0, 2, 1, 7)} \<and>
    map (\<lambda>m. (msg_type m, seq_or_count m)) (rc_sent c) =
      [(code FREEZE, 1), (code SKIP, 6), (code SKIP, 7), (code FREEZE_COMPLETE, 5),
       (code FREEZE, 2), (code FREEZE_COMPLETE, 7)]"
  by (simp add: rc_eval insert_commute)

theorem freeze_needs_quorums_witness:
  "\<exists>c m fp n. rc_reachable 2 0 c \<and> m \<in> set (rc_sent c) \<and> msg_type m = code FREEZE_COMPLETE \<and>
    get_failed_proxy m = Inr fp \<and> get_sequence_number m = Inr n \<and> agreed 2 c fp n"
proof -
  obtain c where c: "rc_run 2 0 completed_freeze (new_reconfig one_proxy_registry) = Some c"
    and sent: "map (\<lambda>m. (msg_type m, seq_or_count m)) (rc_sent c) =
      [(code FREEZE, 1), (code SKIP, 6), (code SKIP, 7), (code FREEZE_COMPLETE, 5)]"
    by (rule exE [OF completed_freeze_run], elim conjE, rule that)
  have reach: "rc_reachable 2 0 c"
    using one_proxy_registry_reachable c by (rule rc_run_reachable)
  have "(code FREEZE_COMPLETE, 5) \<in> set (map (\<lambda>m. (msg_type m, seq_or_count m)) (rc_sent c))"
    unfolding sent by simp
  then obtain m where m: "m \<in> set (rc_sent c)" "msg_type m = code FREEZE_COMPLETE" by auto
  with freeze_needs_quorums [OF reach m(1)] reach show ?thesis by auto
qed

text \<open>
  Completing a freeze leaves no hole. Every number that was allocated to the proxy and
  lies above the agreed last one is skipped, in the order of allocation and once per allocation, with
  the proxy as the sender and before the \<^verbatim>\<open>FREEZE_COMPLETE\<close>; nothing else is
  skipped, and the proxy is then blocked, so that the allocator gives it no further slots.
\<close>

theorem completion_fills_holes:
  assumes "reg fp = Some st"
  shows "\<exists>ms fc. send_freeze_complete shard junk fp last_seq reg =
      Inr (reg(fp \<mapsto> st\<lparr>ps_status := Blocked\<rparr>), ms @ [fc]) \<and>
    map get_sequence_number ms = map Inr (filter ((<) last_seq) (ps_allocated st)) \<and>
    (\<forall>m \<in> set ms. msg_type m = code SKIP \<and> shard_id m = shard \<and> sender_id m = fp) \<and>
    msg_type fc = code FREEZE_COMPLETE \<and> get_failed_proxy fc = Inr fp \<and> get_sequence_number fc = Inr last_seq \<and>
    wanted (reg(fp \<mapsto> st\<lparr>ps_status := Blocked\<rparr>)) al fp = 0"
  using send_freeze_complete_result [of reg fp st, OF assms] by (fastforce simp: wanted_def)

definition holed_registry :: registry where
  "holed_registry = fold (allocate_number 0) [4, 6, 5, 7] one_proxy_registry"

theorem completion_fills_holes_witness:
  "\<exists>reg' ms fc. send_freeze_complete 0 (0, 0, 0) 0 5 holed_registry = Inr (reg', ms @ [fc]) \<and>
    map get_sequence_number ms = [Inr 6, Inr 7] \<and> get_sequence_number fc = Inr 5"
proof -
  have "\<exists>st. holed_registry 0 = Some st \<and> ps_allocated st = [4, 6, 5, 7]"
    by (simp add: holed_registry_def rc_eval)
  then obtain st where st: "holed_registry 0 = Some st" "ps_allocated st = [4, 6, 5, 7]" by blast
  from completion_fills_holes [of holed_registry 0 st 0 "(0, 0, 0)" 5 "new_allocator 1", OF st(1)] st(2)
  show ?thesis by auto
qed

text \<open>
  A completed freeze is not final. Nothing ends a round: \<^verbatim>\<open>handle_freeze_response\<close>
  does not look at the status, so with \<open>f = 1\<close> and three servers, each answering every
  round once (the tuples are proxy, round, server, number), the third answer of the completed round starts another round on the
  blocked proxy, which completes with another number. Numbers 6 and 7 have then been skipped by
  the first completion and are declared used by the second.
\<close>

theorem completion_not_final:
  "\<exists>c. rc_reachable 2 0 c \<and>
    rc_answers c = {(0, 1, 0, 5), (0, 1, 1, 5), (0, 1, 2, 7), (0, 2, 0, 7), (0, 2, 1, 7)} \<and>
    map (\<lambda>m. (msg_type m, seq_or_count m)) (rc_sent c) =
      [(code FREEZE, 1), (code SKIP, 6), (code SKIP, 7), (code FREEZE_COMPLETE, 5),
       (code FREEZE, 2), (code FREEZE_COMPLETE, 7)]"
proof -
  obtain c where run: "rc_run 2 0 (completed_freeze @ second_freeze) (new_reconfig one_proxy_registry) = Some c"
    and answers: "rc_answers c = {(0, 1, 0, 5), (0, 1, 1, 5), (0, 1, 2, 7), (0, 2, 0, 7), (0, 2, 1, 7)}"
    and sent: "map (\<lambda>m. (msg_type m, seq_or_count m)) (rc_sent c) =
      [(code FREEZE, 1), (code SKIP, 6), (code SKIP, 7), (code FREEZE_COMPLETE, 5),
       (code FREEZE, 2), (code FREEZE_COMPLETE, 7)]"
    by (rule exE [OF second_freeze_run], elim conjE, rule that)
  have "rc_reachable 2 0 c"
    using one_proxy_registry_reachable run by (rule rc_run_reachable)
  with answers sent show ?thesis by (intro exI [of _ c] conjI)
qed

section \<open>Reports\<close>

fun hear_reports :: "nat \<Rightarrow> message list \<Rightarrow> registry \<Rightarrow> fault + registry \<times> node_id list" where
  "hear_reports quorum [] reg = Inr (reg, [])"
| "hear_reports quorum (m # ms) reg =
    bind_res (handle_report quorum m reg) (\<lambda>(reg, start).
      map_res (\<lambda>(reg, starts). (reg, (case start of None \<Rightarrow> [] | Some fp \<Rightarrow> [fp]) @ starts)) (hear_reports quorum ms reg))"

lemma hear_reports_inactive:
  assumes "reg fp = Some st" and "ps_status st \<noteq> Active" and "\<forall>m \<in> set ms. get_failed_proxy m = Inr fp"
  shows "hear_reports quorum ms reg = Inr (reg, [])"
  using assms by (induction ms) (auto simp: handle_report_def map_res_def)

lemma hear_reports_active:
  assumes "reg fp = Some st" and "ps_status st = Active" and "\<forall>m \<in> set ms. get_failed_proxy m = Inr fp"
    and "card (ps_reporters st) < quorum" and "finite (ps_reporters st)"
  shows "\<exists>reg' st'. hear_reports quorum ms reg =
      Inr (reg', if quorum \<le> card (ps_reporters st \<union> sender_id ` set ms) then [fp] else []) \<and> reg' fp = Some st' \<and>
    ps_status st' = (if quorum \<le> card (ps_reporters st \<union> sender_id ` set ms) then Reconfiguring else Active)"
  using assms
proof (induction ms arbitrary: reg st)
  case (Cons m ms)
  let ?R = "insert (sender_id m) (ps_reporters st)"
  let ?st = "st\<lparr>ps_reporters := ?R\<rparr>"
  let ?all = "ps_reporters st \<union> sender_id ` set (m # ms)"
  have sub: "?R \<subseteq> ?all" and fin: "finite ?all" using Cons.prems(5) by auto
  show ?case
  proof (cases "card ?R < quorum")
    case True
    from Cons.IH [of "reg(fp \<mapsto> ?st)" ?st] True Cons.prems obtain reg' st' where
      "hear_reports quorum ms (reg(fp \<mapsto> ?st)) = Inr (reg', if quorum \<le> card ?all then [fp] else []) \<and>
        reg' fp = Some st' \<and> ps_status st' = (if quorum \<le> card ?all then Reconfiguring else Active)"
      by (auto simp del: fun_upd_apply simp: fun_upd_same)
    then show ?thesis
      using True Cons.prems
      by (intro exI [of _ reg'] exI [of _ st']) (simp add: handle_report_def map_res_def del: fun_upd_apply)
  next
    case False
    then have "quorum \<le> card ?all" using card_mono [OF fin sub] by linarith
    then show ?thesis
      using False Cons.prems
        hear_reports_inactive [of "reg(fp \<mapsto> ?st\<lparr>ps_status := Reconfiguring\<rparr>)" fp "?st\<lparr>ps_status := Reconfiguring\<rparr>" ms quorum]
      by (auto simp: handle_report_def map_res_def)
  qed
qed auto

text \<open>
  A freeze starts exactly once. However many servers report an active proxy, how
  often and in whatever order, \<^verbatim>\<open>handle_report\<close> starts one freeze exactly if a quorum of
  distinct servers is among them, and no other; the proxy is then being reconfigured.
\<close>

theorem freeze_starts_once:
  assumes "reg fp = Some (fresh_proxy a)" and "\<forall>m \<in> set ms. get_failed_proxy m = Inr fp" and "0 < quorum"
  shows "\<exists>reg' st'. hear_reports quorum ms reg =
      Inr (reg', if quorum \<le> card (sender_id ` set ms) then [fp] else []) \<and> reg' fp = Some st' \<and>
    ps_status st' = (if quorum \<le> card (sender_id ` set ms) then Reconfiguring else Active)"
  using hear_reports_active [of reg fp "fresh_proxy a" ms quorum] assms by (simp add: fresh_proxy_def)

theorem freeze_starts_once_witness:
  "\<exists>reg' st'. hear_reports 2 [report_from 0 0, report_from 0 0, report_from 1 0, report_from 2 0] one_proxy_registry =
    Inr (reg', [0]) \<and> reg' 0 = Some st' \<and> ps_status st' = Reconfiguring"
  using freeze_starts_once [of one_proxy_registry 0 "(''10.0.0.1'', 6000)"
      "[report_from 0 0, report_from 0 0, report_from 1 0, report_from 2 0]" 2]
  by (simp add: one_proxy_registry_def add_proxy_def report_from_def get_failed_proxy_def build_message_def)

end
