(* ===== verification/Freeze_Protocol.thy ===== *)
theory Freeze_Protocol
  imports Freeze_Handler Reconfiguration
begin

text \<open>
  The freeze of a proxy across the nodes: the Zipper of \<^verbatim>\<open>reconfig_manager.cpp\<close> and the
  servers of \<^verbatim>\<open>freeze_handler.h\<close>, with every interleaving of their steps and any loss, delay and
  repetition of messages.
\<close>

section \<open>Zipper and servers\<close>

text \<open>\<open>fz_wire\<close>: all answers that servers ever gave.\<close>

record freezing =
  fz_zipper :: reconfig
  fz_servers :: "node_id \<rightharpoonup> rounds \<times> server"
  fz_wire :: "message list"

definition came :: "message list \<Rightarrow> node_id \<times> int \<times> node_id \<times> seq_num \<Rightarrow> bool" where
  "came wire x \<longleftrightarrow> (case x of (fp, r, i, n) \<Rightarrow>
    \<exists>m \<in> set wire. sender_id m = i \<and> get_failed_proxy m = Inr fp \<and> get_sequence_number m = Inr n)"

text \<open>
  The Zipper takes any of its steps, but hears only answers that a server gave. A server handles
  any freeze of the Zipper or request of another server, with whatever the other servers send it.
\<close>

inductive fz_step :: "nat \<Rightarrow> shard_id \<Rightarrow> freezing \<Rightarrow> freezing \<Rightarrow> bool" for quorum shard where
  fz_zip: "rc_step quorum shard (fz_zipper z) c \<Longrightarrow>
    \<forall>x \<in> rc_answers c - rc_answers (fz_zipper z). came (fz_wire z) x \<Longrightarrow>
    fz_step quorum shard z (z\<lparr>fz_zipper := c\<rparr>)"
| fz_server: "fz_servers z i = Some s \<Longrightarrow> handle_freeze m from_zipper peers junk s = Inr (ms, s') \<Longrightarrow>
    fz_step quorum shard z (z\<lparr>fz_servers := (fz_servers z)(i \<mapsto> s'),
      fz_wire := fz_wire z @ (case ms of None \<Rightarrow> [] | Some (transfer, resp) \<Rightarrow> [resp])\<rparr>)"

text \<open>At first no proxy is frozen; a server is known by its id.\<close>

inductive fz_reachable :: "nat \<Rightarrow> shard_id \<Rightarrow> (node_id \<rightharpoonup> rounds \<times> server) \<Rightarrow> freezing \<Rightarrow> bool"
  for quorum shard servers where
  fz_start: "(\<forall>i st. reg i = Some st \<longrightarrow> (\<exists>a. st = fresh_proxy a)) \<Longrightarrow>
    fz_reachable quorum shard servers \<lparr>fz_zipper = new_reconfig reg, fz_servers = servers, fz_wire = []\<rparr>"
| fz_next: "fz_reachable quorum shard servers z \<Longrightarrow> fz_step quorum shard z z' \<Longrightarrow> fz_reachable quorum shard servers z'"

section \<open>The answers never change\<close>

lemma handle_freeze_answer:
  assumes "handle_freeze m from_zipper peers junk (rounds, sv) = Inr (ms, rounds', sv')"
  shows "sv_id sv' = sv_id sv \<and> last_seq p (sv_liveness sv') = last_seq p (sv_liveness sv)"
    and "ms = Some (transfer, resp) \<Longrightarrow> get_failed_proxy resp = Inr fp \<Longrightarrow> get_sequence_number resp = Inr n \<Longrightarrow>
      sender_id resp = sv_id sv \<and> n = last_seq fp (sv_liveness sv)"
proof -
  have same: "last_seq p (set_reconfiguring q lv) = last_seq p lv" for p q lv
    by (simp add: last_seq_def set_reconfiguring_def)
  show "sv_id sv' = sv_id sv \<and> last_seq p (sv_liveness sv') = last_seq p (sv_liveness sv)"
    using assms by (auto simp: handle_freeze_def Let_def bind_res_eq_Inr map_res_def same split: if_splits)
  show "sender_id resp = sv_id sv \<and> n = last_seq fp (sv_liveness sv)"
    if resp: "ms = Some (transfer, resp)" "get_failed_proxy resp = Inr fp" "get_sequence_number resp = Inr n"
  proof -
    obtain failed rnd where "freeze_response failed rnd junk
        (collect_missing failed peers (sv\<lparr>sv_liveness := set_reconfiguring failed (sv_liveness sv)\<rparr>)) = Inr resp"
      using assms resp(1) by (auto simp: handle_freeze_def Let_def bind_res_eq_Inr map_res_def split: if_splits)
    with resp(2,3) show ?thesis
      by (auto simp: freeze_response_def fh_message_defs bind_res_eq_Inr require_eq_Inr Let_def same)
  qed
qed

definition numbers_of :: "(node_id \<rightharpoonup> rounds \<times> server) \<Rightarrow> node_id \<Rightarrow> node_id \<Rightarrow> seq_num option" where
  "numbers_of servers fp i = map_option (\<lambda>(rounds, sv). last_seq fp (sv_liveness sv)) (servers i)"

definition named :: "(node_id \<rightharpoonup> rounds \<times> server) \<Rightarrow> bool" where
  "named servers \<longleftrightarrow> (\<forall>i rounds sv. servers i = Some (rounds, sv) \<longrightarrow> sv_id sv = i)"

definition fz_inv :: "nat \<Rightarrow> shard_id \<Rightarrow> (node_id \<rightharpoonup> rounds \<times> server) \<Rightarrow> freezing \<Rightarrow> bool" where
  "fz_inv quorum shard servers z \<longleftrightarrow>
    rc_reachable quorum shard (fz_zipper z) \<and> named (fz_servers z) \<and>
    (\<forall>fp. numbers_of (fz_servers z) fp = numbers_of servers fp) \<and>
    (\<forall>m \<in> set (fz_wire z). \<forall>fp n. get_failed_proxy m = Inr fp \<longrightarrow> get_sequence_number m = Inr n \<longrightarrow>
      numbers_of servers fp (sender_id m) = Some n) \<and>
    (\<forall>(fp, r, i, n) \<in> rc_answers (fz_zipper z). numbers_of servers fp i = Some n)"

lemma fz_inv_step:
  assumes "fz_inv quorum shard servers z" and "fz_step quorum shard z z'"
  shows "fz_inv quorum shard servers z'"
  using assms(2)
proof cases
  case (fz_zip c)
  have "rc_reachable quorum shard c"
    using assms(1) fz_zip(2) by (auto simp: fz_inv_def intro: rc_next)
  moreover have "numbers_of servers fp i = Some n" if "(fp, r, i, n) \<in> rc_answers c" for fp r i n
  proof (cases "(fp, r, i, n) \<in> rc_answers (fz_zipper z)")
    case True
    with assms(1) show ?thesis by (auto simp: fz_inv_def)
  next
    case False
    with that fz_zip(3) have "came (fz_wire z) (fp, r, i, n)" by blast
    then obtain m where "m \<in> set (fz_wire z)" "sender_id m = i" "get_failed_proxy m = Inr fp"
      "get_sequence_number m = Inr n"
      by (auto simp: came_def)
    with assms(1) show ?thesis by (auto simp: fz_inv_def)
  qed
  ultimately show ?thesis
    using assms(1) by (auto simp: fz_inv_def fz_zip(1))
next
  case (fz_server i s m from_zipper peers junk ms s')
  obtain rounds sv rounds' sv' where s: "s = (rounds, sv)" "s' = (rounds', sv')" by (cases s; cases s')
  note answer = handle_freeze_answer [OF fz_server(3) [unfolded s]]
  have i: "sv_id sv = i" using assms(1) fz_server(2) s by (auto simp: fz_inv_def named_def)
  have "named (fz_servers z')"
    using assms(1) i answer(1) by (auto simp: fz_server(1) fz_inv_def named_def s)
  moreover have "numbers_of (fz_servers z') fp = numbers_of (fz_servers z) fp" for fp
    using answer(1) fz_server(2) by (auto simp: numbers_of_def fun_eq_iff fz_server(1) s)
  moreover have "numbers_of servers fp (sender_id m) = Some n"
    if "m \<in> set (fz_wire z')" "get_failed_proxy m = Inr fp" "get_sequence_number m = Inr n" for m fp n
  proof (cases "m \<in> set (fz_wire z)")
    case True
    with that assms(1) show ?thesis by (auto simp: fz_inv_def)
  next
    case False
    with that(1) obtain transfer where "ms = Some (transfer, m)"
      by (auto simp: fz_server(1) split: option.splits)
    from answer(2) [OF this that(2,3)] i have "sender_id m = i" "n = last_seq fp (sv_liveness sv)" by simp_all
    moreover have "numbers_of (fz_servers z) fp i = Some (last_seq fp (sv_liveness sv))"
      using fz_server(2) s by (simp add: numbers_of_def)
    ultimately show ?thesis
      using assms(1) by (simp add: fz_inv_def)
  qed
  moreover have "fz_zipper z' = fz_zipper z" by (simp add: fz_server(1))
  ultimately show ?thesis
    using assms(1) unfolding fz_inv_def by simp
qed

lemma fz_inv_reachable:
  assumes "fz_reachable quorum shard servers z" and "named servers"
  shows "fz_inv quorum shard servers z"
  using assms(1)
proof induction
  case (fz_start reg)
  with assms(2) rc_start [OF fz_start] show ?case by (simp add: fz_inv_def) (simp add: new_reconfig_def)
next
  case (fz_next z z')
  show ?case by (rule fz_inv_step [OF fz_next(3,2)])
qed



text \<open>Two servers that disagree on the last number of proxy 0, and a quorum of two.\<close>

definition server_with :: "node_id \<Rightarrow> seq_num \<Rightarrow> server" where
  "server_with i n = sample_server\<lparr>sv_id := i, sv_liveness := (new_liveness 5000 1 i)\<lparr>last_used := [0 \<mapsto> n]\<rparr>\<rparr>"

definition disagreeing :: "node_id \<rightharpoonup> rounds \<times> server" where
  "disagreeing = [0 \<mapsto> (Map.empty, server_with 0 5), 1 \<mapsto> (Map.empty, server_with 1 7)]"

lemma disagreeing_facts:
  "named disagreeing" "\<forall>n. card {i. numbers_of disagreeing 0 i = Some n} < 2"
proof -
  show "named disagreeing"
    by (auto simp: named_def disagreeing_def server_with_def split: if_splits)
  have "{i. numbers_of disagreeing 0 i = Some n} \<subseteq> {if n = 5 then 0 else 1}" for n
    by (auto simp: numbers_of_def disagreeing_def server_with_def last_seq_def split: if_splits)
  then have "card {i. numbers_of disagreeing 0 i = Some n} \<le> card {if n = 5 then 0 else 1 :: node_id}" for n
    by (intro card_mono) simp_all
  then show "\<forall>n. card {i. numbers_of disagreeing 0 i = Some n} < 2"
    by (simp add: less_2_cases_iff le_Suc_eq)
qed

text \<open>A run of the Zipper that hears no answer.\<close>

lemma fz_run:
  assumes "fz_reachable quorum shard servers z" and "rc_run quorum shard es (fz_zipper z) = Some c"
    and "\<forall>m. Hear m \<in> set es \<longrightarrow> msg_type m = code REPORT"
  shows "fz_reachable quorum shard servers (z\<lparr>fz_zipper := c\<rparr>)"
  using assms
proof (induction es arbitrary: z)
  case Nil
  moreover have "z\<lparr>fz_zipper := fz_zipper z\<rparr> = z" by simp
  ultimately show ?case unfolding rc_run.simps option.inject by metis
next
  case (Cons e es)
  obtain c1 where 1: "rc_do quorum shard e (fz_zipper z) = Some c1" "rc_run quorum shard es c1 = Some c"
    using Cons.prems(2) by (auto split: option.splits)
  have "rc_answers c1 = rc_answers (fz_zipper z)"
    using 1(1) Cons.prems(3) by (cases e) (auto split: sum.splits prod.splits if_splits)
  then have "fz_reachable quorum shard servers (z\<lparr>fz_zipper := c1\<rparr>)"
    using fz_next [OF Cons.prems(1) fz_zip [OF rc_do_step [OF 1(1)]]] by simp
  from Cons.IH [OF this] 1(2) Cons.prems(3) show ?case by simp
qed


end
