(* ===== verification/Connection_Pool.thy ===== *)
theory Connection_Pool
  imports Address Framing
begin

text \<open>
  \<^verbatim>\<open>include/connection_pool.h\<close> and the making of connections in
  \<^verbatim>\<open>api/network_utils.cpp\<close>: a node keeps one socket per peer and reuses it as long as it is alive.
  What the operating system answers to each call is an input; the descriptors of the process are
  a map, which says of each open socket the peer it is connected to.
\<close>

declare split_paired_All [simp del] split_paired_Ex [simp del]

section \<open>Sockets\<close>

type_synonym descriptors = "int \<rightharpoonup> address option"

text \<open>
  \<open>os_peek\<close>: the result of the peeking \<^verbatim>\<open>recv\<close> and whether \<^verbatim>\<open>errno\<close> says that it would
  block; \<open>os_socket\<close>: the result of \<^verbatim>\<open>socket\<close>, given the open descriptors; \<open>os_connect\<close>: whether
  \<^verbatim>\<open>connect\<close> succeeds.
\<close>

record os =
  os_peek :: "int \<Rightarrow> int \<times> bool"
  os_socket :: "descriptors \<Rightarrow> int"
  os_connect :: "address \<Rightarrow> bool"

text \<open>What POSIX promises of \<^verbatim>\<open>socket\<close>: the descriptor it gives is not open.\<close>

definition fresh_sockets :: "os \<Rightarrow> bool" where
  "fresh_sockets os \<longleftrightarrow> (\<forall>fds. 0 \<le> os_socket os fds \<longrightarrow> fds (os_socket os fds) = None)"

definition close_fd :: "int \<Rightarrow> descriptors \<Rightarrow> descriptors" where
  "close_fd s fds = fds(s := None)"

definition create_connector_socket :: "os \<Rightarrow> descriptors \<Rightarrow> int \<times> descriptors" where
  "create_connector_socket os fds =
    (let s = os_socket os fds in if s < 0 then (-1, fds) else (s, fds(s \<mapsto> None)))"

definition connect_to_address :: "os \<Rightarrow> int \<Rightarrow> address \<Rightarrow> descriptors \<Rightarrow> bool \<times> descriptors" where
  "connect_to_address os s a fds = (if os_connect os a then (True, fds(s \<mapsto> Some a)) else (False, fds))"

definition connect_to_address_persistent :: "os \<Rightarrow> address \<Rightarrow> descriptors \<Rightarrow> int \<times> descriptors" where
  "connect_to_address_persistent os a fds =
    (let (s, fds) = create_connector_socket os fds in
     if s < 0 then (-1, fds)
     else let (ok, fds) = connect_to_address os s a fds in
       if \<not> ok then (-1, close_fd s fds) else (s, fds))"

text \<open>
  \<^verbatim>\<open>create_listening_socket\<close>: the further answers of the system are those of \<^verbatim>\<open>setsockopt\<close>,
  \<^verbatim>\<open>bind\<close> and \<^verbatim>\<open>listen\<close>; a listening socket has no peer.
\<close>

definition create_listening_socket :: "os \<Rightarrow> bool \<Rightarrow> bool \<Rightarrow> bool \<Rightarrow> bool \<Rightarrow> descriptors \<Rightarrow> int \<times> descriptors" where
  "create_listening_socket os reuse_addr reuse_ok bind_ok listen_ok fds =
    (let s = os_socket os fds in
     if s < 0 then (-1, fds)
     else
       let fds = fds(s \<mapsto> None) in
       if reuse_addr \<and> \<not> reuse_ok then (-1, close_fd s fds)
       else if \<not> bind_ok then (-1, close_fd s fds)
       else if \<not> listen_ok then (-1, close_fd s fds)
       else (s, fds))"

lemma listening_socket_or_nothing:
  assumes "fresh_sockets os" and "create_listening_socket os reuse_addr reuse_ok bind_ok listen_ok fds = (s, fds')"
  shows "s = -1 \<and> fds' = fds \<or> 0 \<le> s \<and> fds s = None \<and> fds' = fds(s \<mapsto> None) \<and> bind_ok \<and> listen_ok"
proof -
  have "close_fd (os_socket os fds) (fds(os_socket os fds \<mapsto> None)) = fds" if "0 \<le> os_socket os fds"
    using assms(1) that by (auto simp: fresh_sockets_def close_fd_def fun_eq_iff)
  with assms show ?thesis
    by (auto simp: create_listening_socket_def fresh_sockets_def Let_def split: if_splits)
qed

section \<open>The pool\<close>

type_synonym pool = "address \<rightharpoonup> int"

definition socket_alive :: "os \<Rightarrow> int \<Rightarrow> bool" where
  "socket_alive os s =
    (let (result, would_block) = os_peek os s in
     if result = 0 then False else if result < 0 \<and> \<not> would_block then False else True)"

definition new_connection :: "os \<Rightarrow> address \<Rightarrow> pool \<times> descriptors \<Rightarrow> int \<times> pool \<times> descriptors" where
  "new_connection os a st =
    (let (pool, fds) = st; (s, fds) = connect_to_address_persistent os a fds
     in if s < 0 then (-1, pool, fds) else (s, pool(a \<mapsto> s), fds))"

definition get_connection :: "os \<Rightarrow> address \<Rightarrow> pool \<times> descriptors \<Rightarrow> int \<times> pool \<times> descriptors" where
  "get_connection os a st =
    (let (pool, fds) = st in
     case pool a of
       None \<Rightarrow> new_connection os a (pool, fds)
     | Some s \<Rightarrow>
         if socket_alive os s then (s, pool, fds)
         else new_connection os a (pool(a := None), close_fd s fds))"

definition close_connection :: "address \<Rightarrow> pool \<times> descriptors \<Rightarrow> pool \<times> descriptors" where
  "close_connection a st =
    (let (pool, fds) = st in
     case pool a of None \<Rightarrow> (pool, fds) | Some s \<Rightarrow> (pool(a := None), close_fd s fds))"

definition close_all :: "pool \<times> descriptors \<Rightarrow> pool \<times> descriptors" where
  "close_all st = (let (pool, fds) = st in (Map.empty, \<lambda>s. if s \<in> ran pool then None else fds s))"

lemmas new_connection_defs = new_connection_def connect_to_address_persistent_def
  create_connector_socket_def connect_to_address_def close_fd_def Let_def

text \<open>Any sequence of calls; an answer is kept with the peer of the socket when it was given.\<close>

datatype pool_op = Get os address | Close address | Close_all

fun run_pool ::
  "pool_op list \<Rightarrow> pool \<times> descriptors \<Rightarrow> (address \<times> int \<times> address option option) list \<times> pool \<times> descriptors" where
  "run_pool [] st = ([], st)"
| "run_pool (Get os a # ops) st =
    (let (s, st) = get_connection os a st; (rs, st') = run_pool ops st in ((a, s, snd st s) # rs, st'))"
| "run_pool (Close a # ops) st = run_pool ops (close_connection a st)"
| "run_pool (Close_all # ops) st = run_pool ops (close_all st)"

section \<open>Ownership\<close>

definition pool_ok :: "pool \<Rightarrow> descriptors \<Rightarrow> bool" where
  "pool_ok pool fds \<longleftrightarrow> (\<forall>a s. pool a = Some s \<longrightarrow> 0 \<le> s \<and> fds s = Some (Some a))"

text \<open>
  \<open>keeps\<close>: from the first state to the second no descriptor of others changed, and none
  was opened that is not in the pool.
\<close>

definition keeps :: "pool \<times> descriptors \<Rightarrow> pool \<times> descriptors \<Rightarrow> bool" where
  "keeps st st' \<longleftrightarrow>
    (\<forall>s. s \<notin> ran (fst st) \<longrightarrow> snd st s \<noteq> None \<longrightarrow> snd st' s = snd st s \<and> s \<notin> ran (fst st')) \<and>
    (\<forall>s. snd st' s \<noteq> None \<longrightarrow> s \<in> ran (fst st') \<or> s \<notin> ran (fst st) \<and> snd st s \<noteq> None)"

lemma keeps_refl [simp]: "keeps st st"
  by (simp add: keeps_def)

lemma keeps_trans [trans]: "keeps st st' \<Longrightarrow> keeps st' st'' \<Longrightarrow> keeps st st''"
  unfolding keeps_def by metis

lemma pool_ok_other: "pool_ok pool fds \<Longrightarrow> pool a = Some s \<Longrightarrow> pool b = Some s \<Longrightarrow> a = b"
  unfolding pool_ok_def by (metis option.inject)

lemma drop_connection:
  assumes "pool_ok pool fds" and "pool a = Some s"
  shows "pool_ok (pool(a := None)) (close_fd s fds)" and "keeps (pool, fds) (pool(a := None), close_fd s fds)"
proof -
  have other: "pool b \<noteq> Some s" if "b \<noteq> a" for b
    using pool_ok_other [OF assms(1) assms(2)] that by blast
  then show "pool_ok (pool(a := None)) (close_fd s fds)"
    using assms(1) by (auto simp: pool_ok_def close_fd_def)
  have "ran (pool(a := None)) = ran pool - {s}"
    using assms(2) other by (auto simp: ran_def) (metis option.inject)+
  then show "keeps (pool, fds) (pool(a := None), close_fd s fds)"
    using assms(2) by (auto simp: keeps_def close_fd_def ran_def)
qed

lemma new_connection_ok:
  assumes "pool_ok pool fds" and "pool a = None" and "fresh_sockets os"
    and "new_connection os a (pool, fds) = (s, pool', fds')"
  shows "pool_ok pool' fds'" and "keeps (pool, fds) (pool', fds')" and "s = -1 \<or> fds' s = Some (Some a) \<and> 0 \<le> s"
proof -
  let ?s = "os_socket os fds"
  have unused: "?s \<notin> ran pool" "fds ?s = None" if "0 \<le> ?s"
    using assms(1,3) that by (force simp: fresh_sockets_def pool_ok_def ran_def)+
  consider "s = -1" "pool' = pool" "fds' = fds" | "0 \<le> ?s" "s = ?s" "pool' = pool(a \<mapsto> ?s)" "fds' = fds(?s \<mapsto> Some a)"
  proof (cases "0 \<le> ?s")
    case True
    have "new_connection os a (pool, fds) =
        (if os_connect os a then (?s, pool(a \<mapsto> ?s), fds(?s \<mapsto> Some a)) else (-1, pool, fds(?s := None)))"
      using True by (simp add: new_connection_defs)
    also have "fds(?s := None) = fds" using unused(2) [OF True] by (rule fun_upd_idem)
    finally have result: "new_connection os a (pool, fds) =
        (if os_connect os a then (?s, pool(a \<mapsto> ?s), fds(?s \<mapsto> Some a)) else (-1, pool, fds))" .
    show ?thesis
    proof (cases "os_connect os a")
      case yes: True
      show ?thesis using result assms(4) yes by (intro that(2) [OF True]) simp_all
    next
      case False
      show ?thesis using result assms(4) False by (intro that(1)) simp_all
    qed
  next
    case False
    then have "new_connection os a (pool, fds) = (-1, pool, fds)"
      by (simp add: new_connection_defs)
    with assms(4) show ?thesis by (intro that(1)) simp_all
  qed
  then have "pool_ok pool' fds' \<and> keeps (pool, fds) (pool', fds') \<and> (s = -1 \<or> fds' s = Some (Some a) \<and> 0 \<le> s)"
  proof cases
    case 1
    then show ?thesis using assms(1) by simp
  next
    case 2
    note u = unused [OF 2(1)]
    have ran: "ran (pool(a \<mapsto> ?s)) = insert ?s (ran pool)" using assms(2) by (rule ran_map_upd)
    have "pool_ok pool' fds'"
      using assms(1) u(1) 2(1) unfolding pool_ok_def 2(3,4) ran_def by simp
    moreover have "keeps (pool, fds) (pool', fds')"
      using u unfolding keeps_def fst_conv snd_conv 2(3,4) ran by simp
    ultimately show ?thesis using 2 by simp
  qed
  then show "pool_ok pool' fds'" and "keeps (pool, fds) (pool', fds')" and "s = -1 \<or> fds' s = Some (Some a) \<and> 0 \<le> s"
    by simp_all
qed

lemma get_connection_ok:
  assumes "pool_ok pool fds" and "fresh_sockets os" and "get_connection os a (pool, fds) = (s, pool', fds')"
  shows "pool_ok pool' fds'" and "keeps (pool, fds) (pool', fds')" and "s = -1 \<or> fds' s = Some (Some a) \<and> 0 \<le> s"
proof -
  have "pool_ok pool' fds' \<and> keeps (pool, fds) (pool', fds') \<and> (s = -1 \<or> fds' s = Some (Some a) \<and> 0 \<le> s)"
  proof (cases "pool a")
    case None
    with assms new_connection_ok [OF assms(1) None assms(2)] show ?thesis
      by (simp add: get_connection_def)
  next
    case (Some s0)
    show ?thesis
    proof (cases "socket_alive os s0")
      case True
      with Some assms show ?thesis unfolding pool_ok_def by (simp add: get_connection_def)
    next
      case False
      note dropped = drop_connection [OF assms(1) Some]
      have "new_connection os a (pool(a := None), close_fd s0 fds) = (s, pool', fds')"
        using Some False assms(3) by (simp add: get_connection_def)
      from new_connection_ok [OF dropped(1) _ assms(2) this] dropped(2) show ?thesis
        by (auto intro: keeps_trans)
    qed
  qed
  then show "pool_ok pool' fds'" and "keeps (pool, fds) (pool', fds')" and "s = -1 \<or> fds' s = Some (Some a) \<and> 0 \<le> s"
    by simp_all
qed

lemma close_connection_ok:
  assumes "pool_ok pool fds" and "close_connection a (pool, fds) = (pool', fds')"
  shows "pool_ok pool' fds' \<and> keeps (pool, fds) (pool', fds')"
proof (cases "pool a")
  case None
  with assms show ?thesis by (auto simp: close_connection_def)
next
  case (Some s)
  with assms drop_connection [OF assms(1) Some] show ?thesis by (simp add: close_connection_def)
qed

lemma close_all_ok:
  assumes "close_all (pool, fds) = (pool', fds')"
  shows "pool_ok pool' fds' \<and> keeps (pool, fds) (pool', fds')"
  using assms by (auto simp: close_all_def pool_ok_def keeps_def split: if_splits)

text \<open>
  C23: the pool owns its sockets and nothing else. Over any sequence of calls, whatever
  the system answers: a socket it gives out is connected to the peer that was asked for, no two
  peers share one, no socket that belongs to others is closed, and none that the pool opened is
  lost without being closed; after \<^verbatim>\<open>close_all\<close> exactly the sockets of others are open.
\<close>

theorem pool_owns_its_sockets:
  assumes "pool_ok pool fds" and "\<forall>os a. Get os a \<in> set ops \<longrightarrow> fresh_sockets os"
    and "run_pool ops (pool, fds) = (rs, pool', fds')"
  shows "(\<forall>(a, s, peer) \<in> set rs. s = -1 \<or> peer = Some (Some a)) \<and>
    (\<forall>a s. pool' a = Some s \<longrightarrow> fds' s = Some (Some a)) \<and> inj_on pool' (dom pool') \<and>
    (\<forall>s. s \<notin> ran pool \<and> fds s \<noteq> None \<longrightarrow> fds' s = fds s) \<and>
    snd (close_all (pool', fds')) = snd (close_all (pool, fds))"
proof -
  have "(\<forall>(a, s, peer) \<in> set rs. s = -1 \<or> peer = Some (Some a)) \<and> pool_ok pool' fds' \<and> keeps (pool, fds) (pool', fds')"
    using assms
  proof (induction ops arbitrary: pool fds rs)
    case (Cons e ops)
    have later: "\<forall>os a. Get os a \<in> set ops \<longrightarrow> fresh_sockets os"
      using Cons.prems(2) by auto
    show ?case
    proof (cases e)
      case (Get os a)
      obtain s pool1 fds1 where 1: "get_connection os a (pool, fds) = (s, pool1, fds1)"
        by (cases "get_connection os a (pool, fds)") auto
      obtain rs1 where 2: "run_pool ops (pool1, fds1) = (rs1, pool', fds')" "rs = (a, s, fds1 s) # rs1"
        using Cons.prems(3) Get 1 by (auto split: prod.splits)
      have "fresh_sockets os" using Cons.prems(2) Get by auto
      note ok = get_connection_ok [OF Cons.prems(1) this 1]
      from Cons.IH [OF ok(1) later 2(1)] keeps_trans [OF ok(2)] ok(3) 2(2) show ?thesis
        by auto
    next
      case (Close a)
      obtain pool1 fds1 where 1: "close_connection a (pool, fds) = (pool1, fds1)" by fastforce
      have 2: "run_pool ops (pool1, fds1) = (rs, pool', fds')" using Cons.prems(3) Close 1 by simp
      note ok = conjunct1 [OF close_connection_ok [OF Cons.prems(1) 1]] conjunct2 [OF close_connection_ok [OF Cons.prems(1) 1]]
      from Cons.IH [OF ok(1) later 2] keeps_trans [OF ok(2)] show ?thesis by simp
    next
      case Close_all
      obtain pool1 fds1 where 1: "close_all (pool, fds) = (pool1, fds1)" by fastforce
      have 2: "run_pool ops (pool1, fds1) = (rs, pool', fds')" using Cons.prems(3) Close_all 1 by simp
      note ok = conjunct1 [OF close_all_ok [OF 1]] conjunct2 [OF close_all_ok [OF 1]]
      from Cons.IH [OF ok(1) later 2] keeps_trans [OF ok(2)] show ?thesis by simp
    qed
  qed simp
  moreover from this have "inj_on pool' (dom pool')"
    unfolding inj_on_def dom_def by (metis (mono_tags) mem_Collect_eq not_None_eq pool_ok_other)
  moreover from calculation have "snd (close_all (pool', fds')) = snd (close_all (pool, fds))"
    unfolding keeps_def by (auto simp: close_all_def fun_eq_iff) (metis not_None_eq)+
  ultimately show ?thesis
    by (auto simp: pool_ok_def keeps_def)
qed

text \<open>A system that gives the least free descriptor above the standard ones.\<close>

definition small_os :: "bool \<Rightarrow> os" where
  "small_os alive =
    \<lparr>os_peek = (\<lambda>s. (if alive then -1 else 0, True)),
     os_socket = (\<lambda>fds. if fds 3 = None then 3 else if fds 4 = None then 4 else -1), os_connect = (\<lambda>_. True)\<rparr>"

theorem pool_owns_its_sockets_witness:
  "run_pool [Get (small_os True) (''127.0.0.1'', 1), Get (small_os True) (''127.0.0.1'', 1),
      Get (small_os False) (''127.0.0.1'', 1)] (Map.empty, [3 \<mapsto> None]) =
    ([((''127.0.0.1'', 1), 4, Some (Some (''127.0.0.1'', 1))), ((''127.0.0.1'', 1), 4, Some (Some (''127.0.0.1'', 1))),
      ((''127.0.0.1'', 1), 4, Some (Some (''127.0.0.1'', 1)))],
     [(''127.0.0.1'', 1) \<mapsto> 4], [3 \<mapsto> None, 4 \<mapsto> Some (''127.0.0.1'', 1)]) \<and>
    snd (close_all ([(''127.0.0.1'', 1) \<mapsto> 4], [3 \<mapsto> None, 4 \<mapsto> Some (''127.0.0.1'', 1)])) =
      snd (close_all (Map.empty, [3 \<mapsto> None]))"
proof -
  let ?a = "(''127.0.0.1'', 1) :: address"
  have run: "run_pool [Get (small_os True) ?a, Get (small_os True) ?a, Get (small_os False) ?a] (Map.empty, [3 \<mapsto> None]) =
    ([(?a, 4, Some (Some ?a)), (?a, 4, Some (Some ?a)), (?a, 4, Some (Some ?a))], [?a \<mapsto> 4], [3 \<mapsto> None, 4 \<mapsto> Some ?a])"
    by (simp add: small_os_def get_connection_def new_connection_def connect_to_address_persistent_def
        create_connector_socket_def connect_to_address_def socket_alive_def close_fd_def)
  have "pool_ok Map.empty [3 \<mapsto> None]" by (simp add: pool_ok_def)
  moreover have "\<forall>os a. Get os a \<in> set [Get (small_os True) ?a, Get (small_os True) ?a, Get (small_os False) ?a] \<longrightarrow> fresh_sockets os"
    by (auto simp: small_os_def fresh_sockets_def)
  ultimately show ?thesis
    using pool_owns_its_sockets [OF _ _ run] run by blast
qed


section \<open>Request and response\<close>

text \<open>
  The two helpers of \<^verbatim>\<open>api/network_utils.cpp\<close>. \<open>accepted\<close> is what \<^verbatim>\<open>sendmsg\<close> takes and \<open>evs\<close> what
  arrives; \<open>None\<close> is a wait for ever.
\<close>

definition send_message_and_wait_for_ack ::
  "int \<Rightarrow> message \<Rightarrow> socket_in \<Rightarrow> (fault + bool \<times> socket_in) option" where
  "send_message_and_wait_for_ack accepted msg evs =
    (if \<not> snd (send_message accepted msg) then Some (Inr (False, evs))
     else case recv_message evs of
       None \<Rightarrow> None
     | Some (Inl e) \<Rightarrow> Some (Inl e)
     | Some (Inr (None, evs)) \<Rightarrow> Some (Inr (False, evs))
     | Some (Inr (Some resp, evs)) \<Rightarrow>
         Some (if msg_type resp \<noteq> code ACK then Inr (False, evs)
               else bind_res (get_sequence_number msg) (\<lambda>n.
                 bind_res (get_sequence_number resp) (\<lambda>k. Inr (n = k, evs)))))"

record attempt =
  at_os :: os
  at_accepted :: int
  at_arrivals :: socket_in

text \<open>
  \<^verbatim>\<open>send_message_to_address\<close>: one attempt after the other until a connection is made. The result has
  the images sent, the answer and the response.
\<close>

fun send_message_to_address ::
  "attempt list \<Rightarrow> address \<Rightarrow> message \<Rightarrow> message \<Rightarrow> descriptors
    \<Rightarrow> (fault + byte list list \<times> bool \<times> message \<times> descriptors) option" where
  "send_message_to_address [] a msg resp fds = Some (Inr ([], False, resp, fds))"
| "send_message_to_address (t # ts) a msg resp fds =
    (let (s, fds) = create_connector_socket (at_os t) fds in
     if s < 0 then send_message_to_address ts a msg resp fds
     else
       let (ok, fds) = connect_to_address (at_os t) s a fds in
       if \<not> ok then send_message_to_address ts a msg resp (close_fd s fds)
       else
         let (out, sent) = send_message (at_accepted t) msg in
         if \<not> sent then Some (Inr ([out], False, resp, close_fd s fds))
         else case recv_message (at_arrivals t) of
           None \<Rightarrow> None
         | Some (Inl e) \<Rightarrow> Some (Inl e)
         | Some (Inr (None, _)) \<Rightarrow> Some (Inr ([out], False, resp, close_fd s fds))
         | Some (Inr (Some r, _)) \<Rightarrow> Some (Inr ([out], True, r, close_fd s fds)))"

text \<open>
  A request is sent over one connection at most: attempts are repeated only before anything was sent, so
  a lost answer is not followed by a second copy of the request. Every socket is closed again.
\<close>

lemma sent_once:
  assumes "\<forall>t \<in> set ts. fresh_sockets (at_os t)"
    and "send_message_to_address ts a msg resp fds = Some (Inr (outs, ok, resp', fds'))"
  shows "length outs \<le> 1 \<and> fds' = fds \<and> (ok \<longrightarrow> outs \<noteq> [])"
  using assms
proof (induction ts a msg resp fds rule: send_message_to_address.induct)
  case (2 t ts a msg resp fds)
  let ?s = "os_socket (at_os t) fds"
  show ?case
  proof (cases "?s < 0")
    case True
    then have "create_connector_socket (at_os t) fds = (-1, fds)" by (simp add: create_connector_socket_def)
    with 2 show ?thesis by simp
  next
    case False
    then have s: "create_connector_socket (at_os t) fds = (?s, fds(?s \<mapsto> None))" "fds ?s = None"
      using "2.prems"(1) by (simp_all add: create_connector_socket_def Let_def fresh_sockets_def)
    have closed: "close_fd ?s (fds(?s \<mapsto> x)) = fds" for x
      using s(2) by (simp add: close_fd_def fun_eq_iff)
    show ?thesis
    proof (cases "os_connect (at_os t) a")
      case True
      then have "connect_to_address (at_os t) ?s a (fds(?s \<mapsto> None)) = (True, fds(?s \<mapsto> Some a))"
        by (simp add: connect_to_address_def)
      with "2.prems"(2) s(1) False closed show ?thesis
        by (auto split: option.splits sum.splits prod.splits if_splits)
    next
      case no: False
      then have "connect_to_address (at_os t) ?s a (fds(?s \<mapsto> None)) = (False, fds(?s \<mapsto> None))"
        by (simp add: connect_to_address_def)
      with 2(2) [OF s(1) [symmetric] refl _ this [symmetric] refl] "2.prems" s(1) False closed show ?thesis
        by simp
    qed
  qed
qed simp

end
