(* ===== verification/Client.thy ===== *)
theory Client
  imports Connection_Pool Proxy Log_Tracker
begin

text \<open>
  \<^verbatim>\<open>impl/client/client.cpp\<close>: a client appends commands through its proxy, one request
  and one answer at a time over a connection of its pool. What the system does is an input of each
  call: the time, the answers of the system for the sockets, how much of the request is taken, and,
  should a connection be made, what arrives on it.
\<close>

section \<open>State and operations\<close>

record client =
  cl_proxy :: address
  cl_pool :: pool
  cl_rb :: read_buffer

record call =
  ca_time :: timestamp
  ca_os :: os
  ca_accepted :: int
  ca_arrivals :: socket_in

definition PAD_SIZE :: nat where "PAD_SIZE = 4096 - 28 - 21"

text \<open>The padding is random and the same for all commands of a process.\<close>

definition make_benchmark_payload :: "command \<Rightarrow> timestamp \<Rightarrow> command" where
  "make_benchmark_payload padding t = string_to_command (show_nat (unat t) @ ''|'') @ padding"

definition append_image :: "command \<Rightarrow> timestamp \<Rightarrow> byte list" where
  "append_image padding t =
    (let d = make_benchmark_payload padding t
     in build_wire_bytes (code APPEND) 0 0 0 (Some d) (length d))"

definition break_off :: "client \<Rightarrow> descriptors \<Rightarrow> client \<times> descriptors" where
  "break_off c fds =
    (let (pool, fds) = close_connection (cl_proxy c) (cl_pool c, fds) in (c\<lparr>cl_pool := pool\<rparr>, fds))"

text \<open>
  \<^verbatim>\<open>append\<close>: its argument is not used. \<open>None\<close> when it waits for ever. The result has the
  bytes written, the answer, and the new state.
\<close>

definition client_append ::
  "command \<Rightarrow> command \<Rightarrow> call \<Rightarrow> client \<times> descriptors \<times> socket_in
    \<Rightarrow> (fault + byte list \<times> bool \<times> client \<times> descriptors \<times> socket_in) option" where
  "client_append padding cmd ca st =
    (let (c, fds, evs) = st;
         reused = (case cl_pool c (cl_proxy c) of None \<Rightarrow> False | Some s \<Rightarrow> socket_alive (ca_os ca) s);
         (sock, pool, fds) = get_connection (ca_os ca) (cl_proxy c) (cl_pool c, fds);
         c = c\<lparr>cl_pool := pool\<rparr>;
         evs = (if reused then evs else ca_arrivals ca)
     in if sock < 0 then Some (Inr ([], False, c, fds, evs))
        else
          let (out, ok) = send_bytes_raw (ca_accepted ca) (append_image padding (ca_time ca)) in
          if \<not> ok then let (c, fds) = break_off c fds in Some (Inr (out, False, c, fds, evs))
          else case recv_raw_buffered (cl_rb c) evs of
              None \<Rightarrow> None
            | Some (None, rb, evs) \<Rightarrow>
                let (c, fds) = break_off (c\<lparr>cl_rb := rb\<rparr>) fds in Some (Inr (out, False, c, fds, evs))
            | Some (Some msg_len, rb, evs) \<Rightarrow>
                Some (map_res (\<lambda>header.
                    (out, header \<noteq> None \<and> h_type (the header) = code SUCCESS,
                     c\<lparr>cl_rb := consume (2 + msg_len) rb\<rparr>, fds, evs))
                  (peek_header_at (rb_buf rb) (rb_head rb + 2) msg_len)))"

text \<open>\<^verbatim>\<open>bulk_append\<close>: the single answers, and whether all were good.\<close>

fun append_each ::
  "command \<Rightarrow> (command \<times> call) list \<Rightarrow> client \<times> descriptors \<times> socket_in
    \<Rightarrow> (fault + bool list \<times> client \<times> descriptors \<times> socket_in) option" where
  "append_each padding [] st = Some (Inr ([], st))"
| "append_each padding ((cmd, ca) # cs) st =
    (case client_append padding cmd ca st of
       None \<Rightarrow> None
     | Some (Inl e) \<Rightarrow> Some (Inl e)
     | Some (Inr (out, ok, st)) \<Rightarrow> map_option (map_res (\<lambda>(oks, st). (ok # oks, st))) (append_each padding cs st))"

definition client_bulk_append ::
  "command \<Rightarrow> (command \<times> call) list \<Rightarrow> client \<times> descriptors \<times> socket_in
    \<Rightarrow> (fault + bool \<times> client \<times> descriptors \<times> socket_in) option" where
  "client_bulk_append padding cs st =
    map_option (map_res (\<lambda>(oks, st). (length (filter id oks) = length cs, st))) (append_each padding cs st)"

definition update_proxy :: "address \<Rightarrow> client \<times> descriptors \<Rightarrow> client \<times> descriptors" where
  "update_proxy a st =
    (let (c, fds) = st; (pool, fds) = close_all (cl_pool c, fds)
     in (c\<lparr>cl_pool := pool, cl_proxy := a\<rparr>, fds))"

section \<open>The command\<close>

lemma digit_byte:
  assumes "digit c"
  shows "unat (of_nat (of_char c) :: byte) - 48 = digit_value c" and "is_digit (of_nat (of_char c))"
    and "(of_nat (of_char c) :: byte) \<noteq> 124"
proof -
  have "unat (of_nat (of_char c) :: byte) = of_char c"
    using assms by (simp add: digit_def unat_of_nat_eq)
  then show "unat (of_nat (of_char c) :: byte) - 48 = digit_value c" and "is_digit (of_nat (of_char c))"
    and "(of_nat (of_char c) :: byte) \<noteq> 124"
    using assms by (auto simp: digit_value_def is_digit_def digit_def word_le_nat_alt)
qed

lemma digits_value_decimal:
  assumes "list_all digit ds"
  shows "digits_value (string_to_command ds) = decimal ds"
proof -
  have "foldl (\<lambda>a b. 10 * a + (unat b - 48)) n (string_to_command ds) =
      foldl (\<lambda>n c. 10 * n + digit_value c) n ds" for n
    using assms by (induction ds arbitrary: n) (simp_all add: string_to_command_def digit_byte)
  then show ?thesis by (simp add: digits_value_def decimal_def)
qed

lemma stamp_of_payload:
  "stamp (make_benchmark_payload padding t) = Some (string_to_command (show_nat (unat t)))"
proof -
  let ?ds = "show_nat (unat t)"
  have digits: "list_all digit ?ds" "?ds \<noteq> []" using show_nat_digits by auto
  have all: "list_all is_digit (string_to_command ?ds)" "124 \<notin> set (string_to_command ?ds)"
    using digits(1) by (auto simp: string_to_command_def list_all_iff dest: digit_byte) (metis digit_byte(3))
  have payload: "make_benchmark_payload padding t = string_to_command ?ds @ 124 # padding"
    by (simp add: make_benchmark_payload_def string_to_command_def)
  have "takeWhile (\<lambda>b. b \<noteq> 124) (make_benchmark_payload padding t) = string_to_command ?ds"
    unfolding payload using all(2) by (subst takeWhile_append2) auto
  with all(1) digits(2) show ?thesis
    by (simp add: stamp_def payload string_to_command_def)
qed

lemma length_show_nat: "n < 10 ^ Suc k \<Longrightarrow> length (show_nat n) \<le> Suc k"
proof (induction k arbitrary: n)
  case 0
  then show ?case by (simp add: show_nat.simps [of n])
next
  case (Suc k)
  show ?case
  proof (cases "n < 10")
    case True
    then show ?thesis by (simp add: show_nat.simps [of n])
  next
    case False
    have "n div 10 < 10 ^ Suc k" using Suc.prems by (simp add: less_mult_imp_div_less)
    from Suc.IH [OF this] False show ?thesis by (simp add: show_nat.simps [of n])
  qed
qed

lemma payload_length:
  assumes "length padding = PAD_SIZE"
  shows "length (make_benchmark_payload padding t) \<le> 4068"
proof -
  have "unat t < 2 ^ LENGTH(64)" by (rule unsigned_less)
  then have "length (show_nat (unat t)) \<le> 20" using length_show_nat [of "unat t" 19] by simp
  with assms show ?thesis by (simp add: make_benchmark_payload_def string_to_command_def PAD_SIZE_def)
qed

lemma append_image_frame:
  "append_image padding t = frame (plain (code APPEND) 0 0 0 (make_benchmark_payload padding t))"
  by (simp add: append_image_def build_wire_plain)





section \<open>Answers\<close>

lemma peek_in_frame:
  assumes "chunk p (2 + length body) mem = frame body" and "p + 2 + length body \<le> length mem"
  shows "peek_header_at mem (p + 2) (length body) = peek_header_at body 0 (length body)"
proof (cases "length body < HEADER_SIZE")
  case True
  then show ?thesis by (simp add: peek_header_at_def)
next
  case False
  have four: "(get_be 4 mem (p + 2 + off) :: fault + u32) = get_be 4 body off" if "off \<le> 8" for off
    using get_be_frame [OF assms, of off 4] that False by (simp add: HEADER_SIZE_def)
  have eight: "(get_be 8 mem (p + 2 + 12) :: fault + u64) = get_be 8 body 12"
    using get_be_frame [OF assms, of 12 8] False by (simp add: HEADER_SIZE_def)
  show ?thesis
    using four [of 0] four [of 4] four [of 8] unfolding peek_header_at_def eight by (simp del: add_2_eq_Suc add_2_eq_Suc')
qed

lemma code_eq_2 [simp]: "code t = 2 \<longleftrightarrow> t = SUCCESS"
  by (cases t) simp_all

text \<open>One append whose connection delivers a whole frame next.\<close>

lemma append_reads:
  assumes "get_connection (ca_os ca) (cl_proxy c) (cl_pool c, fds) = (s, pool, fds')" and "0 \<le> s"
    and "ca_accepted ca = int (length (append_image padding (ca_time ca)))"
    and "arrivals = (if (case cl_pool c (cl_proxy c) of None \<Rightarrow> False | Some s \<Rightarrow> socket_alive (ca_os ca) s)
      then evs else ca_arrivals ca)"
    and "rb_inv (cl_rb c)" and "proper arrivals" and "stream (cl_rb c) arrivals = frame body @ rest"
    and "length body \<le> safe_body"
  shows "\<exists>rb evs'. client_append padding cmd ca (c, fds, evs) =
      Some (map_res (\<lambda>header. (append_image padding (ca_time ca), header \<noteq> None \<and> h_type (the header) = code SUCCESS,
          c\<lparr>cl_pool := pool, cl_rb := rb\<rparr>, fds', evs')) (peek_header_at body 0 (length body))) \<and>
    rb_inv rb \<and> proper evs' \<and> stream rb evs' = rest"
proof -
  from receive_frame [OF assms(5,6,7,8)] obtain rb evs' where
    r: "recv_raw_buffered (cl_rb c) arrivals = Some (Some (length body), rb, evs')" "rb_inv rb" "proper evs'"
      "2 + length body \<le> available rb" "stream rb evs' = frame body @ rest"
    by blast
  have "rb_head rb + 2 + length body \<le> length (rb_buf rb)"
    using r(2,4) unfolding rb_inv_def available_def by linarith
  then have "peek_header_at (rb_buf rb) (rb_head rb + 2) (length body) = peek_header_at body 0 (length body)"
    by (rule peek_in_frame [OF frame_in_buffer [OF r(2,5,4)]])
  moreover have "rb_inv (consume (2 + length body) rb)" "stream (consume (2 + length body) rb) evs' = rest"
    using consume_keeps [OF r(2,4)] r(5) by (simp_all add: frame_def)
  ultimately show ?thesis
    using assms(1-3) r(1,3)
    by (intro exI [of _ "consume (2 + length body) rb"] exI [of _ evs'])
      (simp add: client_append_def send_bytes_raw_def Let_def flip: assms(4))
qed

text \<open>The connection to the proxy is alive and takes the whole request.\<close>

definition good_call :: "command \<Rightarrow> client \<Rightarrow> call \<Rightarrow> bool" where
  "good_call padding c ca \<longleftrightarrow> ca_accepted ca = int (length (append_image padding (ca_time ca))) \<and>
    (\<exists>s. cl_pool c (cl_proxy c) = Some s \<and> 0 \<le> s \<and> socket_alive (ca_os ca) s)"

lemma peek_answer:
  "peek_header_at (plain (code t) sh sd 0 []) 0 (length (plain (code t) sh sd 0 [])) =
    Inr (Some \<lparr>h_type = code t, h_shard = sh, h_sender = sd, h_seq = 0\<rparr>)"
  using peek_in_frame [of 0 "plain (code t) sh sd 0 []" "frame (plain (code t) sh sd 0 [])"]
    layout_in_place(1) [of 0 "plain (code t) sh sd 0 []" "frame (plain (code t) sh sd 0 [])", OF _ _ plain_def]
  by (simp add: chunk_def)

lemma append_each_answers:
  assumes "length cs = length answers" and "\<forall>(cmd, ca) \<in> set cs. good_call padding c ca"
    and "rb_inv (cl_rb c)" and "proper evs"
    and "stream (cl_rb c) evs = concat (map (\<lambda>(t, sh, sd). frame (plain (code t) sh sd 0 [])) answers) @ rest"
  shows "\<exists>rb evs'. append_each padding cs (c, fds, evs) =
      Some (Inr (map (\<lambda>a. fst a = SUCCESS) answers, c\<lparr>cl_rb := rb\<rparr>, fds, evs')) \<and>
    rb_inv rb \<and> proper evs' \<and> stream rb evs' = rest"
  using assms
proof (induction cs answers arbitrary: c evs rule: list_induct2)
  case Nil
  then show ?case by (intro exI [of _ "cl_rb c"]) simp
next
  case (Cons e cs a answers)
  obtain cmd ca where e: "e = (cmd, ca)" by (cases e)
  obtain t sh sd where a: "a = (t, sh, sd)" by (cases a)
  let ?b = "plain (code t) sh sd 0 []"
  let ?rest = "concat (map (\<lambda>(t, sh, sd). frame (plain (code t) sh sd 0 [])) answers) @ rest"
  obtain s where s: "cl_pool c (cl_proxy c) = Some s" "0 \<le> s" "socket_alive (ca_os ca) s"
    and acc: "ca_accepted ca = int (length (append_image padding (ca_time ca)))"
    using Cons.prems(1) by (auto simp: e good_call_def)
  have "get_connection (ca_os ca) (cl_proxy c) (cl_pool c, fds) = (s, cl_pool c, fds)"
    using s by (simp add: get_connection_def)
  moreover have "stream (cl_rb c) evs = frame ?b @ ?rest" using Cons.prems(4) by (simp add: a)
  moreover have "length ?b \<le> safe_body" by (simp add: safe_body_def CAPACITY_def MAX_MESSAGE_SIZE_def)
  moreover have "evs = (if (case cl_pool c (cl_proxy c) of None \<Rightarrow> False | Some s \<Rightarrow> socket_alive (ca_os ca) s)
      then evs else ca_arrivals ca)" using s by simp
  ultimately obtain rb evs1 where 1: "client_append padding cmd ca (c, fds, evs) =
      Some (map_res (\<lambda>header. (append_image padding (ca_time ca), header \<noteq> None \<and> h_type (the header) = code SUCCESS,
          c\<lparr>cl_pool := cl_pool c, cl_rb := rb\<rparr>, fds, evs1)) (peek_header_at ?b 0 (length ?b)))"
    "rb_inv rb" "proper evs1" "stream rb evs1 = ?rest"
    using append_reads [OF _ s(2) acc _ Cons.prems(2)] Cons.prems(3) by blast
  note peek_answer [of t sh sd]
  then have first: "client_append padding cmd ca (c, fds, evs) =
      Some (Inr (append_image padding (ca_time ca), t = SUCCESS, c\<lparr>cl_rb := rb\<rparr>, fds, evs1))"
    using 1(1) by simp
  have later: "\<forall>(cmd, ca) \<in> set cs. good_call padding (c\<lparr>cl_rb := rb\<rparr>) ca"
    using Cons.prems(1) by (auto simp: good_call_def)
  have "\<exists>rb' evs'. append_each padding cs (c\<lparr>cl_rb := rb\<rparr>, fds, evs1) =
      Some (Inr (map (\<lambda>a. fst a = SUCCESS) answers, c\<lparr>cl_rb := rb'\<rparr>, fds, evs')) \<and>
      rb_inv rb' \<and> proper evs' \<and> stream rb' evs' = rest"
    using Cons.IH [OF later, of evs1] 1(2-4) by simp
  then obtain rb' evs' where "append_each padding cs (c\<lparr>cl_rb := rb\<rparr>, fds, evs1) =
      Some (Inr (map (\<lambda>a. fst a = SUCCESS) answers, c\<lparr>cl_rb := rb'\<rparr>, fds, evs'))" "rb_inv rb'" "proper evs'" "stream rb' evs' = rest"
    by (elim exE conjE)
  with first show ?case by (intro exI [of _ rb'] exI [of _ evs']) (simp add: e a)
qed

text \<open>
  Answers are matched with requests by their order alone. As long as the connection
  holds and no bytes are left over from before, the \<open>k\<close>-th append is successful exactly
  when the \<open>k\<close>-th answer on the stream has the type \<^verbatim>\<open>SUCCESS\<close>, however the stream is split
  into reads.
\<close>

theorem answers_in_order:
  assumes "length cs = length answers" and "\<forall>(cmd, ca) \<in> set cs. good_call padding c ca"
    and "rb_inv (cl_rb c)" and "proper evs"
    and "stream (cl_rb c) evs = concat (map (\<lambda>(t, sh, sd). frame (plain (code t) sh sd 0 [])) answers) @ rest"
  shows "\<exists>rb evs'. append_each padding cs (c, fds, evs) =
      Some (Inr (map (\<lambda>a. fst a = SUCCESS) answers, c\<lparr>cl_rb := rb\<rparr>, fds, evs')) \<and>
    stream rb evs' = rest"
  using append_each_answers [OF assms] by blast

text \<open>A call on a small system, and a client that has a connection.\<close>

definition call_at :: "command \<Rightarrow> timestamp \<Rightarrow> socket_in \<Rightarrow> call" where
  "call_at padding t evs =
    \<lparr>ca_time = t, ca_os = small_os True, ca_accepted = int (length (append_image padding t)), ca_arrivals = evs\<rparr>"

definition new_client :: "address \<Rightarrow> client" where
  "new_client a = \<lparr>cl_proxy = a, cl_pool = Map.empty, cl_rb = fresh_buffer (replicate CAPACITY 0)\<rparr>"

definition answer :: "message_type \<Rightarrow> byte list" where
  "answer t = plain (code t) 0 0 0 []"

theorem answers_in_order_witness:
  "\<exists>rb evs'. append_each [] [([1], call_at [] 5 []), ([2], call_at [] 6 [])]
      ((new_client (''10.0.0.1'', 80))\<lparr>cl_pool := [(''10.0.0.1'', 80) \<mapsto> 3]\<rparr>, Map.empty,
       [Data (frame (answer SUCCESS) @ frame (answer FAILURE))]) =
    Some (Inr ([True, False], (new_client (''10.0.0.1'', 80))
      \<lparr>cl_pool := [(''10.0.0.1'', 80) \<mapsto> 3], cl_rb := rb\<rparr>, Map.empty, evs'))"
proof -
  let ?c = "(new_client (''10.0.0.1'', 80))\<lparr>cl_pool := [(''10.0.0.1'', 80) \<mapsto> 3]\<rparr>"
  let ?cs = "[([1], call_at [] 5 []), ([2], call_at [] 6 [])] :: (command \<times> call) list"
  let ?evs = "[Data (frame (answer SUCCESS) @ frame (answer FAILURE))]"
  have "\<forall>(cmd, ca) \<in> set ?cs. good_call [] ?c ca"
    by (simp add: good_call_def call_at_def new_client_def socket_alive_def small_os_def)
  moreover have "rb_inv (cl_rb ?c)" by (simp add: new_client_def rb_inv_fresh)
  moreover have "proper ?evs" by (simp add: proper_Cons) (simp add: proper_def)
  moreover have "stream (cl_rb ?c) ?evs =
      concat (map (\<lambda>(t, sh, sd). frame (plain (code t) sh sd 0 [])) [(SUCCESS, 0, 0), (FAILURE, 0, 0)]) @ []"
    by (simp add: new_client_def answer_def)
  ultimately show ?thesis
    using answers_in_order [of ?cs "[(SUCCESS, 0, 0), (FAILURE, 0, 0)]" "[]" ?c ?evs "[]" Map.empty] by simp blast
qed

section \<open>Bytes of an old connection\<close>

text \<open>A connection that is closed within an answer leaves the bytes that came in the buffer.\<close>

lemma recv_spin_closed:
  "Closed \<in> set evs \<Longrightarrow> \<exists>ok rb' evs'. recv_spin rb evs = Some (ok, rb', evs') \<and> (ok \<longrightarrow> Closed \<in> set evs')"
  by (induction rb evs rule: recv_spin.induct) (auto simp: Let_def unread_event_def)

lemma fill_to_short:
  assumes "rb_inv rb" and "proper evs" and "Closed \<in> set evs" and "length (stream rb evs) < need"
    and "need \<le> CAPACITY - CAPACITY div 2"
  shows "\<exists>rb' evs'. fill_to need rb evs = Some (False, rb', evs') \<and> rb_inv rb' \<and> pending rb' = stream rb evs"
  using assms
proof (induction need rb evs rule: fill_to.induct)
  case (1 need rb evs)
  have short: "available rb < need"
    using "1.prems"(1,4) by (simp add: stream_def)
  note shift = shift_down_facts [OF "1.prems"(1)]
  have room: "rb_tail (shift_down rb) < CAPACITY"
    using shift short "1.prems"(5) by (simp add: rb_inv_def available_def)
  obtain ok rb1 evs1 where step: "recv_spin (shift_down rb) evs = Some (ok, rb1, evs1)" "ok \<longrightarrow> Closed \<in> set evs1"
    using recv_spin_closed [OF "1.prems"(3)] by blast
  have keep: "rb_inv rb1" "stream rb1 evs1 = stream rb evs" "proper evs1"
    using recv_spin_keeps [OF step(1) shift(1)] shift(2) "1.prems"(2) by (auto simp: stream_def)
  show ?case
  proof (cases ok)
    case True
    then have "fill_to need rb evs = fill_to need rb1 evs1"
      using short step by (simp add: fill_to.simps [of need rb evs] refill_spin_def)
    moreover have "\<exists>rb' evs'. fill_to need rb1 evs1 = Some (False, rb', evs') \<and> rb_inv rb' \<and> pending rb' = stream rb1 evs1"
      using short True step keep "1.prems"(4,5) by (intro "1.IH") (simp_all add: refill_spin_def)
    ultimately show ?thesis using keep by simp
  next
    case False
    then have "arriving evs = []"
      using step(1) room "1.prems"(2) recv_spin_progress by force
    moreover have "rb1 = shift_down rb"
      using step(1) False by (induction "shift_down rb" evs rule: recv_spin.induct) (auto simp: Let_def split: if_splits)
    ultimately show ?thesis
      using short step(1) False shift by (simp add: fill_to.simps [of need rb evs] refill_spin_def stream_def)
  qed
qed


lemma fill_to_closed:
  "fill_to need rb evs = Some (True, rb', evs') \<Longrightarrow> Closed \<in> set evs \<Longrightarrow> Closed \<in> set evs'"
proof (induction need rb evs rule: fill_to.induct)
  case (1 need rb evs)
  show ?case
  proof (cases "available rb < need")
    case True
    obtain ok rb1 evs1 where step: "recv_spin (shift_down rb) evs = Some (ok, rb1, evs1)" "ok \<longrightarrow> Closed \<in> set evs1"
      using recv_spin_closed [OF "1.prems"(2)] by blast
    with "1.prems" True "1.IH" [OF True, of "(ok, rb1, evs1)" ok "(rb1, evs1)" rb1 evs1] show ?thesis
      by (cases ok) (simp_all add: fill_to.simps [of need rb evs] refill_spin_def)
  next
    case False
    with "1.prems" show ?thesis by (simp add: fill_to.simps [of need rb evs])
  qed
qed

lemma receive_cut:
  assumes "rb_inv rb" and "proper evs" and "Closed \<in> set evs" and "stream rb evs = take k (frame body)"
    and "2 \<le> k" and "k < 2 + length body" and "length body \<le> safe_body"
  shows "\<exists>rb' evs'. recv_raw_buffered rb evs = Some (None, rb', evs') \<and> rb_inv rb' \<and> pending rb' = take k (frame body)"
proof -
  have len: "length body \<le> MAX_MESSAGE_SIZE" "2 + length body \<le> CAPACITY - CAPACITY div 2"
    using assms(7) by (simp_all add: safe_body_def CAPACITY_def MAX_MESSAGE_SIZE_def)
  obtain rb1 evs1 where 1: "fill_to 2 rb evs = Some (True, rb1, evs1)" "rb_inv rb1" "proper evs1"
    "stream rb1 evs1 = take k (frame body)" "2 \<le> available rb1"
    using fill_to_enough [OF assms(1,2), of 2] assms(4-6) len by auto
  have "chunk (rb_head rb1) 2 (rb_buf rb1) = chunk 0 2 (take k (frame body))"
    using chunk_stream [OF 1(2), of 0 2 evs1] 1(4,5) by simp
  also have "\<dots> = be_bytes 2 (of_nat (length body) :: u16)"
    using assms(5) by (simp add: chunk_def frame_def)
  finally have "frame_length rb1 = length body"
    using len by (simp add: frame_length_def unat_of_nat_eq MAX_MESSAGE_SIZE_def)
  moreover obtain rb' evs' where "fill_to (2 + length body) rb1 evs1 = Some (False, rb', evs')" "rb_inv rb'"
    "pending rb' = take k (frame body)"
    using fill_to_short [OF 1(2,3) fill_to_closed [OF 1(1) assms(3)], of "2 + length body"] 1(4) assms(6) len by auto
  ultimately show ?thesis
    using 1(1) len by (simp add: recv_raw_buffered_def Let_def)
qed

lemma answer_bytes:
  "frame (answer SUCCESS) = [0, 28, 0, 0, 0, 2] @ replicate 24 0"
  "frame (answer FAILURE) = [0, 28, 0, 0, 0, 3] @ replicate 24 0"
  by code_simp+


text \<open>The first call connects and is cut off.\<close>

lemma cut_call:
  assumes "proper evs" and "Closed \<in> set evs" and "arriving evs = take 2 (frame (answer SUCCESS))"
  shows "\<exists>rb evs' out. client_append padding cmd (call_at padding t evs) (new_client a, Map.empty, []) =
      Some (Inr (out, False, (new_client a)\<lparr>cl_rb := rb\<rparr>, Map.empty, evs')) \<and>
    rb_inv rb \<and> pending rb = [0, 28]"
proof -
  have len: "length (answer SUCCESS) = 28" by (simp add: answer_def)
  have "rb_inv (cl_rb (new_client a))" by (simp add: new_client_def rb_inv_fresh)
  moreover have "stream (cl_rb (new_client a)) evs = take 2 (frame (answer SUCCESS))"
    using assms(3) by (simp add: new_client_def)
  ultimately obtain rb evs' where r: "recv_raw_buffered (cl_rb (new_client a)) evs = Some (None, rb, evs')" "rb_inv rb"
    "pending rb = take 2 (frame (answer SUCCESS))"
    using receive_cut [OF _ assms(1,2), of "cl_rb (new_client a)" 2 "answer SUCCESS"] len
    by (auto simp: safe_body_def CAPACITY_def MAX_MESSAGE_SIZE_def)
  have "get_connection (small_os True) a (Map.empty, Map.empty) = (3, [a \<mapsto> 3], [3 \<mapsto> Some a])"
    by (simp add: get_connection_def new_connection_defs small_os_def)
  moreover have "cl_proxy (new_client a) = a" "cl_pool (new_client a) = Map.empty" by (simp_all add: new_client_def)
  ultimately show ?thesis
    using r by (intro exI [of _ rb] exI [of _ evs'] exI [of _ "append_image padding t"])
      (simp add: client_append_def call_at_def send_bytes_raw_def break_off_def close_connection_def close_fd_def
        answer_bytes Let_def)
qed


lemma misread_bytes:
  "[0, 28] @ frame (answer SUCCESS) = frame (0 # 28 # 0 # 0 # 0 # 2 # replicate 22 0) @ [0, 0]"
  "[0, 0] @ xs = frame [] @ xs"
  "peek_header_at (0 # 28 # 0 # 0 # 0 # 2 # replicate 22 0) 0 28 =
    Inr (Some \<lparr>h_type = 0x1C0000, h_shard = 0x20000, h_sender = 0, h_seq = 0\<rparr>)"
  "peek_header_at (answer SUCCESS) 0 28 = Inr (Some \<lparr>h_type = 2, h_shard = 0, h_sender = 0, h_seq = 0\<rparr>)"
proof -
  show "[0, 0] @ xs = frame [] @ xs" by (simp add: frame_def numeral_2_eq_2)
qed (code_simp)+

text \<open>
  Bytes of a broken connection are taken for the beginning of the next. When a
  connection is closed after the two length bytes of an answer, they stay in the
  client's buffer, which is not reset with the connection. On the new connection the answer to
  the second append, though \<^verbatim>\<open>SUCCESS\<close>, is read shifted by two bytes and reported as a failure, so
  is the third, and from then on every append gets the answer of the one before: the fourth, which
  the proxy could not replicate, is reported as successful.
\<close>

theorem stale_bytes_shift_answers:
  assumes "proper evs1" and "Closed \<in> set evs1" and "arriving evs1 = take 2 (frame (answer SUCCESS))"
    and "proper evs2" and "arriving evs2 = frame (answer SUCCESS) @ frame (answer SUCCESS) @ frame (answer FAILURE)"
  shows "\<exists>evs' c fds. append_each padding
      [(c1, call_at padding t1 evs1), (c2, call_at padding t2 evs2), (c3, call_at padding t3 []), (c4, call_at padding t4 [])]
      (new_client a, Map.empty, []) = Some (Inr ([False, False, False, True], c, fds, evs')) \<and>
    stream (cl_rb c) evs' = frame (answer FAILURE)"
proof -
  let ?S = "frame (answer SUCCESS)" and ?F = "frame (answer FAILURE)"
  obtain rb1 ev out1 where 1: "client_append padding c1 (call_at padding t1 evs1) (new_client a, Map.empty, []) =
      Some (Inr (out1, False, (new_client a)\<lparr>cl_rb := rb1\<rparr>, Map.empty, ev))" "rb_inv rb1" "pending rb1 = [0, 28]"
    using cut_call [OF assms(1-3)] by blast
  have new: "cl_proxy (new_client a) = a" "cl_pool (new_client a) = Map.empty" by (simp_all add: new_client_def)
  have call: "ca_os (call_at padding t evs) = small_os True" "ca_arrivals (call_at padding t evs) = evs"
    "ca_accepted (call_at padding t evs) = int (length (append_image padding (ca_time (call_at padding t evs))))" for t evs
    by (simp_all add: call_at_def)
  have alive: "socket_alive (small_os True) 3" by (simp add: socket_alive_def small_os_def)
  have connect: "get_connection (small_os True) a (Map.empty, Map.empty) = (3, [a \<mapsto> 3], [3 \<mapsto> Some a])"
    by (simp add: get_connection_def new_connection_defs small_os_def)
  have reuse: "get_connection (small_os True) a ([a \<mapsto> 3], [3 \<mapsto> Some a]) = (3, [a \<mapsto> 3], [3 \<mapsto> Some a])"
    using alive by (simp add: get_connection_def)
  have small: "28 \<le> safe_body" "0 \<le> safe_body" by (simp_all add: safe_body_def CAPACITY_def MAX_MESSAGE_SIZE_def)
  have len: "length (answer SUCCESS) = 28" by (simp add: answer_def)
  let ?c = "\<lambda>rb. (new_client a)\<lparr>cl_pool := [a \<mapsto> 3], cl_rb := rb\<rparr>"
  let ?b2 = "0 # 28 # 0 # 0 # 0 # 2 # replicate 22 0 :: byte list"
  have "stream rb1 evs2 = frame ?b2 @ ([0, 0] @ ?S @ ?F)"
    using 1(3) assms(5) misread_bytes(1) by (simp add: stream_def)
  then obtain rb2 evs2' where 2: "client_append padding c2 (call_at padding t2 evs2) ((new_client a)\<lparr>cl_rb := rb1\<rparr>, Map.empty, ev) =
      Some (Inr (append_image padding (ca_time (call_at padding t2 evs2)), False, ?c rb2, [3 \<mapsto> Some a], evs2'))"
    "rb_inv rb2" "proper evs2'" "stream rb2 evs2' = [0, 0] @ ?S @ ?F"
    using append_reads [of "call_at padding t2 evs2" "(new_client a)\<lparr>cl_rb := rb1\<rparr>" Map.empty 3 "[a \<mapsto> 3]" "[3 \<mapsto> Some a]"
        padding evs2 ev ?b2 "[0, 0] @ ?S @ ?F" c2]
      1(2) assms(4) misread_bytes(3) small connect new call by auto
  then obtain rb3 evs3 where 3: "client_append padding c3 (call_at padding t3 []) (?c rb2, [3 \<mapsto> Some a], evs2') =
      Some (Inr (append_image padding (ca_time (call_at padding t3 [])), False, ?c rb3, [3 \<mapsto> Some a], evs3))"
    "rb_inv rb3" "proper evs3" "stream rb3 evs3 = ?S @ ?F"
    using append_reads [of "call_at padding t3 []" "?c rb2" "[3 \<mapsto> Some a]" 3 "[a \<mapsto> 3]" "[3 \<mapsto> Some a]"
        padding evs2' evs2' "[]" "?S @ ?F" c3]
      misread_bytes(2) small reuse alive new call by (auto simp: peek_header_at_def HEADER_SIZE_def)
  then obtain rb4 evs4 where 4: "client_append padding c4 (call_at padding t4 []) (?c rb3, [3 \<mapsto> Some a], evs3) =
      Some (Inr (append_image padding (ca_time (call_at padding t4 [])), True, ?c rb4, [3 \<mapsto> Some a], evs4))"
    "stream rb4 evs4 = ?F"
    using append_reads [of "call_at padding t4 []" "?c rb3" "[3 \<mapsto> Some a]" 3 "[a \<mapsto> 3]" "[3 \<mapsto> Some a]"
        padding evs3 evs3 "answer SUCCESS" ?F c4]
      misread_bytes(4) small reuse alive new call len by auto
  show ?thesis
    by (intro exI [of _ evs4] exI [of _ "?c rb4"] exI [of _ "[3 \<mapsto> Some a]"]) (simp add: 1(1) 2(1) 3(1) 4)
qed


theorem stale_bytes_shift_answers_witness:
  "\<exists>evs' c fds. append_each []
      [([1], call_at [] 1 [Data [0, 28], Closed]),
       ([2], call_at [] 2 [Data (frame (answer SUCCESS)), Data (frame (answer SUCCESS)), Data (frame (answer FAILURE))]),
       ([3], call_at [] 3 []), ([4], call_at [] 4 [])]
      (new_client (''10.0.0.1'', 80), Map.empty, []) = Some (Inr ([False, False, False, True], c, fds, evs'))"
proof -
  let ?evs2 = "[Data (frame (answer SUCCESS)), Data (frame (answer SUCCESS)), Data (frame (answer FAILURE))]"
  have 1: "proper [Data [0, 28], Closed]" "Closed \<in> set [Data [0, 28], Closed]"
    "arriving [Data [0, 28], Closed] = take 2 (frame (answer SUCCESS))"
    by (simp_all add: proper_def answer_bytes)
  have 2: "proper ?evs2" by (simp add: proper_Cons) (simp add: proper_def)
  have 3: "arriving ?evs2 = frame (answer SUCCESS) @ frame (answer SUCCESS) @ frame (answer FAILURE)" by simp
  from stale_bytes_shift_answers [OF 1 2 3, of "[]" "[1]" 1 "[2]" 2 "[3]" 3 "[4]" 4 "(''10.0.0.1'', 80)"]
  show ?thesis by (elim exE conjE) (intro exI)
qed

end
