(* ===== verification/Config.thy ===== *)
theory Config
  imports Address
begin

text \<open>
  \<^verbatim>\<open>api/config.h\<close>, \<^verbatim>\<open>api/config.cpp\<close> and \<^verbatim>\<open>api/node_config.h\<close>: the
  master configuration, its parser and the configurations of the nodes. The JSON library is a
  parameter: a document is any type with the accessors the parser calls.
\<close>

section \<open>Configurations\<close>

record config =
  cf_f :: int
  cf_max_retries :: int
  cf_max_epoch_history :: int
  cf_epoch_duration :: timestamp
  cf_zipper :: address
  cf_proxies :: "address list"
  cf_servers :: "address list"
  cf_subscribers :: "address list"

record node_config =
  nc_id :: node_id
  nc_shard :: shard_id
  nc_address :: address
  nc_f :: int
  nc_max_retries :: int

record zipper_config = node_config +
  zc_epoch_duration :: timestamp
  zc_proxies :: "address list"
  zc_servers :: "address list"
  zc_subscribers :: "address list"

record proxy_config = node_config +
  pc_epoch_duration :: timestamp
  pc_max_epoch_history :: int
  pc_zipper :: address
  pc_servers :: "address list"

record server_config = node_config +
  sc_epoch_duration :: timestamp
  sc_zipper :: address
  sc_proxies :: "address list"
  sc_subscribers :: "address list"
  sc_other_servers :: "address list"

record subscriber_config = node_config +
  bc_zipper :: address
  bc_servers :: "address list"

text \<open>\<^verbatim>\<open>f + 1\<close> as a \<^verbatim>\<open>size_t\<close>.\<close>

definition config_quorum :: "int \<Rightarrow> nat" where
  "config_quorum f = unat (of_int (f + 1) :: u64)"

text \<open>The checks of the master configuration truncate the size, those of the nodes do not.\<close>

definition valid_in_master :: "node_id \<Rightarrow> address list \<Rightarrow> bool" where
  "valid_in_master i as \<longleftrightarrow> i < of_nat (length as)"

definition valid_in_node :: "node_id \<Rightarrow> address list \<Rightarrow> bool" where
  "valid_in_node i as \<longleftrightarrow> unat i < length as"

definition make_zipper_config :: "config \<Rightarrow> zipper_config" where
  "make_zipper_config cf =
    \<lparr>nc_id = 0, nc_shard = 0, nc_address = cf_zipper cf, nc_f = cf_f cf,
     nc_max_retries = cf_max_retries cf, zc_epoch_duration = cf_epoch_duration cf,
     zc_proxies = cf_proxies cf, zc_servers = cf_servers cf, zc_subscribers = cf_subscribers cf\<rparr>"

definition make_proxy_config :: "node_id \<Rightarrow> config \<Rightarrow> fault + proxy_config" where
  "make_proxy_config i cf =
    require (valid_in_master i (cf_proxies cf)) Thrown
      (Inr \<lparr>nc_id = i, nc_shard = 0, nc_address = cf_proxies cf ! unat i, nc_f = cf_f cf,
        nc_max_retries = cf_max_retries cf, pc_epoch_duration = cf_epoch_duration cf,
        pc_max_epoch_history = cf_max_epoch_history cf, pc_zipper = cf_zipper cf, pc_servers = cf_servers cf\<rparr>)"

text \<open>The loop over the other servers, \<open>i\<close> the next index.\<close>

fun others :: "nat \<Rightarrow> node_id \<Rightarrow> address list \<Rightarrow> address list" where
  "others i server [] = []"
| "others i server (a # as) = (if i = unat server then others (i + 1) server as else a # others (i + 1) server as)"

definition make_server_config :: "node_id \<Rightarrow> config \<Rightarrow> fault + server_config" where
  "make_server_config i cf =
    require (valid_in_master i (cf_servers cf)) Thrown
      (Inr \<lparr>nc_id = i, nc_shard = 0, nc_address = cf_servers cf ! unat i, nc_f = cf_f cf,
        nc_max_retries = cf_max_retries cf, sc_epoch_duration = cf_epoch_duration cf,
        sc_zipper = cf_zipper cf, sc_proxies = cf_proxies cf, sc_subscribers = cf_subscribers cf,
        sc_other_servers = others 0 i (cf_servers cf)\<rparr>)"

definition make_subscriber_config :: "node_id \<Rightarrow> config \<Rightarrow> fault + subscriber_config" where
  "make_subscriber_config i cf =
    require (valid_in_master i (cf_subscribers cf)) Thrown
      (Inr \<lparr>nc_id = i, nc_shard = 0, nc_address = cf_subscribers cf ! unat i, nc_f = cf_f cf,
        nc_max_retries = cf_max_retries cf, bc_zipper = cf_zipper cf, bc_servers = cf_servers cf\<rparr>)"

section \<open>The parser\<close>

text \<open>What the parser asks of a JSON document.\<close>

record 'j json_access =
  js_field :: "'j \<Rightarrow> string \<Rightarrow> 'j option"
  js_integer :: "'j \<Rightarrow> int option"
  js_array :: "'j \<Rightarrow> 'j list option"
  js_string :: "'j \<Rightarrow> string option"

text \<open>
  The reasons for a \<^verbatim>\<open>ConfigParseError\<close>. \<open>Undefined\<close> is no exception: the check of the number
  of servers multiplies an \<^verbatim>\<open>int\<close>, which may overflow.
\<close>

datatype config_error =
    No_file | Syntax | Missing string | Not_a_string | Duplicate | Bad_address address_error
  | Too_few_servers | Undefined

definition EPOCH_DURATION :: timestamp where "EPOCH_DURATION = 1000"
definition MAX_EPOCH_HISTORY :: int where "MAX_EPOCH_HISTORY = 10"

text \<open>A JSON number read into an \<^verbatim>\<open>int\<close> or a \<^verbatim>\<open>uint64_t\<close> is cast.\<close>

definition as_int :: "int \<Rightarrow> int" where
  "as_int v = sint (of_int v :: 32 word)"

definition integer_field :: "'j json_access \<Rightarrow> 'j \<Rightarrow> string \<Rightarrow> int option" where
  "integer_field js j name = (case js_field js j name of None \<Rightarrow> None | Some v \<Rightarrow> js_integer js v)"

definition config_address :: "string \<Rightarrow> config_error + address" where
  "config_address s = (case parse_address s of Inl e \<Rightarrow> Inl (Bad_address e) | Inr a \<Rightarrow> Inr a)"

text \<open>\<^verbatim>\<open>extractArray\<close>: the strings seen so far are shared by the three arrays.\<close>

fun extract_items :: "'j json_access \<Rightarrow> 'j list \<Rightarrow> string set \<Rightarrow> config_error + address list \<times> string set" where
  "extract_items js [] seen = Inr ([], seen)"
| "extract_items js (v # vs) seen =
    (case js_string js v of
       None \<Rightarrow> Inl Not_a_string
     | Some s \<Rightarrow>
         require (s \<notin> seen) Duplicate
           (bind_res (config_address s) (\<lambda>a.
            map_res (\<lambda>(as, seen). (a # as, seen)) (extract_items js vs (insert s seen)))))"

definition extract_array ::
  "'j json_access \<Rightarrow> 'j \<Rightarrow> string \<Rightarrow> string set \<Rightarrow> config_error + address list \<times> string set" where
  "extract_array js j name seen =
    (case js_field js j name of
       None \<Rightarrow> Inl (Missing name)
     | Some v \<Rightarrow> (case js_array js v of None \<Rightarrow> Inl (Missing name) | Some vs \<Rightarrow> extract_items js vs seen))"

definition enough_servers :: "int \<Rightarrow> nat \<Rightarrow> config_error + unit" where
  "enough_servers f n =
    require (- (2 ^ 31) \<le> 2 * f \<and> 2 * f + 1 < 2 ^ 31) Undefined
      (require (unat (of_int (2 * f + 1) :: u64) \<le> n) Too_few_servers (Inr ()))"

definition required_integer :: "'j json_access \<Rightarrow> 'j \<Rightarrow> string \<Rightarrow> config_error + int" where
  "required_integer js j name = (case integer_field js j name of None \<Rightarrow> Inl (Missing name) | Some v \<Rightarrow> Inr v)"

text \<open>\<^verbatim>\<open>parse_config_JSON\<close>; \<open>document\<close> is \<open>None\<close> when the text is no JSON.\<close>

definition parse_config :: "'j json_access \<Rightarrow> 'j option \<Rightarrow> config_error + config" where
  "parse_config js document =
    (case document of
       None \<Rightarrow> Inl Syntax
     | Some j \<Rightarrow>
         bind_res (required_integer js j ''f'') (\<lambda>f.
         bind_res (required_integer js j ''max_retries'') (\<lambda>retries.
         let history = (case integer_field js j ''max_epoch_history'' of None \<Rightarrow> MAX_EPOCH_HISTORY | Some v \<Rightarrow> as_int v);
             duration = (case integer_field js j ''epoch_duration'' of None \<Rightarrow> EPOCH_DURATION | Some v \<Rightarrow> of_int v)
         in
         (case js_field js j ''zipper'' of
            None \<Rightarrow> Inl (Missing ''zipper'')
          | Some z \<Rightarrow> (case js_string js z of
              None \<Rightarrow> Inl Not_a_string
            | Some s \<Rightarrow>
                bind_res (config_address s) (\<lambda>zipper.
                bind_res (extract_array js j ''proxies'' {}) (\<lambda>(proxies, seen).
                bind_res (extract_array js j ''servers'' seen) (\<lambda>(servers, seen).
                bind_res (extract_array js j ''subscribers'' seen) (\<lambda>(subscribers, seen).
                bind_res (enough_servers (as_int f) (length servers)) (\<lambda>_.
                  Inr \<lparr>cf_f = as_int f, cf_max_retries = as_int retries, cf_max_epoch_history = history,
                       cf_epoch_duration = duration, cf_zipper = zipper, cf_proxies = proxies,
                       cf_servers = servers, cf_subscribers = subscribers\<rparr>))))))))))"

text \<open>\<^verbatim>\<open>parse_config\<close> of a file: \<open>None\<close> when it cannot be opened.\<close>

definition parse_config_file :: "'j json_access \<Rightarrow> 'j option option \<Rightarrow> config_error + config" where
  "parse_config_file js file = (case file of None \<Rightarrow> Inl No_file | Some document \<Rightarrow> parse_config js document)"

section \<open>Accepted configurations\<close>

definition wf_config :: "config \<Rightarrow> bool" where
  "wf_config cf \<longleftrightarrow> 0 \<le> cf_f cf \<and> 2 * nat (cf_f cf) + 1 \<le> length (cf_servers cf) \<and>
    list_all valid_address (cf_zipper cf # cf_proxies cf @ cf_servers cf @ cf_subscribers cf)"

lemma config_address_valid: "config_address s = Inr a \<Longrightarrow> valid_address a"
  by (auto simp: config_address_def intro: parse_address_valid split: sum.splits)

lemma extract_items_valid: "extract_items js vs seen = Inr (as, seen') \<Longrightarrow> list_all valid_address as"
  by (induction js vs seen arbitrary: as seen' rule: extract_items.induct)
    (auto simp: map_res_def bind_res_eq_Inr require_eq_Inr intro: config_address_valid split: option.splits)

lemma extract_array_valid: "extract_array js j name seen = Inr (as, seen') \<Longrightarrow> list_all valid_address as"
  by (auto simp: extract_array_def intro: extract_items_valid split: option.splits)

lemma unat_of_int_u64: "unat (of_int k :: u64) = nat (k mod 2 ^ 64)"
  by (simp only: unat_eq_nat_uint uint_word_of_int) simp

lemma as_int_range: "- (2 ^ 31) \<le> as_int v" "as_int v < 2 ^ 31"
  using sint_range_size [of "of_int v :: 32 word"] by (auto simp: as_int_def word_size)

lemma enough_servers_sound:
  assumes "enough_servers f n = Inr ()" and "n < 2 ^ 63"
  shows "0 \<le> f \<and> 2 * nat f + 1 \<le> n \<and> f < 2 ^ 30"
proof -
  have f: "- (2 ^ 31) \<le> 2 * f" "2 * f + 1 < 2 ^ 31" and n: "nat ((2 * f + 1) mod 2 ^ 64) \<le> n"
    using assms(1) unfolding enough_servers_def require_eq_Inr unat_of_int_u64 by simp_all
  have "0 \<le> f"
  proof (rule ccontr)
    assume "\<not> 0 \<le> f"
    then have "(2 * f + 1) mod 2 ^ 64 = 2 * f + 1 + 2 ^ 64"
      using f by (subst mod_add_self2 [symmetric]) (simp add: mod_pos_pos_trivial)
    with n assms(2) f show False by simp
  qed
  moreover from this have "(2 * f + 1) mod 2 ^ 64 = 2 * f + 1"
    using f by (intro mod_pos_pos_trivial) simp_all
  ultimately show ?thesis using n f by auto
qed

lemma case_option_eq_Inr: "(case x of None \<Rightarrow> Inl e | Some y \<Rightarrow> g y) = Inr z \<longleftrightarrow> (\<exists>y. x = Some y \<and> g y = Inr z)"
  by (cases x) auto

lemma parse_config_cases:
  assumes "parse_config js document = Inr cf"
  shows "enough_servers (cf_f cf) (length (cf_servers cf)) = Inr () \<and>
    list_all valid_address (cf_zipper cf # cf_proxies cf @ cf_servers cf @ cf_subscribers cf)"
  using assms
  by (auto simp: parse_config_def bind_res_eq_Inr Let_def case_option_eq_Inr
      dest!: extract_array_valid config_address_valid)

lemma parsed_wf:
  assumes "parse_config js document = Inr cf" and "length (cf_servers cf) < 2 ^ 63"
  shows "wf_config cf" and "cf_f cf < 2 ^ 30"
  using enough_servers_sound [of "cf_f cf"] parse_config_cases [OF assms(1)] assms(2) by (auto simp: wf_config_def)

text \<open>
  C29: a configuration the parser accepts is one the protocol can run with. The number of
  faults is not negative, although a negative one passes through unsigned arithmetic; every address is an IPv4
  address with a port from 1 to 65535; and the quorum all nodes use, \<open>f + 1\<close>, can be reached when \<open>f\<close>
  of the servers have failed.
\<close>

theorem accepted_config_well_formed:
  assumes "parse_config js document = Inr cf" and "length (cf_servers cf) < 2 ^ 63"
  shows "wf_config cf \<and> config_quorum (cf_f cf) = nat (cf_f cf) + 1 \<and>
    config_quorum (cf_f cf) \<le> length (cf_servers cf) - nat (cf_f cf)"
proof -
  have wf: "wf_config cf" "cf_f cf < 2 ^ 30" by (rule parsed_wf [OF assms])+
  then have f: "0 \<le> cf_f cf" "2 * nat (cf_f cf) + 1 \<le> length (cf_servers cf)" "cf_f cf < 2 ^ 30"
    by (simp_all add: wf_config_def)
  then have "config_quorum (cf_f cf) = nat (cf_f cf) + 1"
    unfolding config_quorum_def unat_of_int_u64 by (subst mod_pos_pos_trivial) (simp_all add: nat_add_distrib)
  with f wf show ?thesis by auto
qed

section \<open>A document\<close>

text \<open>A concrete type of documents with its accessors.\<close>

datatype json = Object "(string \<times> json) list" | Array "json list" | Number int | String string

fun field_of :: "json \<Rightarrow> string \<Rightarrow> json option" where
  "field_of (Object fs) name = map_of fs name"
| "field_of _ name = None"

fun integer_of :: "json \<Rightarrow> int option" where
  "integer_of (Number v) = Some v"
| "integer_of _ = None"

fun array_of :: "json \<Rightarrow> json list option" where
  "array_of (Array vs) = Some vs"
| "array_of _ = None"

fun string_of :: "json \<Rightarrow> string option" where
  "string_of (String s) = Some s"
| "string_of _ = None"

definition json_of :: "json json_access" where
  "json_of = \<lparr>js_field = field_of, js_integer = integer_of, js_array = array_of, js_string = string_of\<rparr>"

definition sample_document :: json where
  "sample_document = Object
    [(''f'', Number 1), (''max_retries'', Number 3), (''zipper'', String ''127.0.0.1:5''),
     (''proxies'', Array [String ''127.0.0.1:6'']),
     (''servers'', Array [String ''127.0.0.1:7'', String ''localhost:7'', String ''127.0.0.1:07'']),
     (''subscribers'', Array [])]"

lemmas address_eval = parse_address_def ipv4_def between_def digit_def stoi_def white_def decimal_def digit_value_def

lemma sample_addresses:
  "config_address ''127.0.0.1:5'' = Inr (''127.0.0.1'', 5)" "config_address ''127.0.0.1:6'' = Inr (''127.0.0.1'', 6)"
  "config_address ''127.0.0.1:7'' = Inr (''127.0.0.1'', 7)" "config_address ''localhost:7'' = Inr (''127.0.0.1'', 7)"
  "config_address ''127.0.0.1:07'' = Inr (''127.0.0.1'', 7)"
  by (simp_all add: config_address_def address_eval)

definition sample_config :: config where
  "sample_config = \<lparr>cf_f = 1, cf_max_retries = 3, cf_max_epoch_history = 10, cf_epoch_duration = 1000,
    cf_zipper = (''127.0.0.1'', 5), cf_proxies = [(''127.0.0.1'', 6)],
    cf_servers = replicate 3 (''127.0.0.1'', 7), cf_subscribers = []\<rparr>"

lemma sample_parsed: "parse_config json_of (Some sample_document) = Inr sample_config"
  by (simp add: parse_config_def sample_document_def json_of_def required_integer_def integer_field_def
      extract_array_def sample_addresses enough_servers_def as_int_def numeral_3_eq_3 sample_config_def
      EPOCH_DURATION_def MAX_EPOCH_HISTORY_def)

theorem accepted_config_well_formed_witness:
  "wf_config sample_config \<and> config_quorum 1 = 2 \<and> config_quorum 1 \<le> 3 - 1"
  using accepted_config_well_formed [OF sample_parsed] by (simp add: sample_config_def)

text \<open>
  The check for duplicates compares the strings, not the addresses. Three spellings of one
  address are accepted as three servers, so that \<open>2 f + 1\<close> servers with \<open>f = 1\<close> may be
  one process that counts as a quorum of its own.
\<close>

theorem duplicate_servers_accepted:
  "\<exists>cf. parse_config json_of (Some sample_document) = Inr cf \<and> cf_f cf = 1 \<and>
    cf_servers cf = replicate 3 (''127.0.0.1'', 7)"
  by (simp add: sample_parsed) (simp add: sample_config_def)

section \<open>The configurations of the nodes\<close>

lemma others_cut: "unat i < k + length as \<Longrightarrow> k \<le> unat i \<Longrightarrow>
    others k i as = take (unat i - k) as @ drop (Suc (unat i - k)) as"
proof (induction k i as rule: others.induct)
  case (2 k i a as)
  have past: "unat i < n \<Longrightarrow> others n i bs = bs" for n bs
    by (induction n i bs rule: others.induct) auto
  show ?case
  proof (cases "k = unat i")
    case True
    with past [of "k + 1" as] show ?thesis by simp
  next
    case False
    then have "unat i - k = Suc (unat i - (k + 1))" using 2 by simp
    with 2 False show ?thesis by simp
  qed
qed auto

lemma valid_in_master_iff: "length as < 2 ^ 32 \<Longrightarrow> valid_in_master i as \<longleftrightarrow> unat i < length as"
  by (simp add: valid_in_master_def word_less_nat_alt unat_of_nat_eq)

text \<open>
  Every node of a configuration gets its own address, the common \<open>f\<close> and the lists of the
  nodes it talks to, a server the others in their order without itself; an identifier beyond the list throws,
  in agreement with the check the nodes themselves make.
\<close>

theorem node_configs_agree:
  assumes "length (cf_proxies cf) < 2 ^ 32" and "length (cf_servers cf) < 2 ^ 32"
    and "length (cf_subscribers cf) < 2 ^ 32"
  shows "(case make_server_config i cf of
       Inl e \<Rightarrow> e = Thrown \<and> \<not> valid_in_node i (cf_servers cf)
     | Inr c \<Rightarrow> valid_in_node i (cf_servers cf) \<and> nc_id c = i \<and> nc_address c = cf_servers cf ! unat i \<and> nc_f c = cf_f cf \<and>
         sc_other_servers c = take (unat i) (cf_servers cf) @ drop (Suc (unat i)) (cf_servers cf) \<and>
         sc_subscribers c = cf_subscribers cf) \<and>
    (case make_proxy_config i cf of
       Inl e \<Rightarrow> e = Thrown \<and> \<not> valid_in_node i (zc_proxies (make_zipper_config cf))
     | Inr c \<Rightarrow> valid_in_node i (zc_proxies (make_zipper_config cf)) \<and> nc_id c = i \<and>
         nc_address c = cf_proxies cf ! unat i \<and> nc_f c = cf_f cf \<and> pc_servers c = cf_servers cf) \<and>
    (case make_subscriber_config i cf of
       Inl e \<Rightarrow> e = Thrown \<and> \<not> valid_in_node i (cf_subscribers cf)
     | Inr c \<Rightarrow> valid_in_node i (cf_subscribers cf) \<and> nc_address c = cf_subscribers cf ! unat i \<and> nc_f c = cf_f cf)"
  using assms others_cut [of i 0 "cf_servers cf"]
  by (simp add: make_server_config_def make_proxy_config_def make_subscriber_config_def make_zipper_config_def
      require_def valid_in_master_iff valid_in_node_def)

theorem node_configs_agree_witness:
  "\<exists>c. make_server_config 1 sample_config = Inr c \<and> length (sc_other_servers c) = 2"
  using node_configs_agree [of sample_config 1]
  by (auto simp: sample_config_def valid_in_node_def split: sum.splits)

end
