(* ===== verification/Program.thy ===== *)
theory Program
  imports Client Config
begin

text \<open>
  \<^verbatim>\<open>impl/main.cpp\<close>: what the program does with its arguments. The nodes run until a signal ends the
  process; the client and the benchmark append through a proxy until their input ends.
\<close>

section \<open>Starting\<close>

datatype activity =
    Zipper_node zipper_config | Proxy_node proxy_config | Server_node server_config
  | Subscriber_node subscriber_config | Interactive address | Benchmark address int

definition ERROR :: int where "ERROR = -1"

text \<open>
  What a mode does: \<open>Inr (Inl code)\<close> is a \<^verbatim>\<open>return\<close>, \<open>Inl Thrown\<close> an exception. The proxy of a
  client is looked up without a check of the index.
\<close>

definition proxy_at :: "node_id \<Rightarrow> config \<Rightarrow> fault + address" where
  "proxy_at i cf = require (unat i < length (cf_proxies cf)) OutOfBounds (Inr (cf_proxies cf ! unat i))"

definition with_id :: "node_id option \<Rightarrow> (node_id \<Rightarrow> fault + int + activity) \<Rightarrow> fault + int + activity" where
  "with_id node k = (case node of None \<Rightarrow> Inr (Inl ERROR) | Some i \<Rightarrow> k i)"

definition dispatch ::
  "string \<Rightarrow> node_id option \<Rightarrow> string list \<Rightarrow> config \<Rightarrow> fault + int + activity" where
  "dispatch mode node extra cf =
    (if mode = ''zipper'' then Inr (Inr (Zipper_node (make_zipper_config cf)))
     else if mode = ''client'' then with_id node (\<lambda>i. map_res (\<lambda>a. Inr (Interactive a)) (proxy_at i cf))
     else if mode = ''proxy'' then with_id node (\<lambda>i. map_res (\<lambda>c. Inr (Proxy_node c)) (make_proxy_config i cf))
     else if mode = ''server'' then with_id node (\<lambda>i. map_res (\<lambda>c. Inr (Server_node c)) (make_server_config i cf))
     else if mode = ''subscriber''
       then with_id node (\<lambda>i. map_res (\<lambda>c. Inr (Subscriber_node c)) (make_subscriber_config i cf))
     else if mode = ''benchmark''
       then with_id node (\<lambda>i.
         bind_res (case extra of [] \<Rightarrow> Inr 1000 | n # _ \<Rightarrow> stoi n) (\<lambda>n.
         map_res (\<lambda>a. Inr (Benchmark a n)) (proxy_at i cf)))
     else Inr (Inl ERROR))"

text \<open>Every exception is caught and ends in \<^verbatim>\<open>ERROR\<close>; other faults are undefined behaviour.\<close>

definition catch_exceptions :: "fault + int + activity \<Rightarrow> fault + int + activity" where
  "catch_exceptions r = (if r = Inl Thrown then Inr (Inl ERROR) else r)"

definition config_fault :: "config_error \<Rightarrow> fault" where
  "config_fault e = (if e = Undefined then Overflow else Thrown)"

text \<open>The optional identifier, cast from \<^verbatim>\<open>int\<close>; \<open>file\<close> is the content of the file the second argument names.\<close>

definition node_argument :: "string list \<Rightarrow> fault + node_id option" where
  "node_argument args = (case args of [] \<Rightarrow> Inr None | a # _ \<Rightarrow> map_res (\<lambda>v. Some (of_int v)) (stoi a))"

fun start_program ::
  "'j json_access \<Rightarrow> (string \<Rightarrow> 'j option option) \<Rightarrow> string list \<Rightarrow> fault + int + activity" where
  "start_program js file (prog # mode # config_file # args) =
    (if 2 < length args then Inr (Inl ERROR)
     else catch_exceptions (
       bind_res (node_argument args) (\<lambda>node.
       case parse_config_file js (file config_file) of
         Inl e \<Rightarrow> Inl (config_fault e)
       | Inr cf \<Rightarrow> dispatch mode node (tl args) cf)))"
| "start_program js file _ = Inr (Inl ERROR)"

section \<open>The client's two loops\<close>

text \<open>The client reads lines up to \<^verbatim>\<open>quit\<close>; the result has what it prints for each.\<close>

fun interact ::
  "command \<Rightarrow> (string \<times> call) list \<Rightarrow> client \<times> descriptors \<times> socket_in
    \<Rightarrow> (fault + bool list \<times> client \<times> descriptors \<times> socket_in) option" where
  "interact padding [] st = Some (Inr ([], st))"
| "interact padding ((line, ca) # cs) st =
    (if line = ''quit'' then Some (Inr ([], st))
     else case client_append padding (string_to_command line) ca st of
       None \<Rightarrow> None
     | Some (Inl e) \<Rightarrow> Some (Inl e)
     | Some (Inr (out, ok, st)) \<Rightarrow> map_option (map_res (\<lambda>(oks, st). (ok # oks, st))) (interact padding cs st))"

text \<open>The benchmark, with the \<open>i\<close>-th call \<open>calls i\<close>, and the number of successes it prints.\<close>

definition benchmark ::
  "command \<Rightarrow> (nat \<Rightarrow> call) \<Rightarrow> int \<Rightarrow> client \<times> descriptors \<times> socket_in
    \<Rightarrow> (fault + nat \<times> client \<times> descriptors \<times> socket_in) option" where
  "benchmark padding calls n st =
    map_option (map_res (\<lambda>(oks, st). (length (filter id oks), st)))
      (append_each padding (map (\<lambda>i. ([], calls i)) [0..<nat n]) st)"

definition client_destroy :: "client \<times> descriptors \<Rightarrow> descriptors" where
  "client_destroy st = (let (c, fds) = st in snd (close_all (cl_pool c, fds)))"

section \<open>What is started\<close>

text \<open>An activity of the configuration.\<close>

fun belongs :: "config \<Rightarrow> activity \<Rightarrow> bool" where
  "belongs cf (Zipper_node c) \<longleftrightarrow> c = make_zipper_config cf"
| "belongs cf (Proxy_node c) \<longleftrightarrow> unat (nc_id c) < length (cf_proxies cf) \<and>
    nc_address c = cf_proxies cf ! unat (nc_id c) \<and> nc_f c = cf_f cf \<and> pc_servers c = cf_servers cf"
| "belongs cf (Server_node c) \<longleftrightarrow> unat (nc_id c) < length (cf_servers cf) \<and>
    nc_address c = cf_servers cf ! unat (nc_id c) \<and> nc_f c = cf_f cf \<and> sc_subscribers c = cf_subscribers cf \<and>
    sc_other_servers c = take (unat (nc_id c)) (cf_servers cf) @ drop (Suc (unat (nc_id c))) (cf_servers cf)"
| "belongs cf (Subscriber_node c) \<longleftrightarrow> unat (nc_id c) < length (cf_subscribers cf) \<and>
    nc_address c = cf_subscribers cf ! unat (nc_id c) \<and> nc_f c = cf_f cf"
| "belongs cf (Interactive a) \<longleftrightarrow> a \<in> set (cf_proxies cf)"
| "belongs cf (Benchmark a n) \<longleftrightarrow> a \<in> set (cf_proxies cf)"

definition small_lists :: "config \<Rightarrow> bool" where
  "small_lists cf \<longleftrightarrow> length (cf_proxies cf) < 2 ^ 32 \<and> length (cf_servers cf) < 2 ^ 32 \<and> length (cf_subscribers cf) < 2 ^ 32"

lemma stoi_faults: "stoi s = Inl e \<Longrightarrow> e = Thrown"
  by (auto simp: stoi_def require_def Let_def split: if_splits)

lemma proxy_at_member: "proxy_at i cf = Inr a \<Longrightarrow> a \<in> set (cf_proxies cf)"
  by (auto simp: proxy_at_def require_eq_Inr intro: nth_mem)

lemma dispatch_belongs:
  assumes "dispatch mode node extra cf = Inr (Inr act)" and "small_lists cf"
  shows "belongs cf act"
  using assms
  by (auto simp: dispatch_def with_id_def small_lists_def make_proxy_config_def make_server_config_def
      make_subscriber_config_def require_def valid_in_master_iff others_cut map_res_def bind_res_eq_Inr
      intro: proxy_at_member split: if_splits option.splits sum.splits)

lemma dispatch_faults:
  assumes "dispatch mode node extra cf = Inl e" and "e \<noteq> Thrown"
  shows "e = OutOfBounds \<and> mode \<in> {''client'', ''benchmark''} \<and> (\<exists>i. node = Some i \<and> length (cf_proxies cf) \<le> unat i)"
proof -
  have throws: "\<not> make_proxy_config i cf = Inl e" "\<not> make_server_config i cf = Inl e" "\<not> make_subscriber_config i cf = Inl e"
    "\<not> stoi s = Inl e" for i s
    using assms(2) stoi_faults [of s e]
    by (auto simp: make_proxy_config_def make_server_config_def make_subscriber_config_def require_def split: if_splits)
  have at: "proxy_at i cf = Inl e \<longleftrightarrow> e = OutOfBounds \<and> length (cf_proxies cf) \<le> unat i" for i
    by (auto simp: proxy_at_def require_def)
  show ?thesis
    using assms(1) throws at
    by (auto simp: dispatch_def with_id_def map_res_def bind_res_def split: if_splits option.splits sum.splits list.splits)
qed

lemma dispatch_returns: "dispatch mode node extra cf = Inr (Inl c) \<Longrightarrow> c = ERROR"
  by (auto simp: dispatch_def with_id_def map_res_def bind_res_def split: if_splits option.splits sum.splits)

lemma node_argument_cases:
  "node_argument args = Inl Thrown \<or> node_argument args = Inr None \<or>
    (\<exists>v as. args = v # as \<and> (\<exists>k. stoi v = Inr k \<and> node_argument args = Inr (Some (of_int k))))"
  using stoi_faults by (cases args; cases "stoi (hd args)") (auto simp: node_argument_def)

lemma parsed_file_wf: "parse_config_file js file = Inr cf \<Longrightarrow> small_lists cf \<Longrightarrow> wf_config cf"
  using parsed_wf(1) [of js _ cf] by (auto simp: parse_config_file_def small_lists_def split: option.splits)

text \<open>
  C30: whatever the program starts is sound. For any arguments and files, a node that is started
  runs with a well-formed configuration, under its own address and with the other nodes of the
  list, and a client contacts a proxy of the list; every other start returns \<^verbatim>\<open>ERROR\<close>. The only undefined
  behaviour is a configuration whose \<open>f\<close> overflows, and a client or benchmark whose proxy
  number is not in the list, which is read without a check.
\<close>

theorem started_activity_sound:
  assumes "\<forall>name cf. parse_config_file js (file name) = Inr cf \<longrightarrow> small_lists cf"
  shows "case start_program js file argv of
      Inr (Inr act) \<Rightarrow> \<exists>cf. parse_config_file js (file (argv ! 2)) = Inr cf \<and> wf_config cf \<and> belongs cf act
    | Inr (Inl c) \<Rightarrow> c = ERROR
    | Inl e \<Rightarrow> e = Overflow \<and> parse_config_file js (file (argv ! 2)) = Inl Undefined \<or>
        e = OutOfBounds \<and> argv ! 1 \<in> {''client'', ''benchmark''} \<and>
        (\<exists>cf v. parse_config_file js (file (argv ! 2)) = Inr cf \<and> stoi (argv ! 3) = Inr v \<and>
          length (cf_proxies cf) \<le> unat (of_int v :: node_id))"
proof (cases "2 < length argv \<and> length argv \<le> 5")
  case False
  then have "start_program js file argv = Inr (Inl ERROR)"
    by (cases "(js, file, argv)" rule: start_program.cases) auto
  then show ?thesis by simp
next
  case True
  then obtain prog mode name args where argv: "argv = prog # mode # name # args" "\<not> 2 < length args"
    by (cases "(js, file, argv)" rule: start_program.cases) auto
  show ?thesis
  proof (cases "node_argument args")
    case (Inl e)
    with node_argument_cases [of args] show ?thesis by (simp add: argv catch_exceptions_def)
  next
    case node: (Inr node)
    show ?thesis
    proof (cases "parse_config_file js (file name)")
      case (Inl e)
      with node argv(2) show ?thesis by (simp add: argv(1) catch_exceptions_def config_fault_def)
    next
      case (Inr cf)
      with assms have cf: "small_lists cf" "wf_config cf" using parsed_file_wf by blast+
      have start: "start_program js file argv = catch_exceptions (dispatch mode node (tl args) cf)"
        using node Inr argv(2) by (simp add: argv(1))
      consider (act) act where "dispatch mode node (tl args) cf = Inr (Inr act)"
        | (code) c where "dispatch mode node (tl args) cf = Inr (Inl c)"
        | (thrown) "dispatch mode node (tl args) cf = Inl Thrown"
        | (fault) e where "dispatch mode node (tl args) cf = Inl e" "e \<noteq> Thrown"
        by (cases "dispatch mode node (tl args) cf") (auto, metis sum.exhaust_sel)
      then show ?thesis
      proof cases
        case act
        with dispatch_belongs [OF act cf(1)] cf(2) Inr show ?thesis
          unfolding start by (simp add: catch_exceptions_def argv(1))
      next
        case code
        with dispatch_returns [OF code] show ?thesis unfolding start by (simp add: catch_exceptions_def)
      next
        case thrown
        then show ?thesis unfolding start by (simp add: catch_exceptions_def)
      next
        case fault
        from dispatch_faults [OF fault] obtain i where i: "e = OutOfBounds" "mode \<in> {''client'', ''benchmark''}"
          "node = Some i" "length (cf_proxies cf) \<le> unat i" by blast
        then obtain k v as where "stoi v = Inr k" "i = of_int k" "args = v # as"
          using node_argument_cases [of args] node by auto
        with i Inr fault(1) show ?thesis
          unfolding start by (auto simp: catch_exceptions_def argv(1))
      qed
    qed
  qed
qed

abbreviation sample_file :: "string \<Rightarrow> json option option" where
  "sample_file \<equiv> \<lambda>_. Some (Some sample_document)"

lemma sample_file_parsed: "parse_config_file json_of (Some (Some sample_document)) = Inr sample_config"
  by (simp add: parse_config_file_def sample_parsed)

lemma stoi_samples: "stoi ''1'' = Inr 1" "stoi ''-1'' = Inr (- 1)"
  by (simp_all add: address_eval)

theorem started_activity_sound_witness:
  "\<exists>c. start_program json_of sample_file [''ziplog'', ''server'', ''c.json'', ''1''] = Inr (Inr (Server_node c)) \<and>
    wf_config sample_config \<and> nc_address c = (''127.0.0.1'', 7) \<and> length (sc_other_servers c) = 2"
proof -
  have small: "\<forall>name cf. parse_config_file json_of (sample_file name) = Inr cf \<longrightarrow> small_lists cf"
    by (simp add: sample_file_parsed sample_config_def small_lists_def)
  have "make_server_config 1 sample_config \<noteq> Inl e" for e
    by (simp add: make_server_config_def valid_in_master_def sample_config_def)
  then obtain c where "make_server_config 1 sample_config = Inr c" by (cases "make_server_config 1 sample_config") auto
  then have start: "start_program json_of sample_file [''ziplog'', ''server'', ''c.json'', ''1''] = Inr (Inr (Server_node c))"
    by (simp add: sample_file_parsed node_argument_def stoi_samples dispatch_def with_id_def catch_exceptions_def)
  have id: "nc_id c = 1"
    using \<open>make_server_config 1 sample_config = Inr c\<close> by (auto simp: make_server_config_def require_eq_Inr)
  from started_activity_sound [OF small, of "[''ziplog'', ''server'', ''c.json'', ''1'']"] start
  have "wf_config sample_config \<and> belongs sample_config (Server_node c)"
    by (simp add: sample_file_parsed)
  with start id show ?thesis by (simp add: sample_config_def)
qed

text \<open>A negative number of a proxy is cast to an unsigned one and read far outside the list.\<close>

lemma negative_proxy_read:
  "start_program json_of sample_file [''ziplog'', ''client'', ''c.json'', ''-1''] = Inl OutOfBounds"
  using unsigned_minus_1_eq_mask [where 'a = nat and 'b = 32]
  by (simp add: sample_file_parsed node_argument_def stoi_samples dispatch_def with_id_def catch_exceptions_def
      proxy_at_def sample_config_def mask_eq_exp_minus_1)

section \<open>The interactive client\<close>

text \<open>What is typed matters only in that \<^verbatim>\<open>quit\<close> ends the loop: the lines themselves are not sent.\<close>

lemma interact_ignores_text:
  assumes "map snd cs = map snd cs'" and "''quit'' \<notin> fst ` set cs" and "''quit'' \<notin> fst ` set cs'"
  shows "interact padding cs st = interact padding cs' st"
proof -
  have append: "client_append padding cmd ca st = client_append padding cmd' ca st" for cmd cmd' ca st
    by (simp add: client_append_def)
  have "length cs = length cs'" using assms(1) by (metis length_map)
  then show ?thesis
    using assms
  proof (induction cs cs' arbitrary: st rule: list_induct2)
    case (Cons x cs y cs')
    obtain line line' ca where xy: "x = (line, ca)" "y = (line', ca)" using Cons.prems(1) by (cases x; cases y) auto
    have "interact padding cs = interact padding cs'"
      using Cons.IH Cons.prems by (auto simp: fun_eq_iff)
    moreover have "line \<noteq> ''quit''" "line' \<noteq> ''quit''" using Cons.prems(2,3) by (auto simp: xy)
    ultimately show ?case
      using append [of "string_to_command line" ca st "string_to_command line'"] by (simp add: xy split: option.split sum.split)
  qed simp
qed

section \<open>The benchmark\<close>

lemma first_connection:
  assumes "0 \<le> os_socket os fds" and "os_connect os a"
  shows "get_connection os a (Map.empty, fds) =
    (os_socket os fds, [a \<mapsto> os_socket os fds], fds(os_socket os fds \<mapsto> Some a))"
  using assms by (simp add: get_connection_def new_connection_defs)

lemma benchmark_append:
  assumes "append_each padding (map (\<lambda>i. ([], calls i)) [0..<n]) st = Some (Inr (oks, st'))"
  shows "benchmark padding calls (int n) st = Some (Inr (length (filter id oks), st'))"
  using assms by (simp add: benchmark_def)

lemma filter_id_map: "length (filter id (map P xs)) = length (filter P xs)"
  by (induction xs) auto



end
