(* ===== verification/Earlier_Allocator.thy ===== *)
theory Earlier_Allocator
  imports Slot_Allocator
begin

text \<open>
  \<^verbatim>\<open>impl/zipper/slot_allocator_og.cpp\<close>, the allocator before the estimates moved out of the
  registry, and how far the present one of \<^verbatim>\<open>slot_allocator.cpp\<close> does the same. The earlier
  one is not part of the build any more; it serves as a reference for the present one.
\<close>

section \<open>The earlier allocator\<close>

text \<open>The estimate is kept with the other state of the proxy; one of an unknown proxy is dropped.\<close>

definition og_update_estimate :: "node_id \<Rightarrow> nat \<Rightarrow> registry \<Rightarrow> registry" where
  "og_update_estimate i n reg = (case reg i of None \<Rightarrow> reg | Some st \<Rightarrow> reg(i \<mapsto> st\<lparr>ps_estimate := n\<rparr>))"

definition og_wanted :: "registry \<Rightarrow> node_id \<Rightarrow> nat" where
  "og_wanted reg i = (case reg i of None \<Rightarrow> 0 | Some st \<Rightarrow> if ps_status st = Active then ps_estimate st else 0)"

definition og_collect_points :: "timestamp \<Rightarrow> registry \<Rightarrow> node_id list \<Rightarrow> (rat \<times> node_id) list" where
  "og_collect_points duration reg order =
    concat (map (\<lambda>i. map (\<lambda>t. (t, i)) (proxy_points duration (og_wanted reg i))) order)"

definition og_compute_allocations ::
  "node_id list \<Rightarrow> timestamp \<Rightarrow> timestamp \<Rightarrow> allocator \<Rightarrow> registry
    \<Rightarrow> fault + (node_id \<rightharpoonup> u64 list) \<times> allocator \<times> registry" where
  "og_compute_allocations order next_epoch duration al reg =
    assign_numbers next_epoch (sort (og_collect_points duration reg order)) Map.empty al reg"

section \<open>Runs\<close>

text \<open>What happens to the allocator and the registry between and at the epochs.\<close>

datatype allocator_event =
    Estimate node_id nat | Join node_id address | Rejoin node_id | Leave node_id
  | Set_status node_id proxy_status | Epoch "node_id list" timestamp timestamp

definition set_status :: "node_id \<Rightarrow> proxy_status \<Rightarrow> registry \<Rightarrow> registry" where
  "set_status i s reg = (case reg i of None \<Rightarrow> reg | Some st \<Rightarrow> reg(i \<mapsto> st\<lparr>ps_status := s\<rparr>))"

text \<open>The two allocators, with the allocations they give in each epoch.\<close>

fun run_allocator ::
  "allocator_event list \<Rightarrow> allocator \<times> registry \<Rightarrow> fault + (node_id \<rightharpoonup> u64 list) list" where
  "run_allocator [] (al, reg) = Inr []"
| "run_allocator (Estimate i n # es) (al, reg) = run_allocator es (update_estimate i n al, reg)"
| "run_allocator (Join i a # es) (al, reg) = run_allocator es (al, add_proxy i a reg)"
| "run_allocator (Rejoin i # es) (al, reg) = run_allocator es (al, rejoin_proxy i reg)"
| "run_allocator (Leave i # es) (al, reg) = run_allocator es (al, remove_proxy i reg)"
| "run_allocator (Set_status i s # es) (al, reg) = run_allocator es (al, set_status i s reg)"
| "run_allocator (Epoch order t d # es) (al, reg) =
    bind_res (compute_allocations order t d al reg) (\<lambda>(result, st).
      map_res (\<lambda>rs. result # rs) (run_allocator es st))"

fun run_earlier ::
  "allocator_event list \<Rightarrow> allocator \<times> registry \<Rightarrow> fault + (node_id \<rightharpoonup> u64 list) list" where
  "run_earlier [] (al, reg) = Inr []"
| "run_earlier (Estimate i n # es) (al, reg) = run_earlier es (al, og_update_estimate i n reg)"
| "run_earlier (Join i a # es) (al, reg) = run_earlier es (al, add_proxy i a reg)"
| "run_earlier (Rejoin i # es) (al, reg) = run_earlier es (al, rejoin_proxy i reg)"
| "run_earlier (Leave i # es) (al, reg) = run_earlier es (al, remove_proxy i reg)"
| "run_earlier (Set_status i s # es) (al, reg) = run_earlier es (al, set_status i s reg)"
| "run_earlier (Epoch order t d # es) (al, reg) =
    bind_res (og_compute_allocations order t d al reg) (\<lambda>(result, st).
      map_res (\<lambda>rs. result # rs) (run_earlier es st))"

text \<open>
  Every proxy that has joined or rejoined gives an estimate before the next epoch, and
  none before it has joined: \<open>R\<close> are the registered proxies, \<open>P\<close> those whose estimate is awaited.
\<close>

fun prompt :: "node_id set \<Rightarrow> node_id set \<Rightarrow> allocator_event list \<Rightarrow> bool" where
  "prompt R P [] \<longleftrightarrow> True"
| "prompt R P (Estimate i n # es) \<longleftrightarrow> i \<in> R \<and> prompt R (P - {i}) es"
| "prompt R P (Join i a # es) \<longleftrightarrow> prompt (insert i R) (insert i P) es"
| "prompt R P (Rejoin i # es) \<longleftrightarrow> prompt R (if i \<in> R then insert i P else P) es"
| "prompt R P (Leave i # es) \<longleftrightarrow> prompt (R - {i}) (P - {i}) es"
| "prompt R P (Set_status i s # es) \<longleftrightarrow> prompt R P es"
| "prompt R P (Epoch order t d # es) \<longleftrightarrow> P = {} \<and> prompt R P es"

section \<open>Simulation\<close>

text \<open>The registries agree on all but the estimates.\<close>

definition other_fields :: "proxy_state \<Rightarrow> proxy_state" where
  "other_fields st = st\<lparr>ps_estimate := 0\<rparr>"

definition like :: "registry \<Rightarrow> registry \<Rightarrow> bool" where
  "like reg og \<longleftrightarrow> (\<forall>i. map_option other_fields (reg i) = map_option other_fields (og i))"

definition estimates_agree :: "node_id set \<Rightarrow> allocator \<Rightarrow> registry \<Rightarrow> bool" where
  "estimates_agree P al og \<longleftrightarrow> (\<forall>i st. og i = Some st \<longrightarrow> i \<notin> P \<longrightarrow>
    ps_estimate st = (case al_estimates al i of None \<Rightarrow> 0 | Some n \<Rightarrow> n))"

lemma like_cases:
  assumes "like reg og"
  shows "reg i = None \<and> og i = None \<or>
    (\<exists>st st'. reg i = Some st \<and> og i = Some st' \<and> other_fields st = other_fields st')"
  using assms unfolding like_def by (cases "reg i"; cases "og i") (auto dest: spec [of _ i])

lemma other_fields_eq:
  assumes "other_fields st = other_fields st'"
  shows "ps_status st = ps_status st'" and "ps_allocated st = ps_allocated st'" and "ps_address st = ps_address st'"
    and "other_fields (st\<lparr>ps_allocated := xs\<rparr>) = other_fields (st'\<lparr>ps_allocated := xs\<rparr>)"
    and "other_fields (st\<lparr>ps_status := s\<rparr>) = other_fields (st'\<lparr>ps_status := s\<rparr>)"
  using assms by (cases st; cases st'; simp add: other_fields_def)+

lemma like_update: "like reg og \<Longrightarrow> other_fields st = other_fields st' \<Longrightarrow> like (reg(i \<mapsto> st)) (og(i \<mapsto> st'))"
  by (simp add: like_def)

lemma wanted_like:
  assumes "like reg og" and "estimates_agree {} al og"
  shows "og_wanted og i = wanted reg al i"
  using like_cases [OF assms(1), of i] assms(2)
  by (auto simp: og_wanted_def wanted_def estimates_agree_def dest: other_fields_eq(1))

definition estimates_in :: "registry \<Rightarrow> node_id \<rightharpoonup> nat" where
  "estimates_in og = (\<lambda>i. map_option ps_estimate (og i))"

text \<open>Two results of the numbering: the same numbers, and registries that agree again.\<close>

fun alike :: "(node_id \<rightharpoonup> nat) \<Rightarrow> (node_id \<rightharpoonup> nat) \<Rightarrow> fault + 'r \<times> allocator \<times> registry \<Rightarrow> fault + 'r \<times> allocator \<times> registry \<Rightarrow> bool" where
  "alike ests og_ests (Inl e) r \<longleftrightarrow> r = Inl e"
| "alike ests og_ests (Inr (result, al, reg)) r \<longleftrightarrow> (\<exists>al' og. r = Inr (result, al', og) \<and> like reg og \<and>
    al_global_seq al = al_global_seq al' \<and> al_estimates al = ests \<and> estimates_in og = og_ests)"

lemma assign_numbers_like:
  assumes "like reg og" and "al_global_seq al = al_global_seq al'"
  shows "alike (al_estimates al) (estimates_in og)
    (assign_numbers t ps res al reg) (assign_numbers t ps res al' og)"
  using assms
proof (induction ps arbitrary: res al reg al' og)
  case (Cons p ps)
  obtain x i where p: "p = (x, i)" by (cases p)
  consider (unknown) "reg i = None" "og i = None"
    | (known) st st' where "reg i = Some st" "og i = Some st'" "other_fields st = other_fields st'"
    using like_cases [OF Cons.prems(1), of i] by (elim disjE exE conjE)
  then show ?case
  proof cases
    case unknown
    then show ?thesis by (simp add: p Let_def require_def get_proxy_def)
  next
    case known
    let ?s = "al_global_seq al"
    let ?res = "res(i \<mapsto> ((case res i of None \<Rightarrow> [] | Some vs \<Rightarrow> vs) @ [t + of_int \<lfloor>x\<rfloor>]) @ [?s])"
    let ?reg = "reg(i \<mapsto> st\<lparr>ps_allocated := ps_allocated st @ [?s]\<rparr>)"
    let ?og = "og(i \<mapsto> st'\<lparr>ps_allocated := ps_allocated st @ [?s]\<rparr>)"
    have step: "assign_numbers t (p # ps) res al reg = require (\<lfloor>x\<rfloor> < 2 ^ 64) Overflow
        (assign_numbers t ps ?res (al\<lparr>al_global_seq := ?s + 1\<rparr>) ?reg)"
      "assign_numbers t (p # ps) res al' og = require (\<lfloor>x\<rfloor> < 2 ^ 64) Overflow
        (assign_numbers t ps ?res (al'\<lparr>al_global_seq := ?s + 1\<rparr>) ?og)"
      using known other_fields_eq(2) [OF known(3)] Cons.prems(2) by (simp_all add: p Let_def get_proxy_def)
    have like: "like ?reg ?og"
      by (rule like_update [OF Cons.prems(1) other_fields_eq(4) [OF known(3)]])
    have ests: "estimates_in ?og = estimates_in og"
      using known(2) by (auto simp: estimates_in_def fun_eq_iff)
    have "alike (al_estimates al) (estimates_in og)
        (assign_numbers t ps ?res (al\<lparr>al_global_seq := ?s + 1\<rparr>) ?reg)
        (assign_numbers t ps ?res (al'\<lparr>al_global_seq := ?s + 1\<rparr>) ?og)"
      using Cons.IH [OF like, of "al\<lparr>al_global_seq := ?s + 1\<rparr>" "al'\<lparr>al_global_seq := ?s + 1\<rparr>" ?res]
      by (simp add: ests del: fun_upd_apply)
    then show ?thesis unfolding step by (cases "\<lfloor>x\<rfloor> < 2 ^ 64") simp_all
  qed
qed simp

lemma estimates_agree_same:
  assumes "estimates_agree P al og" and "al_estimates al1 = al_estimates al"
    and "estimates_in og2 = estimates_in og"
  shows "estimates_agree P al1 og2" and "dom og2 = dom og"
proof -
  have est: "map_option ps_estimate (og2 i) = map_option ps_estimate (og i)" for i
    using assms(3) by (simp add: estimates_in_def fun_eq_iff)
  show "dom og2 = dom og"
    using est by (metis (no_types, lifting) domIff map_option_is_None set_eqI)
  show "estimates_agree P al1 og2"
  unfolding estimates_agree_def
proof (intro allI impI)
  fix i st
  assume "og2 i = Some st" "i \<notin> P"
  moreover from this est [of i] obtain st' where "og i = Some st'" "ps_estimate st' = ps_estimate st"
    by (metis map_option_eq_Some)
  ultimately show "ps_estimate st = (case al_estimates al1 i of None \<Rightarrow> 0 | Some n \<Rightarrow> n)"
    using assms(1,2) by (simp add: estimates_agree_def)
qed
qed

text \<open>One event between the epochs.\<close>

lemma like_events:
  assumes "like reg og"
  shows "like reg (og_update_estimate i n og)" and "like (add_proxy i a reg) (add_proxy i a og)"
    and "like (rejoin_proxy i reg) (rejoin_proxy i og)" and "like (remove_proxy i reg) (remove_proxy i og)"
    and "like (set_status i s reg) (set_status i s og)"
proof -
  have other: "map_option other_fields (reg k) = map_option other_fields (og k)" for k
    using assms by (simp add: like_def)
  show "like (add_proxy i a reg) (add_proxy i a og)" "like (remove_proxy i reg) (remove_proxy i og)"
    using other by (simp_all add: like_def add_proxy_def remove_proxy_def)
  show "like reg (og_update_estimate i n og)"
    using other like_cases [OF assms, of i]
    by (auto simp: like_def og_update_estimate_def) (simp add: other_fields_def)
  show "like (rejoin_proxy i reg) (rejoin_proxy i og)" "like (set_status i s reg) (set_status i s og)"
    using other like_cases [OF assms, of i]
    by (auto simp: like_def rejoin_proxy_def set_status_def dest: other_fields_eq(3,5))
qed

lemma estimates_events:
  assumes "estimates_agree P al og"
  shows "i \<in> dom og \<Longrightarrow> estimates_agree (P - {i}) (update_estimate i n al) (og_update_estimate i n og)"
    and "estimates_agree (insert i P) al (add_proxy i a og)"
    and "estimates_agree (if i \<in> dom og then insert i P else P) al (rejoin_proxy i og)"
    and "estimates_agree (P - {i}) al (remove_proxy i og)"
    and "estimates_agree P al (set_status i s og)"
  using assms
  by (auto simp: estimates_agree_def og_update_estimate_def update_estimate_def add_proxy_def rejoin_proxy_def
      remove_proxy_def set_status_def split: option.splits)

lemma dom_events [simp]:
  "dom (og_update_estimate i n og) = dom og" "dom (add_proxy i a og) = insert i (dom og)"
  "dom (rejoin_proxy i og) = dom og" "dom (remove_proxy i og) = dom og - {i}" "dom (set_status i s og) = dom og"
  by (auto simp: og_update_estimate_def add_proxy_def rejoin_proxy_def remove_proxy_def set_status_def
      split: option.splits)

lemma runs_agree:
  assumes "like reg og" and "estimates_agree P al og" and "al_global_seq al = al_global_seq al'" and "prompt (dom og) P es"
  shows "run_allocator es (al, reg) = run_earlier es (al', og)"
  using assms
proof (induction es arbitrary: al reg al' og P)
  case (Cons e es)
  show ?case
  proof (cases e)
    case (Epoch order t d)
    then have P: "P = {}" "prompt (dom og) {} es" using Cons.prems(4) by auto
    have wanted: "og_wanted og i = wanted reg al i" for i
      using wanted_like Cons.prems(1,2) P(1) by blast
    have points: "og_collect_points d og order = collect_points d reg al order"
      by (simp add: og_collect_points_def collect_points_def wanted)
    let ?r = "compute_allocations order t d al reg" and ?og = "og_compute_allocations order t d al' og"
    have alike: "alike (al_estimates al) (estimates_in og) ?r ?og"
      using assign_numbers_like [OF Cons.prems(1,3)]
      by (simp add: compute_allocations_def og_compute_allocations_def points)
    show ?thesis
    proof (cases ?r)
      case (Inl e')
      with alike show ?thesis by (simp add: Epoch)
    next
      case (Inr r)
      obtain result al1 reg1 where r: "r = (result, al1, reg1)" by (cases r)
      with alike Inr obtain al2 og2 where sim: "?og = Inr (result, al2, og2)" "like reg1 og2"
        "al_global_seq al1 = al_global_seq al2" "al_estimates al1 = al_estimates al"
        "estimates_in og2 = estimates_in og" by auto
      note og2 = estimates_agree_same [OF Cons.prems(2) sim(4,5)]
      have "run_allocator es (al1, reg1) = run_earlier es (al2, og2)"
        using Cons.IH [OF sim(2) og2(1) sim(3)] P og2(2) by simp
      with Inr r sim(1) show ?thesis by (simp add: Epoch)
    qed
  next
    case (Estimate i n)
    with Cons show ?thesis
      using like_events(1) [OF Cons.prems(1), of i n] estimates_events(1) [OF Cons.prems(2), of i n]
      by (simp add: update_estimate_def)
  next
    case (Join i a)
    with Cons show ?thesis
      using like_events(2) [OF Cons.prems(1), of i a] estimates_events(2) [OF Cons.prems(2), of i a] by simp
  next
    case (Rejoin i)
    with Cons.prems(4) have "prompt (dom (rejoin_proxy i og)) (if i \<in> dom og then insert i P else P) es" by simp
    with Rejoin Cons.IH like_events(3) [OF Cons.prems(1), of i] estimates_events(3) [OF Cons.prems(2), of i] Cons.prems(3)
    show ?thesis by simp
  next
    case (Leave i)
    with Cons show ?thesis
      using like_events(4) [OF Cons.prems(1), of i] estimates_events(4) [OF Cons.prems(2), of i] by simp
  next
    case (Set_status i s)
    with Cons show ?thesis
      using like_events(5) [OF Cons.prems(1), of i s] estimates_events(5) [OF Cons.prems(2), of i s] by simp
  qed
qed simp

section \<open>Properties\<close>

text \<open>
  C8: the present allocator is the earlier one with the estimates kept elsewhere. Over any
  run of estimates, joins, rejoins, departures, changes of status and epochs, both give the same
  slots with the same times and numbers in every epoch and fault together, provided that every
  proxy that joins or rejoins gives its estimate before the next epoch, and not before it joins.
\<close>

theorem allocator_equals_earlier:
  assumes "prompt {} {} es"
  shows "run_allocator es (new_allocator s, Map.empty) = run_earlier es (new_allocator s, Map.empty)"
  by (rule runs_agree [where P = "{}"]) (use assms in \<open>simp_all add: like_def estimates_agree_def\<close>)

definition sample_events :: "allocator_event list" where
  "sample_events = [Join 3 (''10.0.0.1'', 80), Estimate 3 2, Join 5 (''10.0.0.2'', 80), Estimate 5 1,
    Epoch [3, 5] 1000 500, Set_status 5 Blocked, Rejoin 5, Estimate 5 4, Epoch [5, 3] 1500 500]"

theorem allocator_equals_earlier_witness:
  "run_allocator sample_events (new_allocator 1, Map.empty) = run_earlier sample_events (new_allocator 1, Map.empty)"
  by (rule allocator_equals_earlier) (simp add: sample_events_def)

text \<open>
  Without a prompt estimate they differ: a proxy that has rejoined gets slots for the estimate it
  gave before it failed, although \<^verbatim>\<open>rejoin_proxy\<close> is to reset its state; the earlier allocator
  gives it none.
\<close>

lemma rejoin_keeps_estimate:
  assumes "reg i = Some st" and "al_estimates al i = Some n"
  shows "wanted (rejoin_proxy i reg) al i = n" and "og_wanted (rejoin_proxy i reg) i = 0"
  using assms by (simp_all add: wanted_def og_wanted_def rejoin_proxy_def fresh_proxy_def)

end
