(* ===== verification/Proxy_Shutdown.thy ===== *)
theory Proxy_Shutdown
  imports Proxy
begin

text \<open>
  The destructor of \<^verbatim>\<open>impl/proxy/proxy.cpp\<close> against the threads it has to end: the epoch
  timer's, which may be waiting for a batch in \<^verbatim>\<open>replicate_bytes\<close>, and the workers of the
  replicator.
\<close>

section \<open>States and steps\<close>

text \<open>
  Where the timer's thread is (before the test of its loop, among the slots of an epoch, waiting
  for the state of an item, before it reads the number of workers) and where the destructor is.
\<close>

datatype turn_pc = At_test | At_slots | Awaiting nat | Counted nat | Turns_over
datatype destroy_pc = Running | Joining_timer | Closing_node | Stopping_workers | Joining_workers | Destroyed

record dying_proxy =
  dy_running :: bool
  dy_paused :: bool
  dy_turn :: turn_pc
  dy_close :: destroy_pc
  dy_replicator :: replicator

definition living_proxy :: "nat \<Rightarrow> nat \<Rightarrow> byte list \<Rightarrow> dying_proxy" where
  "living_proxy n quorum junk =
    \<lparr>dy_running = True, dy_paused = False, dy_turn = At_test, dy_close = Running,
     dy_replicator = start_replicator n quorum junk\<rparr>"

text \<open>
  The destructor stops the timer and joins its thread, shuts the node down, then signals the
  workers and joins them. The loop of the timer tests \<^verbatim>\<open>running_\<close> between epochs only.
\<close>

inductive destroy_step :: "dying_proxy \<Rightarrow> dying_proxy \<Rightarrow> bool" where
  turn: "dy_turn d = At_test \<Longrightarrow> dy_running d \<Longrightarrow> \<not> dy_paused d \<Longrightarrow> destroy_step d (d\<lparr>dy_turn := At_slots\<rparr>)"
| turns_over: "dy_turn d = At_test \<Longrightarrow> \<not> dy_running d \<or> dy_paused d \<Longrightarrow> destroy_step d (d\<lparr>dy_turn := Turns_over\<rparr>)"
| send: "dy_turn d = At_slots \<Longrightarrow> destroy_step d
    (d\<lparr>dy_turn := Awaiting (length (rp_wires (dy_replicator d))), dy_replicator := enqueue_all wire (dy_replicator d)\<rparr>)"
| quorum_seen: "dy_turn d = Awaiting k \<Longrightarrow> enough k (dy_replicator d) \<Longrightarrow> destroy_step d (d\<lparr>dy_turn := At_slots\<rparr>)"
| none_seen: "dy_turn d = Awaiting k \<Longrightarrow> \<not> enough k (dy_replicator d) \<Longrightarrow> destroy_step d (d\<lparr>dy_turn := Counted k\<rparr>)"
| gave_up: "dy_turn d = Counted k \<Longrightarrow> none_left (dy_replicator d) \<Longrightarrow> destroy_step d (d\<lparr>dy_turn := At_slots\<rparr>)"
| spins: "dy_turn d = Counted k \<Longrightarrow> \<not> none_left (dy_replicator d) \<Longrightarrow> destroy_step d (d\<lparr>dy_turn := Awaiting k\<rparr>)"
| epoch_over: "dy_turn d = At_slots \<Longrightarrow> destroy_step d (d\<lparr>dy_turn := At_test\<rparr>)"
| pausing: "destroy_step d (d\<lparr>dy_paused := p\<rparr>)"
| work: "worker_step (dy_replicator d) r \<Longrightarrow> destroy_step d (d\<lparr>dy_replicator := r\<rparr>)"
| stop: "dy_close d = Running \<Longrightarrow> destroy_step d (d\<lparr>dy_running := False, dy_close := Joining_timer\<rparr>)"
| join_timer: "dy_close d = Joining_timer \<Longrightarrow> dy_turn d = Turns_over \<Longrightarrow> destroy_step d (d\<lparr>dy_close := Closing_node\<rparr>)"
| close_node: "dy_close d = Closing_node \<Longrightarrow> destroy_step d (d\<lparr>dy_close := Stopping_workers\<rparr>)"
| stop_workers: "dy_close d = Stopping_workers \<Longrightarrow>
    destroy_step d (d\<lparr>dy_close := Joining_workers, dy_replicator := rp_shutdown (dy_replicator d)\<rparr>)"
| join_workers: "dy_close d = Joining_workers \<Longrightarrow> \<forall>w \<in> set (rp_workers (dy_replicator d)). w_exited w \<Longrightarrow>
    destroy_step d (d\<lparr>dy_close := Destroyed\<rparr>)"

section \<open>A destruction that completes\<close>

text \<open>Exited workers take no step, and nothing is submitted once the timer's thread has ended.\<close>

definition dying_inv :: "dying_proxy \<Rightarrow> bool" where
  "dying_inv d \<longleftrightarrow> (dy_close d \<notin> {Running, Joining_timer} \<longrightarrow> dy_turn d = Turns_over) \<and>
    (dy_turn d = At_test \<or> dy_turn d = At_slots \<or> dy_turn d = Turns_over \<or>
      (\<exists>k. dy_turn d \<in> {Awaiting k, Counted k} \<and> k < length (rp_wires (dy_replicator d)))) \<and>
    (dy_close d = Destroyed \<longrightarrow> (\<forall>w \<in> set (rp_workers (dy_replicator d)). w_exited w)) \<and>
    (dy_close d \<noteq> Running \<longrightarrow> \<not> dy_running d)"

lemma worker_step_running: "worker_step r r' \<Longrightarrow> \<exists>w \<in> set (rp_workers r). \<not> w_exited w"
  by (induction rule: worker_step.induct) (auto intro: nth_mem)

lemma dying_inv_step: "destroy_step d d' \<Longrightarrow> dying_inv d \<Longrightarrow> dying_inv d'"
proof (induction rule: destroy_step.induct)
  case (work d r)
  then show ?case
    using worker_step_wires [OF work(1)] worker_step_running [OF work(1)] by (auto simp: dying_inv_def)
next
  case (send d wire)
  then show ?case by (auto simp: dying_inv_def enqueue_all_def Let_def)
next
  case (stop_workers d)
  then show ?case by (auto simp: dying_inv_def rp_shutdown_def)
qed (auto simp: dying_inv_def)

lemma dying_inv_run: "destroy_step\<^sup>*\<^sup>* d d' \<Longrightarrow> dying_inv d \<Longrightarrow> dying_inv d'"
  by (induction rule: rtranclp_induct) (auto intro: dying_inv_step)

lemma rp_reachable_step: "destroy_step d d' \<Longrightarrow> rp_reachable n quorum (dy_replicator d) \<Longrightarrow> rp_reachable n quorum (dy_replicator d')"
  by (induction rule: destroy_step.induct) (auto intro: rp_reachable.intros)

lemma rp_reachable_run:
  "destroy_step\<^sup>*\<^sup>* d d' \<Longrightarrow> rp_reachable n quorum (dy_replicator d) \<Longrightarrow> rp_reachable n quorum (dy_replicator d')"
  by (induction rule: rtranclp_induct) (auto intro: rp_reachable_step)

section \<open>A destruction that hangs\<close>

definition stuck :: "nat \<Rightarrow> nat \<Rightarrow> dying_proxy \<Rightarrow> bool" where
  "stuck i k d \<longleftrightarrow> dy_turn d \<in> {Awaiting k, Counted k} \<and> dy_close d \<in> {Running, Joining_timer} \<and> rp_inv (dy_replicator d) \<and>
    idle i (dy_replicator d) \<and>
    card (ackers k (dy_replicator d) \<union> alive (dy_replicator d)) < rp_quorum (dy_replicator d)"

lemma stuck_awaits:
  assumes "stuck i k d"
  shows "\<not> enough k (dy_replicator d)" and "\<not> none_left (dy_replicator d)"
proof -
  let ?r = "dy_replicator d"
  have "card (ackers k ?r) \<le> card (ackers k ?r \<union> alive ?r)" by (intro card_mono) auto
  moreover have "i \<in> alive ?r" using assms by (simp add: stuck_def idle_def alive_def)
  ultimately have "await k ?r ?r = None" using assms by (auto simp: stuck_def await_inv)
  then show "\<not> enough k ?r" and "\<not> none_left ?r" by (auto simp: await_def split: if_splits)
qed

lemma stuck_step: "destroy_step d d' \<Longrightarrow> stuck i k d \<Longrightarrow> stuck i k d'"
proof (induction rule: destroy_step.induct)
  case (quorum_seen d j)
  then show ?case using stuck_awaits [of i k d] by (simp add: stuck_def)
next
  case (gave_up d j)
  then show ?case using stuck_awaits [of i k d] by (simp add: stuck_def)
next
  case (work d r)
  then show ?case
    using worker_steps_stuck [of "dy_replicator d" r i k] by (auto simp: stuck_def)
qed (auto simp: stuck_def)

lemma stuck_run: "destroy_step\<^sup>*\<^sup>* d d' \<Longrightarrow> stuck i k d \<Longrightarrow> stuck i k d'"
  by (induction rule: rtranclp_induct) (auto intro: stuck_step)

section \<open>Properties\<close>

text \<open>
  C17: the destruction of a proxy is clean or does not end. When the destructor has returned, the timer's
  thread and every worker have ended and no batch is waited for. But when the timer waits for a
  batch while some worker is idle and the workers that acknowledged it or are alive are
  fewer than a quorum, the destructor never returns, however all threads go on: it joins the
  timer before it stops the replicator, and the wait tests nothing that the destructor sets.
\<close>

theorem proxy_destruction:
  assumes "destroy_step\<^sup>*\<^sup>* (living_proxy n quorum junk) d"
  shows "(dy_close d = Destroyed \<longrightarrow> dy_turn d = Turns_over \<and> alive (dy_replicator d) = {}) \<and>
    (dy_turn d \<in> {Awaiting k, Counted k} \<and> dy_close d \<in> {Running, Joining_timer} \<and> idle i (dy_replicator d) \<and>
      card (ackers k (dy_replicator d) \<union> alive (dy_replicator d)) < quorum \<longrightarrow>
      (\<forall>d'. destroy_step\<^sup>*\<^sup>* d d' \<longrightarrow> dy_close d' \<noteq> Destroyed))"
proof -
  have "dying_inv (living_proxy n quorum junk)" by (simp add: dying_inv_def living_proxy_def)
  with assms have inv: "dying_inv d" by (rule dying_inv_run)
  have "rp_reachable n quorum (dy_replicator (living_proxy n quorum junk))"
    by (simp add: living_proxy_def rp_start)
  with assms have reach: "rp_reachable n quorum (dy_replicator d)" by (rule rp_reachable_run)
  have hang: "dy_close d' \<noteq> Destroyed" if "stuck i k d" "destroy_step\<^sup>*\<^sup>* d d'" for d'
    using stuck_run [OF that(2,1)] by (auto simp: stuck_def)
  have "alive (dy_replicator d) = {}" if "dy_close d = Destroyed"
    using inv that by (auto simp: dying_inv_def alive_def)
  moreover have "stuck i k d" if "dy_turn d \<in> {Awaiting k, Counted k}" "dy_close d \<in> {Running, Joining_timer}" "idle i (dy_replicator d)"
    "card (ackers k (dy_replicator d) \<union> alive (dy_replicator d)) < quorum"
    using that rp_inv_reachable [OF reach] rp_reachable_shape [OF reach] by (simp add: stuck_def)
  moreover have "dy_turn d = Turns_over" if "dy_close d = Destroyed"
    using inv that by (simp add: dying_inv_def)
  ultimately show ?thesis using hang by blast
qed

lemma work_steps:
  "worker_step\<^sup>*\<^sup>* r r' \<Longrightarrow> destroy_step\<^sup>*\<^sup>* (d\<lparr>dy_replicator := r\<rparr>) (d\<lparr>dy_replicator := r'\<rparr>)"
proof (induction rule: rtranclp_induct)
  case (step r' r'')
  then have "destroy_step (d\<lparr>dy_replicator := r'\<rparr>) (d\<lparr>dy_replicator := r'\<rparr>\<lparr>dy_replicator := r''\<rparr>)"
    by (intro work) simp
  with step show ?case by simp
qed simp

text \<open>Three servers of which two fail while a batch is on its way.\<close>

theorem proxy_destruction_witness:
  "\<exists>d. destroy_step\<^sup>*\<^sup>* (living_proxy 3 2 (replicate CAPACITY 0)) d \<and>
    (\<forall>d'. destroy_step\<^sup>*\<^sup>* d d' \<longrightarrow> dy_close d' \<noteq> Destroyed)"
proof -
  let ?l = "living_proxy 3 2 (replicate CAPACITY 0)"
  let ?slots = "?l\<lparr>dy_turn := At_slots\<rparr>"
  define wait where "wait = ?slots\<lparr>dy_turn := Awaiting (length (rp_wires (dy_replicator ?slots))),
    dy_replicator := enqueue_all [1, 2, 3] (dy_replicator ?slots)\<rparr>"
  have same: "wait = wait\<lparr>dy_replicator := one_item [1, 2, 3] 2\<rparr>"
    by (simp add: wait_def one_item_def living_proxy_def)
  have "destroy_step ?l ?slots" by (rule turn) (simp_all add: living_proxy_def)
  moreover have "destroy_step ?slots wait" unfolding wait_def by (rule send) simp
  ultimately have "destroy_step\<^sup>*\<^sup>* ?l wait" by simp
  then have submitted: "destroy_step\<^sup>*\<^sup>* ?l (wait\<lparr>dy_replicator := one_item [1, 2, 3] 2\<rparr>)"
    by (rule subst [OF same])
  obtain rb where "worker_step\<^sup>*\<^sup>* (one_item [1, 2, 3] 2) (one_ack [1, 2, 3] 2 rb)"
    using one_ack_steps by blast
  from rtranclp_trans [OF this two_lost_steps]
  have "worker_step\<^sup>*\<^sup>* (one_item [1, 2, 3] 2) (two_lost [1, 2, 3] 2 rb)" by simp
  note run = rtranclp_trans [OF submitted work_steps [OF this]]
  have "\<forall>d'. destroy_step\<^sup>*\<^sup>* (wait\<lparr>dy_replicator := two_lost [1, 2, 3] 2 rb\<rparr>) d' \<longrightarrow> dy_close d' \<noteq> Destroyed"
    using proxy_destruction [OF run, of 0 0] two_lost_facts [of "[1, 2, 3]" 2 rb]
    by (simp add: wait_def living_proxy_def start_replicator_def)
  with run show ?thesis by blast
qed

end
