(* ===== verification/Zipper.thy ===== *)
theory Zipper
  imports Reconfiguration Config Command_Batch Framing
begin

text \<open>
  \<^verbatim>\<open>impl/zipper/zipper.cpp\<close>: the Zipper itself. Its handlers change the registry, the
  estimates, the queue of joining proxies and the tasks of the reconfiguration; an epoch
  allocates slots and admits the joining proxies. What a broadcast to the servers achieved is an input:
  \<open>acks\<close> says of each server whether it was reached and acknowledged.
\<close>

section \<open>State\<close>

record zipper =
  zp_shard :: shard_id
  zp_f :: int
  zp_duration :: timestamp
  zp_proxies :: "address list"
  zp_servers :: "address list"
  zp_subscribers :: "address list"
  zp_registry :: registry
  zp_allocator :: allocator
  zp_joining :: "address list"
  zp_tasks :: "task list"

fun register_from :: "nat \<Rightarrow> address list \<Rightarrow> registry \<Rightarrow> registry" where
  "register_from i [] reg = reg"
| "register_from i (a # as) reg = register_from (i + 1) as (add_proxy (of_nat i) a reg)"

text \<open>The default of \<^verbatim>\<open>starting_seq\<close> is 1.\<close>

definition new_zipper :: "zipper_config \<Rightarrow> zipper" where
  "new_zipper cfg =
    \<lparr>zp_shard = nc_shard cfg, zp_f = nc_f cfg, zp_duration = zc_epoch_duration cfg,
     zp_proxies = zc_proxies cfg, zp_servers = zc_servers cfg, zp_subscribers = zc_subscribers cfg,
     zp_registry = register_from 0 (zc_proxies cfg) Map.empty, zp_allocator = new_allocator 1,
     zp_joining = [], zp_tasks = []\<rparr>"

section \<open>Operations\<close>

definition zipper_update_estimate :: "message \<Rightarrow> zipper \<Rightarrow> fault + zipper" where
  "zipper_update_estimate req z =
    (if shard_id req \<noteq> zp_shard z \<or> \<not> valid_in_node (sender_id req) (zp_proxies z) then Inr z
     else map_res (\<lambda>n. z\<lparr>zp_allocator := update_estimate (sender_id req) (unat n) (zp_allocator z)\<rparr>)
       (get_num_requests req))"

text \<open>
  The address in a request to join: split at the first colon. Without a colon both parts are
  the whole string, since \<^verbatim>\<open>npos + 1\<close> is 0. Nothing catches the exceptions of
  \<^verbatim>\<open>std::stoi\<close>.
\<close>

definition peer_address :: "command \<Rightarrow> fault + address" where
  "peer_address d =
    (let addr_info = command_to_string d;
         ip = takeWhile (\<lambda>c. c \<noteq> CHR '':'') addr_info;
         rest = (if CHR '':'' \<in> set addr_info then tl (dropWhile (\<lambda>c. c \<noteq> CHR '':'') addr_info) else addr_info)
     in map_res (\<lambda>port. (ip, port)) (stoi rest))"

text \<open>\<^verbatim>\<open>add_proxy\<close>; the message is the one sent to every server.\<close>

definition join_message :: "message_type \<Rightarrow> shard_id \<Rightarrow> node_id \<Rightarrow> command \<Rightarrow> seq_num \<Rightarrow> message" where
  "join_message t sh i d junk = build_message (code t) sh i junk d []"

definition zipper_add_proxy ::
  "message \<Rightarrow> bool \<Rightarrow> bool list \<Rightarrow> seq_num \<Rightarrow> zipper \<Rightarrow> fault + message list \<times> zipper" where
  "zipper_add_proxy msg is_new acks junk z =
    bind_res (peer_address (msg_data msg)) (\<lambda>a.
      let proxy_id = sender_id msg;
          z = (if is_new then z else z\<lparr>zp_registry := rejoin_proxy proxy_id (zp_registry z)\<rparr>);
          ok = length (filter id acks);
          z = (if config_quorum (zp_f z) \<le> ok then z\<lparr>zp_joining := zp_joining z @ [a]\<rparr> else z)
      in Inr ([join_message INCLUDE_PROXY (zp_shard z) proxy_id (msg_data msg) junk], z))"

definition zipper_introduce_subscriber ::
  "message \<Rightarrow> bool list \<Rightarrow> seq_num \<Rightarrow> zipper \<Rightarrow> fault + message list \<times> zipper" where
  "zipper_introduce_subscriber msg acks junk z =
    bind_res (peer_address (msg_data msg)) (\<lambda>a.
      let ok = length (filter id acks);
          z = (if ok < config_quorum (zp_f z) then z else z\<lparr>zp_subscribers := zp_subscribers z @ [a]\<rparr>)
      in Inr ([join_message INCLUDE_SUBSCRIBER (zp_shard z) (sender_id msg) (msg_data msg) junk], z))"

text \<open>The dispatch of \<^verbatim>\<open>handle_connection\<close>; a message of another type is ignored.\<close>

definition zipper_handle ::
  "message \<Rightarrow> bool list \<Rightarrow> seq_num \<Rightarrow> zipper \<Rightarrow> fault + message list \<times> zipper" where
  "zipper_handle req acks junk z =
    (if msg_type req = code ZIP_REQUEST then map_res (\<lambda>z. ([], z)) (zipper_update_estimate req z)
     else if msg_type req = code REPORT then
       map_res (\<lambda>(reg, start). ([], z\<lparr>zp_registry := reg,
           zp_tasks := zp_tasks z @ (case start of None \<Rightarrow> [] | Some fp \<Rightarrow> [Announce fp True])\<rparr>))
         (handle_report (config_quorum (zp_f z)) req (zp_registry z))
     else if msg_type req = code FREEZE_RESPONSE then
       map_res (\<lambda>(reg, next). ([], z\<lparr>zp_registry := reg,
           zp_tasks := zp_tasks z @ (case next of None \<Rightarrow> [] | Some t \<Rightarrow> [t])\<rparr>))
         (handle_freeze_response (config_quorum (zp_f z)) req (zp_registry z))
     else if msg_type req = code REGISTER_PROXY then zipper_add_proxy req True acks junk z
     else if msg_type req = code REJOIN_PROXY then zipper_add_proxy req False acks junk z
     else if msg_type req = code REGISTER_SUBSCRIBER then zipper_introduce_subscriber req acks junk z
     else Inr ([], z))"

text \<open>
  The end of an epoch. One asynchronous task per joining proxy takes the next identifier and
  registers it; \<open>order\<close> is the order in which the tasks get the lock.
\<close>

definition admit_proxy :: "address \<Rightarrow> zipper \<Rightarrow> zipper" where
  "admit_proxy a z =
    (let new_id = of_nat (length (zp_proxies z)) :: node_id
     in z\<lparr>zp_proxies := zp_proxies z @ [a], zp_registry := add_proxy new_id a (zp_registry z)\<rparr>)"

definition introduce_proxies :: "address list \<Rightarrow> zipper \<Rightarrow> zipper" where
  "introduce_proxies order z = fold admit_proxy order (z\<lparr>zp_joining := []\<rparr>)"

text \<open>Three quarters through an epoch; \<open>order\<close> is the iteration order of the registry.\<close>

definition allocate_slots ::
  "node_id list \<Rightarrow> timestamp \<Rightarrow> zipper \<Rightarrow> fault + (node_id \<rightharpoonup> u64 list) \<times> zipper" where
  "allocate_slots order next_epoch z =
    map_res (\<lambda>(result, al, reg). (result, z\<lparr>zp_allocator := al, zp_registry := reg\<rparr>))
      (compute_allocations order next_epoch (zp_duration z) (zp_allocator z) (zp_registry z))"

text \<open>
  \<^verbatim>\<open>deliver_slot_allocation\<close>: the message for a proxy and for all servers, and where the
  proxy is. An unknown proxy throws.
\<close>

definition slot_message ::
  "shard_id \<Rightarrow> node_id \<Rightarrow> u64 list \<Rightarrow> shard_id \<times> node_id \<times> seq_num \<Rightarrow> fault + message" where
  "slot_message shard proxy vs junk =
    bind_res (set_num_requests (of_nat (length vs div 2))
        ((blank_message (code ZIP_RESPONSE) junk)\<lparr>shard_id := shard, sender_id := proxy\<rparr>))
      (set_assigned_sequences vs)"

definition deliver_slot_allocation ::
  "node_id \<Rightarrow> u64 list \<Rightarrow> shard_id \<times> node_id \<times> seq_num \<Rightarrow> zipper \<Rightarrow> fault + address \<times> message" where
  "deliver_slot_allocation proxy vs junk z =
    bind_res (slot_message (zp_shard z) proxy vs junk) (\<lambda>resp.
      map_res (\<lambda>st. (ps_address st, resp)) (get_proxy proxy (zp_registry z)))"

text \<open>The loop of a connection over the blocking reader; \<open>outcomes\<close> are the \<open>acks\<close> of the messages.\<close>

fun zipper_connection ::
  "bool list list \<Rightarrow> seq_num \<Rightarrow> zipper \<Rightarrow> socket_in \<Rightarrow> (fault + message list \<times> zipper \<times> socket_in) option" where
  "zipper_connection [] junk z evs = Some (Inr ([], z, evs))"
| "zipper_connection (acks # outcomes) junk z evs =
    (case recv_message evs of
       None \<Rightarrow> None
     | Some (Inl e) \<Rightarrow> Some (Inl e)
     | Some (Inr (None, evs)) \<Rightarrow> Some (Inr ([], z, evs))
     | Some (Inr (Some req, evs)) \<Rightarrow>
         (case zipper_handle req acks junk z of
            Inl e \<Rightarrow> Some (Inl e)
          | Inr (out, z) \<Rightarrow>
              map_option (map_res (\<lambda>(outs, r). (out @ outs, r))) (zipper_connection outcomes junk z evs)))"

section \<open>Steps\<close>

text \<open>The numbers among the alternating values of a proxy.\<close>

fun numbers_in :: "u64 list \<Rightarrow> seq_num list" where
  "numbers_in (t # n # vs) = n # numbers_in vs"
| "numbers_in _ = []"

text \<open>
  The step relation of the Zipper, labelled with the numbers it hands out and to whom:
  messages of any content, the sections of the reconfiguration, and the two events of an epoch.
\<close>

definition issued_by :: "node_id list \<Rightarrow> (node_id \<rightharpoonup> u64 list) \<Rightarrow> (node_id \<times> seq_num) list" where
  "issued_by order result = concat (map (\<lambda>i. map (Pair i) (numbers_in (given result i))) order)"

inductive zipper_step :: "zipper \<Rightarrow> (node_id \<times> seq_num) list \<Rightarrow> zipper \<Rightarrow> bool" where
  z_message: "zipper_handle req acks junk z = Inr (out, z') \<Longrightarrow> zipper_step z [] z'"
| z_task: "i < length (zp_tasks z) \<Longrightarrow>
    run_task (zp_shard z) junk (zp_tasks z ! i) (zp_registry z) = Inr (reg', ts, ms) \<Longrightarrow>
    zipper_step z [] (z\<lparr>zp_registry := reg', zp_tasks := take i (zp_tasks z) @ ts @ drop (Suc i) (zp_tasks z)\<rparr>)"
| z_introduce: "mset order = mset (zp_joining z) \<Longrightarrow> zipper_step z [] (introduce_proxies order z)"
| z_allocate: "distinct order \<Longrightarrow> set order = dom (zp_registry z) \<Longrightarrow>
    allocate_slots order next_epoch z = Inr (result, z') \<Longrightarrow> zipper_step z (issued_by order result) z'"

inductive zipper_reachable :: "zipper_config \<Rightarrow> (node_id \<times> seq_num) list \<Rightarrow> zipper \<Rightarrow> bool" for cfg where
  z_start: "zipper_reachable cfg [] (new_zipper cfg)"
| z_next: "zipper_reachable cfg issued z \<Longrightarrow> zipper_step z new z' \<Longrightarrow> zipper_reachable cfg (issued @ new) z'"

section \<open>No number twice\<close>

lemma numbers_in_interleave [simp]: "numbers_in (interleave ps) = map snd ps"
  by (induction ps) auto

lemma assign_numbers_Inr:
  "assign_numbers next_epoch ps result al reg = Inr r \<Longrightarrow> \<forall>(t, i) \<in> set ps. \<lfloor>t\<rfloor> < 2 ^ 64 \<and> reg i \<noteq> None"
proof (induction ps arbitrary: result al reg)
  case (Cons p ps)
  obtain t i where p: "p = (t, i)" by (cases p)
  obtain st result' al' where st: "\<lfloor>t\<rfloor> < 2 ^ 64" "reg i = Some st"
    and rest: "assign_numbers next_epoch ps result' al' (reg(i \<mapsto> st\<lparr>ps_allocated := ps_allocated st @ [al_global_seq al]\<rparr>)) = Inr r"
    using Cons.prems by (auto simp: p Let_def require_eq_Inr bind_res_eq_Inr get_proxy_def split: option.splits)
  have "\<forall>(t, j) \<in> set ps. \<lfloor>t\<rfloor> < 2 ^ 64 \<and> reg j \<noteq> None"
    using Cons.IH [OF rest] st(2) by (fastforce split: if_splits)
  with st show ?case by (simp add: p)
qed simp

lemma assign_numbers_facts:
  assumes run: "assign_numbers next_epoch ps result al reg = Inr (result', al', reg')"
  shows "given result' i = given result i @ interleave (slots_for next_epoch i (al_global_seq al) ps)"
    and "allocated reg' i = allocated reg i @ map snd (slots_for next_epoch i (al_global_seq al) ps)"
    and "al_global_seq al' = al_global_seq al + of_nat (length ps)" and "al_estimates al' = al_estimates al"
proof -
  obtain r a g where eq: "assign_numbers next_epoch ps result al reg = Inr (r, a, g)"
    and facts: "\<forall>i. given r i = given result i @ interleave (slots_for next_epoch i (al_global_seq al) ps)"
      "\<forall>i. allocated g i = allocated reg i @ map snd (slots_for next_epoch i (al_global_seq al) ps)"
      "al_global_seq a = al_global_seq al + of_nat (length ps)" "al_estimates a = al_estimates al"
    using assign_numbers_result [OF assign_numbers_Inr [OF run], of next_epoch result al] by metis
  have "r = result'" "a = al'" "g = reg'"
    using run unfolding eq by simp_all
  with facts show "given result' i = given result i @ interleave (slots_for next_epoch i (al_global_seq al) ps)"
    and "allocated reg' i = allocated reg i @ map snd (slots_for next_epoch i (al_global_seq al) ps)"
    and "al_global_seq al' = al_global_seq al + of_nat (length ps)" and "al_estimates al' = al_estimates al"
    by simp_all
qed

lemma mset_concat_one:
  "distinct order \<Longrightarrow> j \<in> set order \<Longrightarrow>
    mset (concat (map (\<lambda>i. (if j = i then [x] else []) @ f i) order)) = add_mset x (mset (concat (map f order)))"
proof (induction order)
  case (Cons i order)
  have none: "j \<notin> set is \<Longrightarrow> mset (concat (map (\<lambda>i. (if j = i then [x] else []) @ f i) is)) = mset (concat (map f is))" for "is"
    by (induction "is") auto
  show ?case
    using Cons none [of order] by auto
qed simp

lemma all_numbers_issued:
  assumes "distinct order" and "snd ` set ps \<subseteq> set order"
  shows "mset (concat (map (\<lambda>i. map snd (slots_for next_epoch i g ps)) order)) =
    mset (map (\<lambda>k. g + of_nat k) [0..<length ps])"
  using assms(2)
proof (induction ps arbitrary: g)
  case Nil
  show ?case by (induction order) auto
next
  case (Cons p ps)
  obtain t j where p: "p = (t, j)" by (cases p)
  have "mset (concat (map (\<lambda>i. map snd (slots_for next_epoch i g (p # ps))) order)) =
      mset (concat (map (\<lambda>i. (if j = i then [g] else []) @ map snd (slots_for next_epoch i (g + 1) ps)) order))"
    by (rule arg_cong [where f = "\<lambda>f. mset (concat (map f order))"]) (auto simp: p)
  also have "\<dots> = add_mset g (mset (concat (map (\<lambda>i. map snd (slots_for next_epoch i (g + 1) ps)) order)))"
    by (rule mset_concat_one [OF assms(1)]) (use Cons.prems p in auto)
  also have "\<dots> = add_mset g (mset (map (\<lambda>k. g + 1 + of_nat k) [0..<length ps]))"
    using Cons by simp
  also have "\<dots> = mset (map (\<lambda>k. g + of_nat k) [0..<length (p # ps)])"
  proof -
    have "map (\<lambda>k. g + of_nat k) [0..<length (p # ps)] = g # map (\<lambda>k. g + 1 + of_nat k) [0..<length ps]"
      by (simp add: upt_conv_Cons map_Suc_upt [symmetric] o_def add.assoc del: upt_Suc)
    then show ?thesis by simp
  qed
  finally show ?case .
qed

lemma allocate_slots_issued:
  assumes "distinct order" and "set order = dom (zp_registry z)"
    and "allocate_slots order next_epoch z = Inr (result, z')"
  shows "al_global_seq (zp_allocator z') = al_global_seq (zp_allocator z) + of_nat (length (issued_by order result)) \<and>
    mset (map snd (issued_by order result)) =
      mset (map (\<lambda>k. al_global_seq (zp_allocator z) + of_nat k) [0..<length (issued_by order result)])"
proof -
  let ?ps = "sort (collect_points (zp_duration z) (zp_registry z) (zp_allocator z) order)"
  let ?g = "al_global_seq (zp_allocator z)"
  obtain al reg where run: "assign_numbers next_epoch ?ps Map.empty (zp_allocator z) (zp_registry z) = Inr (result, al, reg)"
    and z': "z' = z\<lparr>zp_allocator := al, zp_registry := reg\<rparr>"
    using assms(3) by (auto simp: allocate_slots_def compute_allocations_def map_res_def bind_res_eq_Inr)
  have given: "given result = (\<lambda>i. interleave (slots_for next_epoch i ?g ?ps))"
    using assign_numbers_facts(1) [OF run] by (simp add: given_def fun_eq_iff)
  have g: "al_global_seq al = ?g + of_nat (length ?ps)"
    by (rule assign_numbers_facts(3) [OF run])
  have owners: "snd ` set ?ps \<subseteq> set order" by (auto simp: collect_points_def)
  have issued: "map snd (issued_by order result) = concat (map (\<lambda>i. map snd (slots_for next_epoch i ?g ?ps)) order)"
    by (simp add: issued_by_def given map_concat o_def)
  from all_numbers_issued [OF assms(1) owners, of next_epoch ?g]
  have numbers: "mset (map snd (issued_by order result)) = mset (map (\<lambda>k. ?g + of_nat k) [0..<length ?ps])"
    unfolding issued .
  from arg_cong [OF this, of size] have "length (issued_by order result) = length ?ps"
    by simp
  with numbers g show ?thesis by (simp add: z')
qed

text \<open>What a message and a section of the reconfiguration leave alone.\<close>

definition same_members :: "registry \<Rightarrow> registry \<Rightarrow> bool" where
  "same_members reg reg' \<longleftrightarrow> (\<forall>i. map_option ps_address (reg' i) = map_option ps_address (reg i))"

lemma same_members_upd: "reg i = Some st \<Longrightarrow> ps_address st' = ps_address st \<Longrightarrow> same_members reg (reg(i \<mapsto> st'))"
  by (simp add: same_members_def)

lemma same_members_refl [simp]: "same_members reg reg"
  by (simp add: same_members_def)

lemma same_members_report:
  assumes "handle_report quorum m reg = Inr (reg', start)"
  shows "same_members reg reg'"
proof -
  obtain fp where "get_failed_proxy m = Inr fp"
    using assms by (auto simp: handle_report_def bind_res_eq_Inr)
  with assms show ?thesis
    by (cases "reg fp") (auto simp: handle_report_def Let_def same_members_def split: if_splits)
qed

lemma same_members_response:
  assumes "handle_freeze_response quorum m reg = Inr (reg', next)"
  shows "same_members reg reg'"
proof -
  obtain fp where "get_failed_proxy m = Inr fp"
    using assms by (auto simp: handle_freeze_response_def bind_res_eq_Inr)
  with assms show ?thesis
    by (cases "reg fp")
      (auto simp: handle_freeze_response_def bind_res_eq_Inr Let_def same_members_def split: if_splits)
qed

lemma same_members_task: "run_task shard junk t reg = Inr (reg', ts, ms) \<Longrightarrow> same_members reg reg'"
  by (cases t) (auto simp: map_res_def bind_res_eq_Inr announce_freeze_def send_freeze_complete_def get_proxy_def
      require_eq_Inr Let_def split: option.splits intro!: same_members_upd)

lemma same_members_rejoin: "same_members reg (rejoin_proxy i reg)"
  by (auto simp: rejoin_proxy_def fresh_proxy_def split: option.splits intro!: same_members_upd)

lemma same_members_assign:
  "assign_numbers next_epoch ps result al reg = Inr (result', al', reg') \<Longrightarrow> same_members reg reg'"
proof (induction ps arbitrary: result al reg)
  case (Cons p ps)
  obtain t i where p: "p = (t, i)" by (cases p)
  obtain st result1 al1 where st: "reg i = Some st"
    and rest: "assign_numbers next_epoch ps result1 al1 (reg(i \<mapsto> st\<lparr>ps_allocated := ps_allocated st @ [al_global_seq al]\<rparr>)) = Inr (result', al', reg')"
    using Cons.prems by (auto simp: p Let_def require_eq_Inr bind_res_eq_Inr get_proxy_def split: option.splits)
  have "same_members reg (reg(i \<mapsto> st\<lparr>ps_allocated := ps_allocated st @ [al_global_seq al]\<rparr>))"
    using st by (simp add: same_members_def)
  with Cons.IH [OF rest] show ?case by (simp add: same_members_def)
qed simp

lemma zipper_handle_keeps:
  assumes "zipper_handle req acks junk z = Inr (out, z')"
  shows "al_global_seq (zp_allocator z') = al_global_seq (zp_allocator z)" and "zp_proxies z' = zp_proxies z"
    and "same_members (zp_registry z) (zp_registry z')"
  using assms
  by (auto simp: zipper_handle_def zipper_update_estimate_def zipper_add_proxy_def zipper_introduce_subscriber_def
      update_estimate_def map_res_def bind_res_eq_Inr Let_def same_members_rejoin
      dest: same_members_report same_members_response split: if_splits)

lemma introduce_allocator [simp]: "zp_allocator (fold admit_proxy as z) = zp_allocator z"
  by (induction as arbitrary: z) (simp_all add: admit_proxy_def Let_def)

lemma allocate_slots_keeps:
  assumes "allocate_slots order next_epoch z = Inr (result, z')"
  shows "zp_proxies z' = zp_proxies z" and "same_members (zp_registry z) (zp_registry z')"
  using assms
  by (auto simp: allocate_slots_def compute_allocations_def map_res_def bind_res_eq_Inr dest: same_members_assign)

definition issued_inv :: "(node_id \<times> seq_num) list \<Rightarrow> zipper \<Rightarrow> bool" where
  "issued_inv issued z \<longleftrightarrow> al_global_seq (zp_allocator z) = 1 + of_nat (length issued) \<and>
    mset (map snd issued) = mset (map (\<lambda>k. 1 + of_nat k) [0..<length issued])"

lemma issued_inv_step: "zipper_step z new z' \<Longrightarrow> issued_inv issued z \<Longrightarrow> issued_inv (issued @ new) z'"
proof (induction rule: zipper_step.induct)
  case (z_message req acks junk z out z')
  then show ?case by (simp add: issued_inv_def zipper_handle_keeps(1) [OF z_message.hyps])
next
  case (z_allocate order z next_epoch result z')
  let ?n = "length issued" and ?m = "length (issued_by order result)"
  have g: "al_global_seq (zp_allocator z) = 1 + of_nat ?n"
    and old: "mset (map snd issued) = mset (map (\<lambda>k. 1 + of_nat k) [0..<?n])"
    using z_allocate.prems by (simp_all add: issued_inv_def)
  from allocate_slots_issued [OF z_allocate(1-3)] have
    new: "mset (map snd (issued_by order result)) = mset (map (\<lambda>k. 1 + of_nat ?n + of_nat k) [0..<?m])"
    and g': "al_global_seq (zp_allocator z') = 1 + of_nat ?n + of_nat ?m"
    by (simp_all only: g)
  have "[0..<?n + ?m] = [0..<?n] @ map (\<lambda>i. i + ?n) [0..<?m]"
    by (simp only: upt_add_eq_append [OF zero_le] map_add_upt add.commute)
  then have "map (\<lambda>k. 1 + of_nat k) [0..<?n + ?m] =
      map (\<lambda>k. 1 + of_nat k) [0..<?n] @ map (\<lambda>k. 1 + of_nat ?n + (of_nat k :: u64)) [0..<?m]"
    by (simp add: o_def add_ac)
  with old new g' show ?case by (simp add: issued_inv_def add.assoc del: mset_map)
qed (simp_all add: issued_inv_def introduce_proxies_def)

lemma issued_inv_reachable: "zipper_reachable cfg issued z \<Longrightarrow> issued_inv issued z"
proof (induction rule: zipper_reachable.induct)
  case z_start
  then show ?case by (simp add: issued_inv_def new_zipper_def new_allocator_def)
next
  case (z_next issued z new z')
  then show ?case using issued_inv_step by blast
qed

text \<open>
  C7: the Zipper never hands out a number twice. Over any run, with messages of any content
  in any order, freezes, rejoins, admissions and allocations of any epochs, the numbers
  issued to all proxies together are exactly \<open>1, \<dots>, n\<close>, each issued once.
\<close>

theorem numbers_never_reused:
  assumes "zipper_reachable cfg issued z" and "length issued < 2 ^ 64"
  shows "distinct (map snd issued) \<and> set (map snd issued) = of_nat ` {1..length issued}"
proof -
  have same: "mset (map snd issued) = mset (map (\<lambda>k. 1 + of_nat k) [0..<length issued])"
    using issued_inv_reachable [OF assms(1)] by (simp only: issued_inv_def)
  have inj: "inj_on (\<lambda>k. 1 + (of_nat k :: u64)) {0..<length issued}"
  proof (rule inj_onI)
    fix x y assume xy: "x \<in> {0..<length issued}" "y \<in> {0..<length issued}" "1 + (of_nat x :: u64) = 1 + of_nat y"
    have "unat (of_nat k :: u64) = k" if "k < length issued" for k
      using assms(2) that by (simp add: unat_of_nat_eq)
    then show "x = y" using xy by (metis add_left_cancel atLeastLessThan_iff)
  qed
  have "distinct (map (\<lambda>k. 1 + (of_nat k :: u64)) [0..<length issued])"
    using inj by (simp add: distinct_map)
  then have "distinct (map snd issued)" using mset_eq_imp_distinct_iff [OF same] by simp
  moreover have "set (map snd issued) = set (map (\<lambda>k. 1 + of_nat k) [0..<length issued])"
    using mset_eq_setD [OF same] .
  moreover have "(\<lambda>k. 1 + (of_nat k :: u64)) ` {0..<length issued} = of_nat ` Suc ` {0..<length issued}"
    unfolding image_image by (rule image_cong) simp_all
  ultimately show ?thesis by (simp add: image_Suc_atLeastLessThan atLeastLessThanSuc_atLeastAtMost)
qed

text \<open>A Zipper with two proxies, of which the first has asked for two slots.\<close>

definition sample_zipper_config :: zipper_config where
  "sample_zipper_config = make_zipper_config (sample_config\<lparr>cf_proxies := [(''10.0.0.1'', 6000), (''10.0.0.2'', 6000)]\<rparr>)"

definition slot_request :: "node_id \<Rightarrow> seq_num \<Rightarrow> message" where
  "slot_request i n = build_message (code ZIP_REQUEST) 0 i n [] []"

definition asked_zipper :: zipper where
  "asked_zipper = (let z = new_zipper sample_zipper_config
    in z\<lparr>zp_allocator := update_estimate 0 2 (zp_allocator z)\<rparr>)"

lemmas zipper_eval = new_zipper_def sample_zipper_config_def make_zipper_config_def sample_config_def
  asked_zipper_def slot_request_def update_estimate_def new_allocator_def add_proxy_def fresh_proxy_def

lemma asked_zipper_reachable: "zipper_reachable sample_zipper_config [] asked_zipper"
proof -
  have "zipper_handle (slot_request 0 2) [] 0 (new_zipper sample_zipper_config) = Inr ([], asked_zipper)"
    by (simp add: zipper_handle_def zipper_update_estimate_def valid_in_node_def zipper_eval build_message_def
        get_num_requests_def)
  then have "zipper_step (new_zipper sample_zipper_config) [] asked_zipper" by (rule z_message)
  from z_next [OF z_start this] show ?thesis by simp
qed

lemma asked_zipper_fields:
  "dom (zp_registry asked_zipper) = {0, 1}" "zp_proxies asked_zipper = [(''10.0.0.1'', 6000), (''10.0.0.2'', 6000)]"
  "wanted (zp_registry asked_zipper) (zp_allocator asked_zipper) i = (if i = 0 then 2 else 0)"
  "al_global_seq (zp_allocator asked_zipper) = 1"
  by (auto simp: zipper_eval wanted_def split: if_splits)

lemma asked_zipper_allocates:
  "\<exists>result z'. allocate_slots [0, 1] 5000 asked_zipper = Inr (result, z') \<and> length (issued_by [0, 1] result) = 2 \<and>
    length (numbers_in (given result 0)) = 2"
proof -
  have small: "\<forall>i. wanted (zp_registry asked_zipper) (zp_allocator asked_zipper) i \<le> 2 ^ 25"
    by (simp add: asked_zipper_fields)
  obtain result al reg where
    run: "compute_allocations [0, 1] 5000 (zp_duration asked_zipper) (zp_allocator asked_zipper)
      (zp_registry asked_zipper) = Inr (result, al, reg)"
    and n: "al_global_seq al = 1 + of_nat (slots_wanted (zp_registry asked_zipper) (zp_allocator asked_zipper) [0, 1])"
    and given: "\<forall>i. given result i = interleave (allocation_of 5000 (zp_duration asked_zipper)
      (zp_allocator asked_zipper) (zp_registry asked_zipper) [0, 1] i)"
    using compute_allocations_result [OF small, of "[0, 1]" 5000 "zp_duration asked_zipper"]
    unfolding asked_zipper_fields by auto
  have len: "length (allocation_of 5000 (zp_duration asked_zipper) (zp_allocator asked_zipper)
      (zp_registry asked_zipper) [0, 1] i) = (if i = 0 then 2 else 0)" for i
    using count_points [of "[0, 1]" "zp_duration asked_zipper" "zp_registry asked_zipper" "zp_allocator asked_zipper" i]
    by (auto simp: allocation_of_def length_slots_for asked_zipper_fields)
  have "length (issued_by [0, 1] result) = 2" "length (numbers_in (given result 0)) = 2"
    using len [of 0] len [of 1] by (simp_all add: issued_by_def given)
  with run show ?thesis by (auto simp: allocate_slots_def map_res_def)
qed

theorem numbers_never_reused_witness:
  "\<exists>issued z. zipper_reachable sample_zipper_config issued z \<and> length issued = 2 \<and>
    distinct (map snd issued) \<and> set (map snd issued) = {1, 2}"
proof -
  obtain result z where run: "allocate_slots [0, 1] 5000 asked_zipper = Inr (result, z)"
    and len: "length (issued_by [0, 1] result) = 2"
    using asked_zipper_allocates by blast
  have "zipper_step asked_zipper (issued_by [0, 1] result) z"
    by (rule z_allocate [OF _ _ run]) (simp_all add: asked_zipper_fields)
  from z_next [OF asked_zipper_reachable this]
  have reach: "zipper_reachable sample_zipper_config (issued_by [0, 1] result) z" by simp
  have "{1..2 :: nat} = {1, 2}" by auto
  with numbers_never_reused [OF reach] reach len show ?thesis
    by (intro exI [of _ "issued_by [0, 1] result"] exI [of _ z]) simp
qed

section \<open>The registry and the configuration\<close>

definition registry_matches :: "registry \<Rightarrow> address list \<Rightarrow> bool" where
  "registry_matches reg as \<longleftrightarrow>
    (\<forall>i. map_option ps_address (reg i) = (if unat i < length as then Some (as ! unat i) else None))"

lemma matches_same: "same_members reg reg' \<Longrightarrow> registry_matches reg as \<Longrightarrow> registry_matches reg' as"
  by (simp add: same_members_def registry_matches_def)

lemma matches_add:
  assumes "registry_matches reg as" and "length as < 2 ^ 32"
  shows "registry_matches (add_proxy (of_nat (length as)) a reg) (as @ [a])"
proof -
  have n: "unat (of_nat (length as) :: node_id) = length as"
    using assms(2) by (simp add: unat_of_nat_eq)
  have "map_option ps_address (add_proxy (of_nat (length as)) a reg i) =
      (if unat i < length (as @ [a]) then Some ((as @ [a]) ! unat i) else None)" for i
  proof (cases "i = of_nat (length as)")
    case True
    with n show ?thesis by (simp add: add_proxy_def fresh_proxy_def)
  next
    case False
    then have "unat i \<noteq> length as" using n by (metis word_unat_eq_iff)
    with False assms(1) show ?thesis by (simp add: add_proxy_def registry_matches_def nth_append)
  qed
  then show ?thesis by (simp add: registry_matches_def)
qed

lemma matches_register:
  "registry_matches reg as \<Longrightarrow> length (as @ bs) \<le> 2 ^ 32 \<Longrightarrow>
    registry_matches (register_from (length as) bs reg) (as @ bs)"
proof (induction bs arbitrary: as reg)
  case (Cons b bs)
  then have "registry_matches (add_proxy (of_nat (length as)) b reg) (as @ [b])"
    by (intro matches_add) simp_all
  from Cons.IH [OF this] Cons.prems show ?case by simp
qed simp

lemma introduce_proxies_list: "zp_proxies (fold admit_proxy as z) = zp_proxies z @ as"
  by (induction as arbitrary: z) (simp_all add: admit_proxy_def Let_def)

lemma matches_introduce:
  "registry_matches (zp_registry z) (zp_proxies z) \<Longrightarrow> length (zp_proxies (fold admit_proxy as z)) \<le> 2 ^ 32 \<Longrightarrow>
    registry_matches (zp_registry (fold admit_proxy as z)) (zp_proxies (fold admit_proxy as z))"
proof (induction as arbitrary: z)
  case (Cons a as)
  have "length (zp_proxies z) < 2 ^ 32"
    using Cons.prems(2) unfolding introduce_proxies_list by simp
  then have "registry_matches (zp_registry (admit_proxy a z)) (zp_proxies (admit_proxy a z))"
    using matches_add [OF Cons.prems(1)] by (simp add: admit_proxy_def Let_def)
  from Cons.IH [OF this] Cons.prems(2) show ?case by simp
qed simp

lemma registry_matches_step:
  assumes "zipper_step z new z'" and "registry_matches (zp_registry z) (zp_proxies z)"
    and "length (zp_proxies z') \<le> 2 ^ 32"
  shows "registry_matches (zp_registry z') (zp_proxies z')"
  using assms
proof (induction rule: zipper_step.induct)
  case (z_message req acks junk z out z')
  then show ?case
    using matches_same [OF zipper_handle_keeps(3) [OF z_message.hyps]] zipper_handle_keeps(2) [OF z_message.hyps] by simp
next
  case (z_task i z junk reg' ts ms)
  then show ?case using matches_same [OF same_members_task [OF z_task.hyps(2)]] by simp
next
  case (z_introduce order z)
  then show ?case
    using matches_introduce [of "z\<lparr>zp_joining := []\<rparr>" order] by (simp add: introduce_proxies_def)
next
  case (z_allocate order z next_epoch result z')
  then show ?case
    using matches_same [OF allocate_slots_keeps(2) [OF z_allocate.hyps(3)]] allocate_slots_keeps(1) [OF z_allocate.hyps(3)]
    by simp
qed

lemma zipper_step_grows: "zipper_step z new z' \<Longrightarrow> length (zp_proxies z) \<le> length (zp_proxies z')"
  by (induction rule: zipper_step.induct)
    (simp_all add: zipper_handle_keeps(2) allocate_slots_keeps(1) introduce_proxies_def introduce_proxies_list)



section \<open>Joining\<close>

lemma stoi_no_digit: "\<forall>c \<in> set s. \<not> digit c \<Longrightarrow> stoi s = Inl Thrown"
proof -
  assume none: "\<forall>c \<in> set s. \<not> digit c"
  have "\<forall>c \<in> set (dropWhile white s). \<not> digit c" using none set_dropWhileD by metis
  moreover have "\<forall>c \<in> set (tl t). \<not> digit c" if "\<forall>c \<in> set t. \<not> digit c" for t :: string
    using that by (cases t) auto
  moreover have "takeWhile digit t = []" if "\<forall>c \<in> set t. \<not> digit c" for t
    using that by (cases t) auto
  ultimately show ?thesis by (simp add: stoi_def Let_def)
qed

lemma peer_address_no_digit:
  assumes "\<forall>c \<in> set (command_to_string d). \<not> digit c"
  shows "peer_address d = Inl Thrown"
proof -
  let ?s = "command_to_string d"
  have "\<forall>c \<in> set (tl (dropWhile (\<lambda>c. c \<noteq> CHR '':'') ?s)). \<not> digit c"
    using assms set_dropWhileD by (metis list.sel(2) list.set_sel(2))
  with assms stoi_no_digit show ?thesis by (simp add: peer_address_def Let_def)
qed

text \<open>
  One malformed message stops the Zipper. A request to join or to rejoin, of a proxy or a
  subscriber, whose address holds no digit makes \<^verbatim>\<open>std::stoi\<close> throw in a
  connection thread that catches nothing, whatever the state and whoever sent it; the sender and the
  shard are not even looked at.
\<close>

theorem malformed_join_throws:
  assumes "msg_type req \<in> {code REGISTER_PROXY, code REJOIN_PROXY, code REGISTER_SUBSCRIBER}"
    and "\<forall>c \<in> set (command_to_string (msg_data req)). \<not> digit c"
  shows "zipper_handle req acks junk z = Inl Thrown"
  using assms peer_address_no_digit [OF assms(2)]
  by (auto simp: zipper_handle_def zipper_add_proxy_def zipper_introduce_subscriber_def)

theorem malformed_join_throws_witness:
  "zipper_handle (build_message (code REGISTER_PROXY) 0 9 0 (string_to_command ''proxy'') []) [True, True] 0 asked_zipper =
    Inl Thrown"
  by (rule malformed_join_throws) (simp_all add: build_message_def digit_def)

definition rejoin_request :: message where
  "rejoin_request = build_message (code REJOIN_PROXY) 0 0 0 (string_to_command ''10.0.0.1:6000'') []"

text \<open>
  A proxy that rejoins is registered a second time. \<^verbatim>\<open>add_proxy\<close> resets its entry
  and, with the acknowledgements of a quorum, also queues its address, which the end of
  the epoch admits under a new identifier: the registry then has two active
  proxies with one address, and an epoch allocates slots to both. The proxy goes on under its old
  identifier, so the numbers of the new one are never used.
\<close>

theorem rejoin_registers_twice:
  "\<exists>z. zipper_handle rejoin_request [True, True, True] 0 asked_zipper =
      Inr ([join_message INCLUDE_PROXY 0 0 (msg_data rejoin_request) 0], z) \<and>
    zp_proxies (introduce_proxies (zp_joining z) z) = [(''10.0.0.1'', 6000), (''10.0.0.2'', 6000), (''10.0.0.1'', 6000)] \<and>
    zp_registry (introduce_proxies (zp_joining z) z) 0 = Some (fresh_proxy (''10.0.0.1'', 6000)) \<and>
    zp_registry (introduce_proxies (zp_joining z) z) 2 = Some (fresh_proxy (''10.0.0.1'', 6000))"
proof -
  have "peer_address (msg_data rejoin_request) = Inr (''10.0.0.1'', 6000)"
    by (simp add: rejoin_request_def build_message_def peer_address_def stoi_def white_def digit_def
        decimal_def digit_value_def map_res_def)
  then show ?thesis
    by (simp add: rejoin_request_def build_message_def zipper_handle_def zipper_add_proxy_def config_quorum_def
        introduce_proxies_def admit_proxy_def rejoin_proxy_def Let_def zipper_eval)
qed

end
