(* ===== verification/Allocation_Delivery.thy ===== *)
theory Allocation_Delivery
  imports Zipper Server Proxy
begin

text \<open>
  Slots on their way from the allocator of the Zipper over the wire to the servers, which
  expect the proxy to use them, and to the proxy, which would use them.
\<close>

section \<open>The message\<close>

lemma slot_message_result:
  "\<exists>m. slot_message shard i vs junk = Inr m \<and> msg_type m = code ZIP_RESPONSE \<and> shard_id m = shard \<and>
    sender_id m = i \<and> seq_or_count m = of_nat (length vs div 2) \<and> msg_data m = [] \<and> ordering_values m = vs"
  by (simp add: slot_message_def set_num_requests_def set_assigned_sequences_def blank_message_def build_message_def)

lemma slot_message_fits:
  assumes "slot_message shard i (interleave ps) junk = Inr m"
  shows "fits m \<longleftrightarrow> length ps \<le> 4094"
  using slot_message_result [of shard i "interleave ps" junk] assms
  by (auto simp: fits_def MAX_MESSAGE_SIZE_def)

text \<open>What a server does with it, read in place from its buffer.\<close>

lemma server_takes_slots:
  assumes "fits m" and "msg_type m = code ZIP_RESPONSE"
    and "chunk p (2 + length (serialize m)) mem = frame (serialize m)" and "p + 2 + length (serialize m) \<le> length mem"
  shows "server_handle sv mem (p + 2) (length (serialize m)) =
    Inr ([server_ack sv 0],
      sv\<lparr>sv_liveness := update_timeouts (sender_id m) (ordering_values m) (sv_liveness sv)\<rparr>, True)"
proof -
  note header = layout_in_place(1) [OF assms(3,4) serialize_layout [OF assms(1)]]
  have "deserialize (chunk (p + 2) (length (serialize m)) mem) = Inr (Some m)"
    using deserialize_serialize_append [OF assms(1), of "[]"] body_of_frame [OF assms(3,4)] by simp
  then have "deserialize_raw mem (p + 2) (length (serialize m)) = Inr (Some m)"
    using assms(4) by (intro raw_agrees) simp_all
  with header assms(2) show ?thesis by (simp add: server_handle_def)
qed

lemma proxy_takes_slots:
  assumes "slot_message (px_shard px) i (interleave ps) junk = Inr m" and "slots_inv (px_sched px)"
  shows "\<exists>px'. handle_zip_response m px = Inr px' \<and> slots (px_sched px') = slots (px_sched px) @ ps"
proof -
  have m: "msg_type m = code ZIP_RESPONSE" "shard_id m = px_shard px" "ordering_values m = interleave ps"
    using slot_message_result [of "px_shard px" i "interleave ps" junk] assms(1) by auto
  obtain s where "load_slots (interleave ps) (px_sched px) = Inr s" "slots s = slots (px_sched px) @ ps"
    using load_slots_interleave [OF assms(2)] by blast
  with m show ?thesis by (simp add: handle_zip_response_def map_res_def)
qed

section \<open>From the allocator to the nodes\<close>

lemma allocated_slots:
  assumes "allocate_slots order next_epoch z = Inr (result, z')" and "result i = Some vs"
  shows "\<exists>ps. vs = interleave ps \<and> map snd ps = numbers_in vs"
proof -
  obtain al reg where "assign_numbers next_epoch (sort (collect_points (zp_duration z) (zp_registry z) (zp_allocator z) order))
      Map.empty (zp_allocator z) (zp_registry z) = Inr (result, al, reg)"
    using assms(1) by (auto simp: allocate_slots_def compute_allocations_def map_res_def bind_res_eq_Inr)
  from assign_numbers_facts(1) [OF this, of i] assms(2) show ?thesis by (auto simp: given_def)
qed



end
