(* ===== verification/Membership.thy ===== *)
theory Membership
  imports Allocation_Delivery
begin

text \<open>
  The Zipper and a server on the connection between them: the servers handle the slots
  of the Zipper and none of its other messages, and the Zipper reads acknowledgements
  only when it introduces a node.
\<close>

section \<open>A server and the messages of the Zipper\<close>

definition control_step :: "server \<Rightarrow> byte list \<Rightarrow> byte list list \<times> server" where
  "control_step sv body =
    (case deserialize body of
       Inr (Some m) \<Rightarrow>
         if msg_type m = code ZIP_RESPONSE
         then ([server_ack sv 0],
           sv\<lparr>sv_liveness := update_timeouts (sender_id m) (ordering_values m) (sv_liveness sv)\<rparr>)
         else ([], sv)
     | _ \<Rightarrow> ([], sv))"

definition control :: "message \<Rightarrow> bool" where
  "control m \<longleftrightarrow> fits m \<and> length (serialize m) \<le> safe_body \<and> msg_type m \<notin> {code APPEND, code SKIP}"

definition is_slots :: "message \<Rightarrow> bool" where
  "is_slots m \<longleftrightarrow> msg_type m = code ZIP_RESPONSE"

lemma control_step_serialize:
  "fits m \<Longrightarrow> control_step sv (serialize m) =
    (if is_slots m then ([server_ack sv 0],
       sv\<lparr>sv_liveness := update_timeouts (sender_id m) (ordering_values m) (sv_liveness sv)\<rparr>) else ([], sv))"
  using deserialize_serialize_append [of m "[]"] by (simp add: control_step_def is_slots_def)

lemma server_control:
  assumes "control m" and "p + 2 + length (serialize m) \<le> length mem"
    and "chunk p (2 + length (serialize m)) mem = frame (serialize m)"
  shows "server_handle sv mem (p + 2) (length (serialize m)) =
    Inr (fst (control_step sv (serialize m)), snd (control_step sv (serialize m)), True)"
proof (cases "is_slots m")
  case True
  with server_takes_slots [OF _ _ assms(3,2), of sv] assms(1) show ?thesis
    by (simp add: control_def is_slots_def control_step_serialize)
next
  case False
  have fits: "fits m" using assms(1) by (simp add: control_def)
  note header = layout_in_place(1) [OF assms(3,2) serialize_layout [OF fits]]
  with False assms(1) show ?thesis
    by (simp add: server_handle_def control_def is_slots_def control_step_serialize)
qed

interpretation control: frame_handler server_handle control_step "\<lambda>b. \<exists>m. control m \<and> b = serialize m" "\<lambda>_. True"
  by unfold_locales (auto simp: server_control simp del: add_2_eq_Suc add_2_eq_Suc')

lemma run_control:
  assumes "\<forall>m \<in> set ms. fits m"
  shows "\<exists>lv. run_bodies control_step sv (map serialize ms) =
    (replicate (length (filter is_slots ms)) (server_ack sv 0), sv\<lparr>sv_liveness := lv\<rparr>)"
  using assms
proof (induction ms arbitrary: sv)
  case Nil
  show ?case by (intro exI [of _ "sv_liveness sv"]) simp
next
  case (Cons m ms)
  define sv1 where "sv1 = snd (control_step sv (serialize m))"
  have sv1: "\<exists>lv. sv1 = sv\<lparr>sv_liveness := lv\<rparr>"
    using Cons.prems by (auto simp: sv1_def control_step_serialize intro: exI [of _ "sv_liveness sv"])
  then have ack: "server_ack sv1 0 = server_ack sv 0" by (auto simp: server_ack_def)
  obtain lv where "run_bodies control_step sv1 (map serialize ms) =
      (replicate (length (filter is_slots ms)) (server_ack sv1 0), sv1\<lparr>sv_liveness := lv\<rparr>)"
    using Cons by auto
  moreover have "control_step sv (serialize m) = (if is_slots m then [server_ack sv 0] else [], sv1)"
    using Cons.prems by (simp add: sv1_def control_step_serialize)
  ultimately show ?case
    using sv1 ack by (intro exI [of _ lv]) auto
qed

section \<open>What the Zipper takes for the acknowledgement of a join\<close>

lemma ack_received:
  assumes "proper evs" and "blocking evs" and "arriving evs = server_ack sv n @ rest"
  shows "\<exists>ack evs'. recv_message evs = Some (Inr (Some ack, evs')) \<and> msg_type ack = code ACK"
proof -
  let ?m = "build_message (code ACK) (sv_shard sv) (sv_id sv) n [] []"
  have fits: "fits ?m" by (simp add: fits_def build_message_def MAX_MESSAGE_SIZE_def)
  have "arriving evs = frame (serialize ?m) @ rest"
    using assms(3) by (simp add: server_ack_def wire_bytes_frame_null)
  from recv_message_frame [OF assms(1,2) this fits] obtain evs' where "recv_message evs = Some (Inr (Some ?m, evs'))"
    by auto
  moreover have "msg_type ?m = code ACK" by (simp add: build_message_def)
  ultimately show ?thesis by blast
qed

lemma silent_connection:
  assumes "proper evs" and "blocking evs" and "arriving evs = []" and "Closed \<notin> set evs"
  shows "recv_message evs = None"
proof -
  have "evs = []"
    using assms by (cases evs; cases "hd evs") (auto simp: proper_def blocking_def)
  then show ?thesis by (simp add: recv_message_def recv_bytes.simps)
qed

text \<open>
  A node joins on the strength of old acknowledgements. A server acknowledges the
  slots of the Zipper and nothing else, in particular no \<^verbatim>\<open>INCLUDE_PROXY\<close>. The Zipper
  does not read the acknowledgement of slots, so when it introduces a proxy over the same
  connection, the acknowledgement it takes for the answer is that of slots handed out before, and the
  proxy counts as known to a server that ignored it. If no slots were handed out before, the
  Zipper waits for ever.
\<close>

theorem join_counts_old_ack:
  assumes "rb_inv rb" and "proper evs" and "\<forall>m \<in> set ms. control m"
    and "join = join_message INCLUDE_PROXY sh i d junk" and "length d \<le> 1000"
    and "stream rb evs = concat (map (frame \<circ> serialize) (ms @ [join])) @ rest"
  shows "\<exists>outs lv rb' evs'. connection_loop server_handle (length ms + 1) sv rb evs =
      Some (Inr (outs, sv\<lparr>sv_liveness := lv\<rparr>, rb', evs')) \<and>
    outs = replicate (length (filter is_slots ms)) (server_ack sv 0) \<and>
    (\<forall>incoming. proper incoming \<and> blocking incoming \<and> arriving incoming = concat outs \<and> Closed \<notin> set incoming \<longrightarrow>
      (if filter is_slots ms = [] then recv_message incoming = None
       else \<exists>ack incoming'. recv_message incoming = Some (Inr (Some ack, incoming')) \<and> msg_type ack = code ACK))"
proof -
  have join: "fits join" "length (serialize join) = 28 + length d" "msg_type join = code INCLUDE_PROXY"
  proof -
    have "28 + length d \<le> MAX_MESSAGE_SIZE" using assms(5) by (simp add: MAX_MESSAGE_SIZE_def)
    then show "fits join" "length (serialize join) = 28 + length d" "msg_type join = code INCLUDE_PROXY"
      unfolding assms(4) join_message_def by (simp_all add: serialize_plain) (simp_all add: fits_def build_message_def)
  qed
  then have control: "\<forall>m \<in> set (ms @ [join]). control m"
    using assms(3,5) by (auto simp: control_def safe_body_eq)
  have slots: "filter is_slots (ms @ [join]) = filter is_slots ms"
    using join(3) by (simp add: is_slots_def)
  obtain lv where run: "run_bodies control_step sv (map serialize (ms @ [join])) =
      (replicate (length (filter is_slots ms)) (server_ack sv 0), sv\<lparr>sv_liveness := lv\<rparr>)"
    using run_control [of "ms @ [join]" sv] control unfolding slots by (auto simp: control_def)
  have "\<forall>b \<in> set (map serialize (ms @ [join])). (\<exists>m. control m \<and> b = serialize m) \<and> length b \<le> safe_body"
    using control by (auto simp: control_def)
  from control.loop_runs [OF assms(1,2) _ this, of rest sv] assms(6) obtain rb' evs'
    where loop: "connection_loop server_handle (length ms + 1) sv rb evs =
      Some (Inr (replicate (length (filter is_slots ms)) (server_ack sv 0), sv\<lparr>sv_liveness := lv\<rparr>, rb', evs'))"
    unfolding run by (auto simp: comp_def)
  have "if filter is_slots ms = [] then recv_message incoming = None
      else \<exists>ack incoming'. recv_message incoming = Some (Inr (Some ack, incoming')) \<and> msg_type ack = code ACK"
    if incoming: "proper incoming" "blocking incoming" "Closed \<notin> set incoming"
      "arriving incoming = concat (replicate (length (filter is_slots ms)) (server_ack sv 0))" for incoming
  proof (cases "filter is_slots ms")
    case Nil
    with silent_connection [OF incoming(1,2) _ incoming(3)] incoming(4) show ?thesis by simp
  next
    case (Cons m ms')
    with ack_received [OF incoming(1,2)] incoming(4) show ?thesis by simp
  qed
  note answers = this
  show ?thesis
  proof (intro exI conjI allI impI)
    show "connection_loop server_handle (length ms + 1) sv rb evs =
      Some (Inr (replicate (length (filter is_slots ms)) (server_ack sv 0), sv\<lparr>sv_liveness := lv\<rparr>, rb', evs'))"
      by (rule loop)
    show "replicate (length (filter is_slots ms)) (server_ack sv 0) = replicate (length (filter is_slots ms)) (server_ack sv 0)"
      by (rule refl)
  qed (intro answers; simp)
qed

definition slots_for_zero :: message where
  "slots_for_zero = build_message (code ZIP_RESPONSE) 0 0 1 [] [1000, 1]"

theorem join_counts_old_ack_witness:
  "\<exists>outs lv rb' evs' ack incoming'. connection_loop server_handle 2 sample_server (fresh_buffer (replicate CAPACITY 0))
      [Data (frame (serialize slots_for_zero)), Data (frame (serialize (join_message INCLUDE_PROXY 0 7 [49] 0)))] =
      Some (Inr (outs, sample_server\<lparr>sv_liveness := lv\<rparr>, rb', evs')) \<and>
    recv_message [Data (concat outs)] = Some (Inr (Some ack, incoming')) \<and> msg_type ack = code ACK"
proof -
  let ?j = "join_message INCLUDE_PROXY 0 7 [49] 0"
  let ?evs = "[Data (frame (serialize slots_for_zero)), Data (frame (serialize ?j))]"
  have fits: "fits slots_for_zero"
    by (simp add: slots_for_zero_def fits_def build_message_def MAX_MESSAGE_SIZE_def)
  then have c: "\<forall>m \<in> set [slots_for_zero]. control m"
    by (simp add: control_def serialize_layout safe_body_eq) (simp add: slots_for_zero_def build_message_def)
  have slots: "filter is_slots [slots_for_zero] = [slots_for_zero]"
    by (simp add: is_slots_def slots_for_zero_def build_message_def)
  have rb: "rb_inv (fresh_buffer (replicate CAPACITY (0 :: byte)))" by (rule rb_inv_fresh) simp
  have p: "proper ?evs" by (simp add: proper_Cons) (simp add: proper_def)
  have st: "stream (fresh_buffer (replicate CAPACITY 0)) ?evs = concat (map (frame \<circ> serialize) ([slots_for_zero] @ [?j])) @ []"
    by simp
  obtain outs lv rb' evs' where r: "connection_loop server_handle (length [slots_for_zero] + 1) sample_server
      (fresh_buffer (replicate CAPACITY 0)) ?evs = Some (Inr (outs, sample_server\<lparr>sv_liveness := lv\<rparr>, rb', evs'))"
    "outs = replicate (length (filter is_slots [slots_for_zero])) (server_ack sample_server 0)"
    "\<forall>incoming. proper incoming \<and> blocking incoming \<and> arriving incoming = concat outs \<and> Closed \<notin> set incoming \<longrightarrow>
      (if filter is_slots [slots_for_zero] = [] then recv_message incoming = None
       else \<exists>ack incoming'. recv_message incoming = Some (Inr (Some ack, incoming')) \<and> msg_type ack = code ACK)"
    using join_counts_old_ack [OF rb p c refl _ st, of sample_server] by auto
  have "concat outs = server_ack sample_server 0"
    unfolding r(2) slots by simp
  then have "concat outs \<noteq> []"
    by (simp add: server_ack_def wire_bytes_frame_null)
  then have "proper [Data (concat outs)] \<and> blocking [Data (concat outs)] \<and>
      arriving [Data (concat outs)] = concat outs \<and> Closed \<notin> set [Data (concat outs)]"
    by (simp add: proper_def blocking_def)
  with r(3) slots obtain ack incoming' where "recv_message [Data (concat outs)] = Some (Inr (Some ack, incoming'))" "msg_type ack = code ACK"
    by (metis list.distinct(1))
  with r(1) have "connection_loop server_handle 2 sample_server (fresh_buffer (replicate CAPACITY 0)) ?evs =
      Some (Inr (outs, sample_server\<lparr>sv_liveness := lv\<rparr>, rb', evs')) \<and>
    recv_message [Data (concat outs)] = Some (Inr (Some ack, incoming')) \<and> msg_type ack = code ACK"
    by (simp only: list.size add_0 one_add_one add_Suc_right One_nat_def [symmetric] Suc_eq_plus1 simp_thms)
  then show ?thesis by (intro exI)
qed

end
