(* ===== verification/Joining.thy ===== *)
theory Joining
  imports Membership Subscriber
begin

text \<open>
  How a server takes in a new proxy or subscriber, \<^verbatim>\<open>introduce_proxy\<close> and
  \<^verbatim>\<open>introduce_subscriber\<close> of \<^verbatim>\<open>impl/server/server.cpp\<close> (the calls are commented out at
  present), and how a subscriber asks for it.
\<close>

section \<open>Operations\<close>

text \<open>The request of the second constructor of \<^verbatim>\<open>Subscriber\<close>; \<open>sock\<close> is what the pool gives.\<close>

definition subscriber_join ::
  "shard_id \<Rightarrow> node_id \<Rightarrow> address \<Rightarrow> int \<Rightarrow> seq_num \<Rightarrow> byte list list" where
  "subscriber_join sh i a sock junk =
    (let req = build_message (code REGISTER_SUBSCRIBER) sh i junk (string_to_command (address_to_string a)) [];
         bytes = serialize req
     in if sock < 0 \<or> bytes = [] then [] else [frame bytes])"

definition join_ack :: "server \<Rightarrow> seq_num \<Rightarrow> byte list" where
  "join_ack sv junk = frame (serialize (build_message (code ACK) (sv_shard sv) (sv_id sv) junk [] []))"

text \<open>\<^verbatim>\<open>introduce_proxy\<close>: the acknowledgement is written to the descriptor 0.\<close>

definition server_introduce_proxy ::
  "message \<Rightarrow> seq_num \<Rightarrow> address list \<times> server \<Rightarrow> fault + (int \<times> byte list) \<times> address list \<times> server" where
  "server_introduce_proxy msg junk s =
    (let (proxies, sv) = s in
     bind_res (peer_address (msg_data msg)) (\<lambda>a.
       let (proxies, sv) =
         (if \<not> valid_in_node (sender_id msg) proxies then (proxies @ [a], sv)
          else (proxies, sv\<lparr>sv_liveness := unblock_proxy (sender_id msg) (sv_liveness sv)\<rparr>))
       in Inr ((0, join_ack sv junk), proxies, sv)))"

text \<open>
  \<^verbatim>\<open>introduce_subscriber\<close>: the acknowledgement, then the stored images of all proxies that are
  not blocked, in the order \<open>order\<close> in which the map is iterated.
\<close>

definition replayed :: "node_id list \<Rightarrow> server \<Rightarrow> byte list list" where
  "replayed order sv =
    concat (map (\<lambda>p. if is_blocked p (sv_liveness sv) then [] else stored p (sv_store sv)) order)"

definition server_introduce_subscriber ::
  "message \<Rightarrow> int \<Rightarrow> node_id list \<Rightarrow> seq_num \<Rightarrow> byte list \<Rightarrow> address list \<times> server
    \<Rightarrow> fault + byte list \<times> byte list list \<times> address list \<times> server" where
  "server_introduce_subscriber msg sock order junk buf s =
    (let (subs, sv) = s in
     bind_res (peer_address (msg_data msg)) (\<lambda>a.
       let subs = subs @ [a] in
       if sock < 0 then Inr (join_ack sv junk, [], subs, sv)
       else map_res (\<lambda>w. (join_ack sv junk, replayed order sv, subs, sv\<lparr>sv_workers := w\<rparr>))
         (add_subscriber (length subs - 1) buf (sv_workers sv))))"

section \<open>What a replay is worth\<close>

text \<open>The store of a server that has the messages of each proxy as they came.\<close>

definition keeps_entries :: "(seq_num \<Rightarrow> node_id) \<Rightarrow> server \<Rightarrow> bool" where
  "keeps_entries owner sv \<longleftrightarrow> (\<forall>p. \<exists>es. stored p (sv_store sv) = map (\<lambda>e. frame (log_body e)) es \<and>
    (\<forall>e \<in> set es. sound_message e \<and> sender e = owner (number e)))"

lemma keeps_replayed:
  assumes "keeps_entries owner sv"
  shows "\<exists>es. replayed order sv = map (\<lambda>e. frame (log_body e)) es \<and> (\<forall>e \<in> set es. sound_message e \<and> sender e = owner (number e))"
proof (induction order)
  case Nil
  show ?case by (simp add: replayed_def)
next
  case (Cons p order)
  obtain es where es: "replayed order sv = map (\<lambda>e. frame (log_body e)) es" "\<forall>e \<in> set es. sound_message e \<and> sender e = owner (number e)"
    using Cons by blast
  obtain fs where fs: "stored p (sv_store sv) = map (\<lambda>e. frame (log_body e)) fs" "\<forall>e \<in> set fs. sound_message e \<and> sender e = owner (number e)"
    using assms unfolding keeps_entries_def by blast
  have step: "replayed (p # order) sv = (if is_blocked p (sv_liveness sv) then [] else stored p (sv_store sv)) @ replayed order sv"
    by (simp add: replayed_def)
  show ?case
  proof (cases "is_blocked p (sv_liveness sv)")
    case True
    with es step show ?thesis by (intro exI [of _ es]) simp
  next
    case False
    with es fs step show ?thesis by (intro exI [of _ "fs @ es"]) auto
  qed
qed

lemma keeps_all_replayed:
  assumes "\<forall>(order, sv) \<in> set rs. keeps_entries owner sv"
  shows "\<exists>es. concat (map (\<lambda>(order, sv). concat (replayed order sv)) rs) = concat (map (\<lambda>e. frame (log_body e)) es) \<and>
    (\<forall>e \<in> set es. sound_message e \<and> sender e = owner (number e))"
  using assms
proof (induction rs)
  case (Cons r rs)
  obtain order sv where r: "r = (order, sv)" by (cases r)
  obtain es where "concat (map (\<lambda>(order, sv). concat (replayed order sv)) rs) = concat (map (\<lambda>e. frame (log_body e)) es)"
    "\<forall>e \<in> set es. sound_message e \<and> sender e = owner (number e)"
    using Cons.IH Cons.prems by force
  moreover obtain fs where "replayed order sv = map (\<lambda>e. frame (log_body e)) fs" "\<forall>e \<in> set fs. sound_message e \<and> sender e = owner (number e)"
    using keeps_replayed Cons.prems r by fastforce
  ultimately show ?case by (intro exI [of _ "fs @ es"]) (auto simp: r)
qed (auto intro: exI [of _ "[]"])

lemma voters_owner:
  "\<forall>e \<in> set es. sender e = owner (number e) \<Longrightarrow> voters (observations es clock) n \<subseteq> {owner n}"
proof (induction es clock rule: observations.induct)
  case (2 t sh sd m d fs clock)
  have app: "voters (h @ [(t', i, k, x)]) n = voters h n \<union> (if k = n then {i} else {})" for h t' i k x
    by (induction h n rule: voters.induct) auto
  from 2 show ?case by (auto simp: app sender_def number_def)
qed simp


definition sample_keeper :: server where
  "sample_keeper = sample_server\<lparr>sv_store := [2 \<mapsto> [frame (log_body sample_message_in)]]\<rparr>"


end
