(* ===== verification/Node.thy ===== *)
theory Node
  imports Prelude
begin

text \<open>
  \<^verbatim>\<open>include/base_node.h\<close>: the life of a node. One thread accepts connections and starts a
  thread for each; the thread that destroys the node shuts it down and waits for the
  others. Each step of a thread between two accesses to what they share is one event.
\<close>

section \<open>State\<close>

text \<open>
  Where the accepting thread, a connection's thread and the destroying thread are.
  \<open>Joining ts\<close>: holding \<^verbatim>\<open>threads_mu_\<close>, the threads \<open>ts\<close> have still to be joined.
\<close>

datatype run_pc =
    Run_start | Run_listen | Run_loop | Run_accept | Got int | Tracked int | Spawned nat | Run_done

datatype handler_pc = Handling int | Untracking int | Ended

datatype close_pc =
    Alive | Listener | Sockets | Locking | Joining "nat list" | Join_run | Freeing | Freed | Aborted

text \<open>Descriptors are open for a connection of this node or for something else in the process.\<close>

datatype use = Connection | Other

record node =
  nd_running :: bool
  nd_listening :: bool
  nd_accepted :: "int list"
  nd_threads :: "nat list"
  nd_run :: run_pc
  nd_handlers :: "nat \<rightharpoonup> handler_pc"
  nd_close :: close_pc
  nd_shutdowns :: nat
  nd_fds :: "int \<rightharpoonup> use"
  nd_others_closed :: "int set"

text \<open>
  A node whose accepting thread has just been started. The destructors of the nodes call
  \<^verbatim>\<open>shutdown\<close> and then that of the base class calls it again: \<open>n\<close> further calls.
\<close>

definition new_node :: "nat \<Rightarrow> (int \<rightharpoonup> use) \<Rightarrow> node" where
  "new_node n fds =
    \<lparr>nd_running = False, nd_listening = False, nd_accepted = [], nd_threads = [], nd_run = Run_start,
     nd_handlers = Map.empty, nd_close = Alive, nd_shutdowns = n, nd_fds = fds, nd_others_closed = {}\<rparr>"

section \<open>Steps\<close>

definition fd_close :: "int \<Rightarrow> node \<Rightarrow> node" where
  "fd_close s nd =
    nd\<lparr>nd_fds := (nd_fds nd)(s := None),
       nd_others_closed := (if nd_fds nd s = Some Other then insert s (nd_others_closed nd) else nd_others_closed nd)\<rparr>"

datatype run_event =
    Create_socket bool | Set_running | Test | Accept "int option" | Track | Spawn nat | Store

text \<open>\<^verbatim>\<open>run\<close>: a step is \<open>None\<close> when it cannot be taken now.\<close>

definition run_step :: "run_event \<Rightarrow> node \<Rightarrow> node option" where
  "run_step e nd =
    (case (e, nd_run nd) of
       (Create_socket ok, Run_start) \<Rightarrow>
         Some (if nd_running nd then nd\<lparr>nd_run := Run_done\<rparr>
               else if ok then nd\<lparr>nd_listening := True, nd_run := Run_listen\<rparr>
               else nd\<lparr>nd_running := False, nd_run := Run_done\<rparr>)
     | (Set_running, Run_listen) \<Rightarrow> Some (nd\<lparr>nd_running := True, nd_run := Run_loop\<rparr>)
     | (Test, Run_loop) \<Rightarrow> Some (nd\<lparr>nd_run := (if nd_running nd then Run_accept else Run_done)\<rparr>)
     | (Accept None, Run_accept) \<Rightarrow> Some (nd\<lparr>nd_run := (if nd_running nd then Run_loop else Run_done)\<rparr>)
     | (Accept (Some s), Run_accept) \<Rightarrow>
         if nd_listening nd \<and> nd_fds nd s = None
         then Some (nd\<lparr>nd_fds := (nd_fds nd)(s \<mapsto> Connection), nd_run := Got s\<rparr>) else None
     | (Track, Got s) \<Rightarrow> Some (nd\<lparr>nd_accepted := nd_accepted nd @ [s], nd_run := Tracked s\<rparr>)
     | (Spawn i, Tracked s) \<Rightarrow>
         if nd_handlers nd i = None
         then Some (nd\<lparr>nd_handlers := (nd_handlers nd)(i \<mapsto> Handling s), nd_run := Spawned i\<rparr>) else None
     | (Store, Spawned i) \<Rightarrow>
         if \<exists>ts. nd_close nd = Joining ts then None
         else Some (nd\<lparr>nd_threads := nd_threads nd @ [i], nd_run := Run_loop\<rparr>)
     | _ \<Rightarrow> None)"

text \<open>
  The thread of a connection: \<^verbatim>\<open>handle_connection\<close> closes its socket when it returns, then the socket
  is no longer tracked.
\<close>

definition handler_step :: "nat \<Rightarrow> node \<Rightarrow> node option" where
  "handler_step i nd =
    (case nd_handlers nd i of
       Some (Handling s) \<Rightarrow> Some ((fd_close s nd)\<lparr>nd_handlers := (nd_handlers nd)(i \<mapsto> Untracking s)\<rparr>)
     | Some (Untracking s) \<Rightarrow>
         Some (nd\<lparr>nd_accepted := remove1 s (nd_accepted nd), nd_handlers := (nd_handlers nd)(i \<mapsto> Ended)\<rparr>)
     | _ \<Rightarrow> None)"

text \<open>
  \<^verbatim>\<open>shutdown\<close> and the destructor. Joining a thread waits until it has ended; the
  accepting thread is joined last; a thread that is still to be joined when its object is destroyed
  ends the program.
\<close>

definition close_step :: "node \<Rightarrow> node option" where
  "close_step nd =
    (case nd_close nd of
       Alive \<Rightarrow> Some (nd\<lparr>nd_running := False, nd_close := Listener\<rparr>)
     | Listener \<Rightarrow> Some (nd\<lparr>nd_listening := False, nd_close := Sockets\<rparr>)
     | Sockets \<Rightarrow> Some ((fold fd_close (nd_accepted nd) nd)\<lparr>nd_accepted := [], nd_close := Locking\<rparr>)
     | Locking \<Rightarrow> Some (nd\<lparr>nd_close := Joining (nd_threads nd)\<rparr>)
     | Joining [] \<Rightarrow>
         Some (if nd_shutdowns nd = 0 then nd\<lparr>nd_threads := [], nd_close := Join_run\<rparr>
               else nd\<lparr>nd_threads := [], nd_close := Alive, nd_shutdowns := nd_shutdowns nd - 1\<rparr>)
     | Joining (i # ts) \<Rightarrow> if nd_handlers nd i = Some Ended then Some (nd\<lparr>nd_close := Joining ts\<rparr>) else None
     | Join_run \<Rightarrow> if nd_run nd = Run_done then Some (nd\<lparr>nd_close := Freeing\<rparr>) else None
     | Freeing \<Rightarrow> Some (nd\<lparr>nd_close := (if nd_threads nd = [] then Freed else Aborted)\<rparr>)
     | _ \<Rightarrow> None)"

datatype event = Run run_event | Handler nat | Close | Elsewhere int

fun node_step :: "event \<Rightarrow> node \<Rightarrow> node option" where
  "node_step (Run e) nd = run_step e nd"
| "node_step (Handler i) nd = handler_step i nd"
| "node_step Close nd = close_step nd"
| "node_step (Elsewhere s) nd = (if nd_fds nd s = None then Some (nd\<lparr>nd_fds := (nd_fds nd)(s \<mapsto> Other)\<rparr>) else None)"

fun node_run :: "event list \<Rightarrow> node \<Rightarrow> node option" where
  "node_run [] nd = Some nd"
| "node_run (e # es) nd = (case node_step e nd of None \<Rightarrow> None | Some nd \<Rightarrow> node_run es nd)"

lemma node_run_append: "node_run (es @ fs) nd = (case node_run es nd of None \<Rightarrow> None | Some nd \<Rightarrow> node_run fs nd)"
  by (induction es arbitrary: nd) (simp_all split: option.splits)

lemmas node_step_defs = run_step_def handler_step_def close_step_def

section \<open>A shutdown that completes\<close>

text \<open>Where a connection's descriptor and a connection's thread are known.\<close>

fun held :: "run_pc \<Rightarrow> int set" where
  "held (Got s) = {s}"
| "held (Tracked s) = {s}"
| "held _ = {}"

fun spawned :: "run_pc \<Rightarrow> nat set" where
  "spawned (Spawned i) = {i}"
| "spawned _ = {}"

definition live :: "(nat \<rightharpoonup> handler_pc) \<Rightarrow> nat set" where
  "live hs = {i. hs i \<noteq> None \<and> hs i \<noteq> Some Ended}"

definition handled :: "(nat \<rightharpoonup> handler_pc) \<Rightarrow> int set" where
  "handled hs = {s. \<exists>i. hs i = Some (Handling s)}"

definition connections :: "(int \<rightharpoonup> use) \<Rightarrow> int set" where
  "connections fds = {s. fds s = Some Connection}"

text \<open>What is known of the threads in each phase of the shutdown.\<close>

fun close_inv :: "close_pc \<Rightarrow> node \<Rightarrow> bool" where
  "close_inv (Joining ts) nd \<longleftrightarrow> set (nd_threads nd) \<inter> live (nd_handlers nd) \<subseteq> set ts"
| "close_inv Freeing nd \<longleftrightarrow> nd_run nd = Run_done"
| "close_inv Freed nd \<longleftrightarrow> nd_run nd = Run_done \<and> nd_threads nd = []"
| "close_inv _ nd \<longleftrightarrow> True"

definition node_inv :: "node \<Rightarrow> bool" where
  "node_inv nd \<longleftrightarrow>
    connections (nd_fds nd) \<subseteq> held (nd_run nd) \<union> handled (nd_handlers nd) \<and>
    live (nd_handlers nd) \<subseteq> set (nd_threads nd) \<union> spawned (nd_run nd) \<and>
    set (nd_threads nd) \<union> spawned (nd_run nd) \<subseteq> dom (nd_handlers nd) \<and>
    close_inv (nd_close nd) nd"

lemma thread_sets [simp]:
  "live (hs(i \<mapsto> Handling s)) = insert i (live hs)" "live (hs(i \<mapsto> Untracking s)) = insert i (live hs)"
  "live (hs(i \<mapsto> Ended)) = live hs - {i}"
  "connections (fds(s \<mapsto> Connection)) = insert s (connections fds)"
  "connections (fds(s \<mapsto> Other)) = connections fds - {s}" "connections (fds(s := None)) = connections fds - {s}"
  by (auto simp: live_def connections_def)

lemma handled_new: "hs i = None \<Longrightarrow> handled (hs(i \<mapsto> Handling s)) = insert s (handled hs)"
  by (auto simp: handled_def) (metis option.distinct(1))

lemma handled_closed: "hs i = Some (Handling s) \<Longrightarrow> handled hs - {s} \<subseteq> handled (hs(i \<mapsto> Untracking s))"
  by (auto simp: handled_def) (metis handler_pc.inject(1) option.inject)

lemma handled_ended: "hs i = Some (Untracking s) \<Longrightarrow> handled (hs(i \<mapsto> Ended)) = handled hs"
  by (auto simp: handled_def) (metis handler_pc.distinct(1) option.inject)

lemma ended_not_live: "hs i = Some Ended \<Longrightarrow> i \<notin> live hs"
  by (simp add: live_def)

lemma live_handler: "hs i = Some (Handling s) \<Longrightarrow> insert i (live hs) = live hs"
  by (auto simp: live_def)

lemma close_pc_cases:
  obtains "c = Alive" | "c = Listener" | "c = Sockets" | "c = Locking" | "c = Joining []" | i ts where "c = Joining (i # ts)"
    | "c = Join_run" | "c = Freeing" | "c = Freed" | "c = Aborted"
proof (cases c)
  case (Joining ts)
  with that show thesis by (cases ts) auto
qed (use that in auto)

lemma fd_close_fields [simp]:
  "nd_running (fd_close s nd) = nd_running nd" "nd_listening (fd_close s nd) = nd_listening nd"
  "nd_accepted (fd_close s nd) = nd_accepted nd" "nd_threads (fd_close s nd) = nd_threads nd"
  "nd_run (fd_close s nd) = nd_run nd" "nd_handlers (fd_close s nd) = nd_handlers nd"
  "nd_close (fd_close s nd) = nd_close nd" "nd_shutdowns (fd_close s nd) = nd_shutdowns nd"
  "nd_fds (fd_close s nd) = (nd_fds nd)(s := None)"
  by (simp_all add: fd_close_def)

lemma fold_close_fields [simp]:
  "nd_running (fold fd_close ss nd) = nd_running nd" "nd_listening (fold fd_close ss nd) = nd_listening nd"
  "nd_threads (fold fd_close ss nd) = nd_threads nd" "nd_run (fold fd_close ss nd) = nd_run nd"
  "nd_handlers (fold fd_close ss nd) = nd_handlers nd" "nd_close (fold fd_close ss nd) = nd_close nd"
  "nd_shutdowns (fold fd_close ss nd) = nd_shutdowns nd"
  by (induction ss arbitrary: nd) simp_all

lemma fold_close_fds: "nd_fds (fold fd_close ss nd) s = (if s \<in> set ss then None else nd_fds nd s)"
  by (induction ss arbitrary: nd) auto

lemma connections_fold: "connections (nd_fds (fold fd_close ss nd)) = connections (nd_fds nd) - set ss"
  by (auto simp: connections_def fold_close_fds)

lemma node_inv_new: "connections fds = {} \<Longrightarrow> node_inv (new_node n fds)"
  by (simp add: node_inv_def new_node_def live_def)

lemma run_step_inv:
  assumes "node_inv nd" and "run_step e nd = Some nd'"
  shows "node_inv nd'"
proof -
  have same: "nd_close nd' = nd_close nd" "nd_run nd \<noteq> Run_done"
    using assms(2) by (cases e; cases "nd_run nd"; auto simp: run_step_def split: if_splits option.splits)+
  have joining: "set (nd_threads nd') \<inter> live (nd_handlers nd') \<subseteq> set (nd_threads nd) \<inter> live (nd_handlers nd)"
    if "nd_close nd = Joining ts" for ts
    using assms that unfolding node_inv_def
    by (cases e; cases "nd_run nd") (auto simp: run_step_def split: if_splits option.splits)
  have "close_inv (nd_close nd) nd'"
    using same(2) joining assms(1) unfolding node_inv_def by (cases "nd_close nd") auto
  moreover have "connections (nd_fds nd') \<subseteq> held (nd_run nd') \<union> handled (nd_handlers nd')"
    "live (nd_handlers nd') \<subseteq> set (nd_threads nd') \<union> spawned (nd_run nd')"
    "set (nd_threads nd') \<union> spawned (nd_run nd') \<subseteq> dom (nd_handlers nd')"
    using assms unfolding node_inv_def
    by (cases e; cases "nd_run nd"; auto simp: run_step_def handled_new split: if_splits option.splits)+
  ultimately show ?thesis
    using same(1) by (simp add: node_inv_def)
qed

lemma close_inv_mono:
  "close_inv c nd \<Longrightarrow> nd_threads nd' = nd_threads nd \<Longrightarrow> live (nd_handlers nd') \<subseteq> live (nd_handlers nd) \<Longrightarrow>
    nd_run nd' = nd_run nd \<Longrightarrow> close_inv c nd'"
  by (cases c) auto

lemma handler_step_inv:
  assumes "node_inv nd" and "handler_step i nd = Some nd'"
  shows "node_inv nd'"
proof -
  consider (close) s where "nd_handlers nd i = Some (Handling s)"
      "nd' = (fd_close s nd)\<lparr>nd_handlers := (nd_handlers nd)(i \<mapsto> Untracking s)\<rparr>"
    | (untrack) s where "nd_handlers nd i = Some (Untracking s)"
      "nd' = nd\<lparr>nd_accepted := remove1 s (nd_accepted nd), nd_handlers := (nd_handlers nd)(i \<mapsto> Ended)\<rparr>"
    using assms(2) by (auto simp: handler_step_def split: option.splits handler_pc.splits)
  then show ?thesis
  proof cases
    case close
    with assms(1) handled_closed [of "nd_handlers nd" i s] show ?thesis
      by (auto simp: node_inv_def live_handler intro: close_inv_mono)
  next
    case untrack
    with assms(1) show ?thesis
      by (auto simp: node_inv_def handled_ended intro: close_inv_mono)
  qed
qed

lemma close_step_inv:
  assumes "node_inv nd" and "close_step nd = Some nd'"
  shows "node_inv nd'"
proof -
  have "connections (nd_fds nd') \<subseteq> held (nd_run nd') \<union> handled (nd_handlers nd')"
    using assms unfolding node_inv_def
    by (cases "nd_close nd" rule: close_pc_cases) (auto simp: close_step_def connections_fold split: if_splits)
  moreover have "live (nd_handlers nd') \<subseteq> set (nd_threads nd') \<union> spawned (nd_run nd')"
    using assms unfolding node_inv_def
    by (cases "nd_close nd" rule: close_pc_cases; auto simp: close_step_def split: if_splits; blast)
  moreover have "set (nd_threads nd') \<union> spawned (nd_run nd') \<subseteq> dom (nd_handlers nd')"
    using assms unfolding node_inv_def
    by (cases "nd_close nd" rule: close_pc_cases) (auto simp: close_step_def split: if_splits)
  moreover have "close_inv (nd_close nd') nd'"
    using assms unfolding node_inv_def
    by (cases "nd_close nd" rule: close_pc_cases) (auto simp: close_step_def dest!: ended_not_live split: if_splits)
  ultimately show ?thesis by (simp add: node_inv_def)
qed

lemma node_step_inv:
  assumes "node_inv nd" and "node_step e nd = Some nd'"
  shows "node_inv nd'"
proof (cases e)
  case (Elsewhere s)
  then have nd': "nd' = nd\<lparr>nd_fds := (nd_fds nd)(s \<mapsto> Other)\<rparr>"
    using assms(2) by (simp split: if_splits)
  have "close_inv (nd_close nd) nd'"
    using assms(1) unfolding nd' by (rule close_inv_mono [OF conjunct2 [OF conjunct2 [OF conjunct2 [OF iffD1 [OF node_inv_def]]]]]) simp_all
  moreover have "connections (nd_fds nd') \<subseteq> connections (nd_fds nd)"
    by (auto simp: nd')
  moreover have "nd_run nd' = nd_run nd" "nd_handlers nd' = nd_handlers nd" "nd_threads nd' = nd_threads nd"
    "nd_close nd' = nd_close nd"
    by (simp_all add: nd')
  ultimately show ?thesis
    using assms(1) unfolding node_inv_def by (simp only:) (metis order_trans)
next
  case (Run r)
  with assms(2) show ?thesis by (intro run_step_inv [OF assms(1)]) simp
next
  case (Handler i)
  with assms(2) show ?thesis by (intro handler_step_inv [OF assms(1)]) simp
next
  case Close
  with assms(2) show ?thesis by (intro close_step_inv [OF assms(1)]) simp
qed

lemma node_run_inv: "node_inv nd \<Longrightarrow> node_run es nd = Some nd' \<Longrightarrow> node_inv nd'"
  by (induction es arbitrary: nd) (auto intro: node_step_inv split: option.splits)


text \<open>
  C16: a shutdown that completes leaves nothing behind. Over any interleaving of the
  accepting thread, the threads of the connections and the thread that destroys the node, with any
  number of connections: when the destructor has returned, the accepting thread and every thread
  that was ever started for a connection have ended, and no connection's socket is open.
\<close>

theorem shutdown_complete:
  assumes "\<forall>s. fds s \<noteq> Some Connection" and "node_run es (new_node n fds) = Some nd" and "nd_close nd = Freed"
  shows "nd_run nd = Run_done \<and> (\<forall>i h. nd_handlers nd i = Some h \<longrightarrow> h = Ended) \<and>
    (\<forall>s. nd_fds nd s \<noteq> Some Connection)"
proof -
  have "node_inv nd"
    by (rule node_run_inv [OF node_inv_new assms(2)]) (use assms(1) in \<open>simp add: connections_def\<close>)
  then have "live (nd_handlers nd) = {}" "connections (nd_fds nd) \<subseteq> handled (nd_handlers nd)" "nd_run nd = Run_done"
    using assms(3) by (auto simp: node_inv_def)
  moreover from this(1) have "handled (nd_handlers nd) = {}"
    by (auto simp: live_def handled_def) (metis handler_pc.distinct(3) option.distinct(1) option.inject)
  ultimately show ?thesis
    by (auto simp: live_def connections_def) (metis option.distinct(1) option.inject)
qed

text \<open>A node that serves one connection and is then shut down twice.\<close>

definition orderly :: "event list" where
  "orderly =
    [Run (Create_socket True), Run Set_running, Run Test, Run (Accept (Some 5)), Run Track, Run (Spawn 0), Run Store,
     Run Test, Handler 0, Handler 0, Close, Close, Close, Run (Accept None), Close, Close, Close, Close, Close, Close, Close, Close,
     Close, Close]"

theorem shutdown_complete_witness:
  "\<exists>nd. node_run orderly (new_node 1 Map.empty) = Some nd \<and> nd_close nd = Freed \<and> nd_run nd = Run_done \<and>
    (\<forall>s. nd_fds nd s \<noteq> Some Connection)"
proof -
  obtain nd where nd: "node_run orderly (new_node 1 Map.empty) = Some nd" "nd_close nd = Freed"
    by (simp add: orderly_def node_step_defs new_node_def fd_close_def)
  from shutdown_complete [OF _ nd] show ?thesis
    using nd by (intro exI [of _ nd]) simp
qed


section \<open>Shutdowns that go wrong\<close>

text \<open>All calls of \<^verbatim>\<open>shutdown\<close> in a row, with no thread and no socket known to them.\<close>

lemma idle_shutdowns:
  "nd_close nd = Alive \<Longrightarrow> nd_threads nd = [] \<Longrightarrow> nd_accepted nd = [] \<Longrightarrow> nd_shutdowns nd = n \<Longrightarrow>
    node_run (concat (replicate (Suc n) [Close, Close, Close, Close, Close])) nd =
      Some (nd\<lparr>nd_running := False, nd_listening := False, nd_close := Join_run, nd_shutdowns := 0\<rparr>)"
proof (induction n arbitrary: nd)
  case 0
  then show ?case by (simp add: close_step_def)
next
  case (Suc n)
  define nd1 where "nd1 = nd\<lparr>nd_running := False, nd_listening := False, nd_shutdowns := n\<rparr>"
  have "node_run [Close, Close, Close, Close, Close] nd = Some nd1"
    using Suc.prems by (simp add: close_step_def nd1_def)
  moreover have "node_run (concat (replicate (Suc n) [Close, Close, Close, Close, Close])) nd1 =
      Some (nd1\<lparr>nd_running := False, nd_listening := False, nd_close := Join_run, nd_shutdowns := 0\<rparr>)"
    using Suc.prems by (intro Suc.IH) (simp_all add: nd1_def)
  moreover have "nd1\<lparr>nd_running := False, nd_listening := False, nd_close := Join_run, nd_shutdowns := 0\<rparr> =
      nd\<lparr>nd_running := False, nd_listening := False, nd_close := Join_run, nd_shutdowns := 0\<rparr>"
    by (simp add: nd1_def)
  ultimately show ?case
    unfolding replicate_Suc [of "Suc n"] concat.simps node_run_append by simp
qed

text \<open>The accepting thread goes on and the destroying thread waits for it.\<close>

definition hung :: "node \<Rightarrow> bool" where
  "hung nd \<longleftrightarrow> nd_close nd = Join_run \<and> nd_running nd \<and> nd_run nd \<noteq> Run_start \<and> nd_run nd \<noteq> Run_done"

lemma hung_step: "hung nd \<Longrightarrow> node_step e nd = Some nd' \<Longrightarrow> hung nd'"
proof (cases e)
  case (Run r)
  assume "hung nd" "node_step e nd = Some nd'"
  with Run show ?thesis
    by (cases r; cases "nd_run nd"; auto simp: hung_def run_step_def split: option.splits if_splits)
next
  case (Handler i)
  assume "hung nd" "node_step e nd = Some nd'"
  with Handler show ?thesis
    by (auto simp: hung_def handler_step_def split: option.splits handler_pc.splits)
qed (auto simp: hung_def close_step_def split: if_splits)

lemma hung_run: "hung nd \<Longrightarrow> node_run es nd = Some nd' \<Longrightarrow> hung nd'"
  by (induction es arbitrary: nd) (auto dest: hung_step split: option.splits)

text \<open>
  A node that is destroyed right after its construction may never be gone. If
  \<^verbatim>\<open>shutdown\<close> runs, however often, between the making of the listening socket and the assignment
  of \<^verbatim>\<open>is_running_\<close> in the accepting thread, the assignment undoes it: the accepting thread stays in its
  loop, and the destructor waits for it in every continuation.
\<close>

theorem early_shutdown_hangs:
  "\<exists>es nd. node_run es (new_node n fds) = Some nd \<and> nd_close nd = Join_run \<and>
    (\<forall>es' nd'. node_run es' nd = Some nd' \<longrightarrow> nd_close nd' = Join_run)"
proof -
  let ?start = "(new_node n fds)\<lparr>nd_listening := True, nd_run := Run_listen\<rparr>"
  define nd where "nd = (new_node n fds)\<lparr>nd_running := True, nd_run := Run_loop, nd_close := Join_run, nd_shutdowns := 0\<rparr>"
  let ?es = "[Run (Create_socket True)] @ concat (replicate (Suc n) [Close, Close, Close, Close, Close]) @ [Run Set_running]"
  have "node_run [Run (Create_socket True)] (new_node n fds) = Some ?start"
    by (simp add: run_step_def new_node_def)
  moreover have "node_run (concat (replicate (Suc n) [Close, Close, Close, Close, Close])) ?start =
      Some (?start\<lparr>nd_running := False, nd_listening := False, nd_close := Join_run, nd_shutdowns := 0\<rparr>)"
    by (rule idle_shutdowns) (simp_all add: new_node_def)
  moreover have "node_run [Run Set_running]
      (?start\<lparr>nd_running := False, nd_listening := False, nd_close := Join_run, nd_shutdowns := 0\<rparr>) = Some nd"
    by (simp add: run_step_def nd_def new_node_def)
  ultimately have "node_run ?es (new_node n fds) = Some nd"
    unfolding node_run_append by (simp del: replicate_Suc)
  moreover have "hung nd" by (simp add: hung_def nd_def)
  ultimately show ?thesis
    using hung_run unfolding hung_def by blast
qed

text \<open>
  Two races of the shutdown with a connection. A connection that was accepted but is not
  yet tracked when \<^verbatim>\<open>shutdown\<close> runs, however often, gets its thread afterwards; nobody joins it, and the
  destructor of the thread object ends the program. And the socket of a tracked connection is
  closed twice, by \<^verbatim>\<open>shutdown\<close> and by the connection's thread: if its number is used again in between,
  the second close hits a file or socket of something else.
\<close>

theorem shutdown_races:
  "(\<exists>es nd. node_run es (new_node n Map.empty) = Some nd \<and> nd_close nd = Aborted) \<and>
   (\<exists>es nd. node_run es (new_node n Map.empty) = Some nd \<and> nd_others_closed nd = {s})"
proof
  let ?got = "(new_node n Map.empty)\<lparr>nd_running := True, nd_listening := True, nd_run := Got s, nd_fds := [s \<mapsto> Connection]\<rparr>"
  let ?shut = "?got\<lparr>nd_running := False, nd_listening := False, nd_close := Join_run, nd_shutdowns := 0\<rparr>"
  let ?accept = "[Run (Create_socket True), Run Set_running, Run Test, Run (Accept (Some s))]"
  let ?finish = "[Run Track, Run (Spawn 0), Run Store, Run Test, Close, Close]"
  have accept: "node_run ?accept (new_node n Map.empty) = Some ?got"
    by (simp add: run_step_def new_node_def)
  have "node_run (concat (replicate (Suc n) [Close, Close, Close, Close, Close])) ?got = Some ?shut"
    by (rule idle_shutdowns) (simp_all add: new_node_def)
  moreover have "\<exists>nd. node_run ?finish ?shut = Some nd \<and> nd_close nd = Aborted"
    by (simp add: node_step_defs new_node_def)
  ultimately have "\<exists>nd. node_run (?accept @ concat (replicate (Suc n) [Close, Close, Close, Close, Close]) @ ?finish)
      (new_node n Map.empty) = Some nd \<and> nd_close nd = Aborted"
    unfolding node_run_append accept by (simp del: replicate_Suc node_run.simps)
  then show "\<exists>es nd. node_run es (new_node n Map.empty) = Some nd \<and> nd_close nd = Aborted"
    by (rule exI)
  let ?twice = "[Run Track, Run (Spawn 0), Close, Close, Close, Elsewhere s, Handler 0]"
  have "\<exists>nd. node_run ?twice ?got = Some nd \<and> nd_others_closed nd = {s}"
    by (simp add: node_step_defs new_node_def fd_close_def)
  then have "\<exists>nd. node_run (?accept @ ?twice) (new_node n Map.empty) = Some nd \<and> nd_others_closed nd = {s}"
    unfolding node_run_append accept by (simp del: node_run.simps)
  then show "\<exists>es nd. node_run es (new_node n Map.empty) = Some nd \<and> nd_others_closed nd = {s}"
    by (rule exI)
qed

end
