(* ===== verification/Zipper_Timer.thy ===== *)
theory Zipper_Timer
  imports Prelude "HOL-Library.Sublist"
begin

text \<open>
  \<^verbatim>\<open>impl/zipper/zipper_epoch_timer.h\<close>: one thread keeps the time and raises a flag three
  quarters through an epoch and another at its end; a second thread, the worker, answers the flags
  with the two callbacks of the Zipper. Points in time are nanoseconds, time stamps microseconds.
\<close>

section \<open>State\<close>

definition tp_to_timestamp :: "nat \<Rightarrow> timestamp" where
  "tp_to_timestamp tp = of_nat (tp div 1000)"

text \<open>A call of \<^verbatim>\<open>on_allocate\<close> with the \<^verbatim>\<open>next_epoch\<close> it reads, or of \<^verbatim>\<open>on_epoch_end\<close>.\<close>

datatype zcall = Allocate timestamp | Epoch_end

datatype timer_pc = T_start | T_test | T_allocate | T_end | T_advance | T_done
datatype worker_pc = W_test | W_wait | W_allocate | W_end | W_calling | W_done

text \<open>
  \<open>zt_raised\<close> and \<open>zt_calls\<close> are a history that no step reads: the flags raised, an
  allocation with the \<^verbatim>\<open>next_epoch\<close> of that moment, and the calls made.
\<close>

record ztimer =
  zt_duration :: timestamp
  zt_running :: bool
  zt_startup :: nat
  zt_next :: timestamp
  zt_allocate :: bool
  zt_end :: bool
  zt_timer :: timer_pc
  zt_worker :: worker_pc
  zt_raised :: "zcall list"
  zt_calls :: "zcall list"

definition started_timer :: "timestamp \<Rightarrow> ztimer" where
  "started_timer d =
    \<lparr>zt_duration = d, zt_running = True, zt_startup = 0, zt_next = 0, zt_allocate = False, zt_end = False,
     zt_timer = T_start, zt_worker = W_test, zt_raised = [], zt_calls = []\<rparr>"

section \<open>Steps\<close>

text \<open>
  The interruptible sleep until a point of the epoch: it ends when the clock \<open>tp\<close> has
  reached it or the timer was stopped; otherwise there is no step.
\<close>

definition awake :: "nat \<Rightarrow> timestamp \<Rightarrow> ztimer \<Rightarrow> bool" where
  "awake tp offset zt \<longleftrightarrow> \<not> zt_running zt \<or> zt_startup zt + 1000 * unat offset \<le> tp"

definition allocation_time :: "timestamp \<Rightarrow> timestamp" where
  "allocation_time d = (d * 3) div 4"

definition timer_step :: "nat \<Rightarrow> ztimer \<Rightarrow> ztimer option" where
  "timer_step tp zt =
    (let d = zt_duration zt in
     case zt_timer zt of
       T_start \<Rightarrow>
         Some (zt\<lparr>zt_startup := tp, zt_next := tp_to_timestamp (tp + 1000 * unat d), zt_timer := T_test\<rparr>)
     | T_test \<Rightarrow> Some (zt\<lparr>zt_timer := (if zt_running zt then T_allocate else T_done)\<rparr>)
     | T_allocate \<Rightarrow>
         if \<not> awake tp (allocation_time d) zt then None
         else if \<not> zt_running zt then Some (zt\<lparr>zt_timer := T_done\<rparr>)
         else Some (zt\<lparr>zt_allocate := True, zt_timer := T_end, zt_raised := zt_raised zt @ [Allocate (zt_next zt)]\<rparr>)
     | T_end \<Rightarrow>
         if \<not> awake tp d zt then None
         else if \<not> zt_running zt then Some (zt\<lparr>zt_timer := T_done\<rparr>)
         else Some (zt\<lparr>zt_end := True, zt_timer := T_advance, zt_raised := zt_raised zt @ [Epoch_end]\<rparr>)
     | T_advance \<Rightarrow>
         Some (zt\<lparr>zt_startup := zt_startup zt + 1000 * unat d, zt_next := zt_next zt + d, zt_timer := T_test\<rparr>)
     | T_done \<Rightarrow> None)"

text \<open>
  \<^verbatim>\<open>work_loop\<close>: the flag is taken under the lock, the callback is called without it, and
  \<^verbatim>\<open>on_allocate\<close> reads \<^verbatim>\<open>next_epoch\<close> when it runs.
\<close>

definition zworker_step :: "ztimer \<Rightarrow> ztimer option" where
  "zworker_step zt =
    (case zt_worker zt of
       W_test \<Rightarrow> Some (zt\<lparr>zt_worker := (if zt_running zt then W_wait else W_done)\<rparr>)
     | W_wait \<Rightarrow>
         if \<not> zt_running zt then Some (zt\<lparr>zt_worker := W_done\<rparr>)
         else if zt_allocate zt then Some (zt\<lparr>zt_allocate := False, zt_worker := W_allocate\<rparr>)
         else if zt_end zt then Some (zt\<lparr>zt_end := False, zt_worker := W_end\<rparr>)
         else None
     | W_allocate \<Rightarrow> Some (zt\<lparr>zt_calls := zt_calls zt @ [Allocate (zt_next zt)], zt_worker := W_calling\<rparr>)
     | W_end \<Rightarrow> Some (zt\<lparr>zt_calls := zt_calls zt @ [Epoch_end], zt_worker := W_calling\<rparr>)
     | W_calling \<Rightarrow> Some (zt\<lparr>zt_worker := W_test\<rparr>)
     | W_done \<Rightarrow> None)"

definition timer_stop_request :: "ztimer \<Rightarrow> ztimer" where
  "timer_stop_request zt = zt\<lparr>zt_running := False\<rparr>"

datatype zevent = Timer nat | Worker | Stop

fun ztimer_step :: "zevent \<Rightarrow> ztimer \<Rightarrow> ztimer option" where
  "ztimer_step (Timer tp) zt = timer_step tp zt"
| "ztimer_step Worker zt = zworker_step zt"
| "ztimer_step Stop zt = Some (timer_stop_request zt)"

fun ztimer_run :: "zevent list \<Rightarrow> ztimer \<Rightarrow> ztimer option" where
  "ztimer_run [] zt = Some zt"
| "ztimer_run (e # es) zt = (case ztimer_step e zt of None \<Rightarrow> None | Some zt \<Rightarrow> ztimer_run es zt)"

section \<open>What the timer raises\<close>

text \<open>The epoch after the first \<open>k\<close> and the flags of the first \<open>n\<close> epochs.\<close>

definition epoch_start :: "timestamp \<Rightarrow> timestamp \<Rightarrow> nat \<Rightarrow> timestamp" where
  "epoch_start first d k = first + of_nat k * d"

definition schedule :: "timestamp \<Rightarrow> timestamp \<Rightarrow> nat \<Rightarrow> zcall list" where
  "schedule first d n = concat (map (\<lambda>k. [Allocate (epoch_start first d k), Epoch_end]) [0..<n])"

lemma schedule_Suc: "schedule first d (Suc n) = schedule first d n @ [Allocate (epoch_start first d n), Epoch_end]"
  by (simp add: schedule_def)

lemma epoch_start_Suc: "epoch_start first d k + d = epoch_start first d (Suc k)"
  by (simp add: epoch_start_def algebra_simps)

fun raised_inv :: "timer_pc \<Rightarrow> timestamp \<Rightarrow> nat \<Rightarrow> ztimer \<Rightarrow> bool" where
  "raised_inv T_start first n zt \<longleftrightarrow> zt_raised zt = [] \<and> n = 0"
| "raised_inv T_test first n zt \<longleftrightarrow> zt_next zt = epoch_start first (zt_duration zt) n \<and> zt_raised zt = schedule first (zt_duration zt) n"
| "raised_inv T_allocate first n zt \<longleftrightarrow> zt_next zt = epoch_start first (zt_duration zt) n \<and> zt_raised zt = schedule first (zt_duration zt) n"
| "raised_inv T_end first n zt \<longleftrightarrow> zt_next zt = epoch_start first (zt_duration zt) n \<and>
    zt_raised zt = schedule first (zt_duration zt) n @ [Allocate (epoch_start first (zt_duration zt) n)]"
| "raised_inv T_advance first n zt \<longleftrightarrow> zt_next zt = epoch_start first (zt_duration zt) n \<and>
    zt_raised zt = schedule first (zt_duration zt) (Suc n)"
| "raised_inv T_done first n zt \<longleftrightarrow> prefix (zt_raised zt) (schedule first (zt_duration zt) (Suc n))"

lemma timer_step_raised:
  assumes "raised_inv (zt_timer zt) first n zt" and "timer_step tp zt = Some zt'"
  shows "\<exists>first n. raised_inv (zt_timer zt') first n zt'"
proof -
  have same: "raised_inv (zt_timer zt') first n zt'" if "zt_timer zt \<notin> {T_start, T_advance}"
    using assms that
    by (cases "zt_timer zt") (auto simp: timer_step_def Let_def schedule_Suc prefix_def split: if_splits)
  show ?thesis
  proof (cases "zt_timer zt")
    case T_start
    with assms have "raised_inv (zt_timer zt') (tp_to_timestamp (tp + 1000 * unat (zt_duration zt))) 0 zt'"
      by (auto simp: timer_step_def Let_def epoch_start_def schedule_def)
    then show ?thesis by blast
  next
    case T_advance
    with assms have "raised_inv (zt_timer zt') first (Suc n) zt'"
      by (auto simp: timer_step_def Let_def epoch_start_Suc)
    then show ?thesis by blast
  qed (use same in auto)
qed

lemma raised_inv_cong:
  "raised_inv pc first n zt \<Longrightarrow> zt_next zt' = zt_next zt \<Longrightarrow> zt_raised zt' = zt_raised zt \<Longrightarrow>
    zt_duration zt' = zt_duration zt \<Longrightarrow> raised_inv pc first n zt'"
  by (cases pc) auto

section \<open>A worker that keeps up\<close>

text \<open>When the timer raises a flag the worker has nothing to do.\<close>

definition idle_worker :: "ztimer \<Rightarrow> bool" where
  "idle_worker zt \<longleftrightarrow> \<not> zt_allocate zt \<and> \<not> zt_end zt \<and> zt_worker zt \<in> {W_test, W_wait, W_done}"

definition raises :: "zevent \<Rightarrow> ztimer \<Rightarrow> bool" where
  "raises e zt \<longleftrightarrow> (case e of Timer tp \<Rightarrow> zt_timer zt \<in> {T_allocate, T_end} | _ \<Rightarrow> False)"

fun keeps_up :: "zevent list \<Rightarrow> ztimer \<Rightarrow> bool" where
  "keeps_up [] zt \<longleftrightarrow> True"
| "keeps_up (e # es) zt \<longleftrightarrow> (raises e zt \<longrightarrow> idle_worker zt) \<and>
    (case ztimer_step e zt of None \<Rightarrow> True | Some zt \<Rightarrow> keeps_up es zt)"

text \<open>The flag that was raised and is not yet answered by a call: its own, or the worker has taken it.\<close>

fun unanswered :: "bool \<Rightarrow> bool \<Rightarrow> worker_pc \<Rightarrow> timestamp \<Rightarrow> zcall list" where
  "unanswered True _ _ t = [Allocate t]"
| "unanswered False True _ t = [Epoch_end]"
| "unanswered False False W_allocate t = [Allocate t]"
| "unanswered False False W_end t = [Epoch_end]"
| "unanswered False False _ t = []"

definition answer_inv :: "ztimer \<Rightarrow> bool" where
  "answer_inv zt \<longleftrightarrow> zt_raised zt = zt_calls zt @ unanswered (zt_allocate zt) (zt_end zt) (zt_worker zt) (zt_next zt) \<and>
    \<not> (zt_allocate zt \<and> zt_end zt) \<and> (zt_worker zt = W_allocate \<or> zt_worker zt = W_end \<longrightarrow> \<not> zt_allocate zt \<and> \<not> zt_end zt) \<and>
    (zt_timer zt = T_start \<or> zt_timer zt = T_advance \<longrightarrow> \<not> zt_allocate zt \<and> zt_worker zt \<noteq> W_allocate)"

lemma unanswered_idle: "idle_worker zt \<Longrightarrow> unanswered (zt_allocate zt) (zt_end zt) (zt_worker zt) t = []"
  by (auto simp: idle_worker_def)

lemma unanswered_next:
  "\<not> allocate \<Longrightarrow> w \<noteq> W_allocate \<Longrightarrow> unanswered allocate e w t = unanswered allocate e w t'"
  by (cases w; cases e) auto

lemma timer_step_answers:
  assumes inv: "answer_inv zt" and idle: "zt_timer zt \<in> {T_allocate, T_end} \<longrightarrow> idle_worker zt" and step: "timer_step tp zt = Some zt'"
  shows "answer_inv zt'"
proof (cases "zt_timer zt = T_start \<or> zt_timer zt = T_advance")
  case True
  then have w: "\<not> zt_allocate zt" "zt_worker zt \<noteq> W_allocate" using inv by (auto simp: answer_inv_def)
  have "zt_raised zt' = zt_raised zt" "zt_calls zt' = zt_calls zt" "zt_allocate zt' = zt_allocate zt" "zt_end zt' = zt_end zt"
    "zt_worker zt' = zt_worker zt" "zt_timer zt' = T_test"
    using True step by (auto simp: timer_step_def Let_def)
  then show ?thesis
    using inv unanswered_next [OF w, of "zt_end zt" "zt_next zt'" "zt_next zt"] by (simp add: answer_inv_def)
next
  case no: False
  show ?thesis
  proof (cases "zt_raised zt' = zt_raised zt")
    case True
    then have "zt_calls zt' = zt_calls zt" "zt_allocate zt' = zt_allocate zt" "zt_end zt' = zt_end zt"
      "zt_worker zt' = zt_worker zt" "zt_next zt' = zt_next zt" "zt_timer zt' = T_allocate \<or> zt_timer zt' = T_done"
      using no step by (cases "zt_timer zt"; auto simp: timer_step_def Let_def split: if_splits)+
    with inv True show ?thesis by (auto simp: answer_inv_def)
  next
    case False
    then have i: "idle_worker zt" and "zt_timer zt = T_allocate \<or> zt_timer zt = T_end"
      using no step idle by (cases "zt_timer zt"; auto simp: timer_step_def Let_def split: if_splits)+
    then have "zt' = zt\<lparr>zt_allocate := True, zt_timer := T_end, zt_raised := zt_raised zt @ [Allocate (zt_next zt)]\<rparr> \<or>
        zt' = zt\<lparr>zt_end := True, zt_timer := T_advance, zt_raised := zt_raised zt @ [Epoch_end]\<rparr>"
      using False step by (auto simp: timer_step_def Let_def split: if_splits)
    moreover have "zt_raised zt = zt_calls zt" "\<not> zt_allocate zt" "\<not> zt_end zt" "zt_worker zt \<noteq> W_allocate" "zt_worker zt \<noteq> W_end"
      using inv i unanswered_idle [OF i] by (auto simp: answer_inv_def idle_worker_def)
    ultimately show ?thesis
      by (auto simp: answer_inv_def)
  qed
qed

lemma zworker_step_answers:
  assumes "answer_inv zt" and "zworker_step zt = Some zt'"
  shows "answer_inv zt'"
proof (cases "zt_worker zt")
  case W_wait
  then consider "zt' = zt\<lparr>zt_worker := W_done\<rparr>"
    | "zt_allocate zt" "zt' = zt\<lparr>zt_allocate := False, zt_worker := W_allocate\<rparr>"
    | "\<not> zt_allocate zt" "zt_end zt" "zt' = zt\<lparr>zt_end := False, zt_worker := W_end\<rparr>"
    using assms(2) by (auto simp: zworker_step_def split: if_splits)
  then show ?thesis
    using assms(1) W_wait
    by cases (cases "zt_allocate zt"; cases "zt_end zt"; simp add: answer_inv_def)+
next
  case W_test
  then consider "zt' = zt\<lparr>zt_worker := W_wait\<rparr>" | "zt' = zt\<lparr>zt_worker := W_done\<rparr>"
    using assms(2) by (auto simp: zworker_step_def split: if_splits)
  then show ?thesis
    using assms(1) W_test by cases (cases "zt_allocate zt"; cases "zt_end zt"; simp add: answer_inv_def)+
next
  case W_calling
  then have "zt' = zt\<lparr>zt_worker := W_test\<rparr>"
    using assms(2) by (simp add: zworker_step_def)
  then show ?thesis
    using assms(1) W_calling by (cases "zt_allocate zt"; cases "zt_end zt"; simp add: answer_inv_def)
next
  case W_allocate
  then have "zt' = zt\<lparr>zt_calls := zt_calls zt @ [Allocate (zt_next zt)], zt_worker := W_calling\<rparr>"
    using assms(2) by (simp add: zworker_step_def)
  then show ?thesis
    using assms(1) W_allocate by (simp add: answer_inv_def)
next
  case W_end
  then have "zt' = zt\<lparr>zt_calls := zt_calls zt @ [Epoch_end], zt_worker := W_calling\<rparr>"
    using assms(2) by (simp add: zworker_step_def)
  then show ?thesis
    using assms(1) W_end by (simp add: answer_inv_def)
next
  case W_done
  then show ?thesis using assms(2) by (simp add: zworker_step_def)
qed

lemma zworker_step_fixed:
  "zworker_step zt = Some zt' \<Longrightarrow> zt_next zt' = zt_next zt \<and> zt_raised zt' = zt_raised zt \<and>
    zt_duration zt' = zt_duration zt \<and> zt_timer zt' = zt_timer zt"
  by (auto simp: zworker_step_def split: worker_pc.splits if_splits)

lemma timer_step_duration: "timer_step tp zt = Some zt' \<Longrightarrow> zt_duration zt' = zt_duration zt"
  by (auto simp: timer_step_def Let_def split: timer_pc.splits if_splits)

lemma ztimer_step_raised:
  assumes "raised_inv (zt_timer zt) first n zt" and "ztimer_step e zt = Some zt'"
  shows "(\<exists>first n. raised_inv (zt_timer zt') first n zt') \<and> zt_duration zt' = zt_duration zt"
proof (cases e)
  case (Timer tp)
  with assms timer_step_raised [OF assms(1)] timer_step_duration show ?thesis by auto
next
  case Worker
  with assms(2) zworker_step_fixed [of zt zt'] raised_inv_cong [OF assms(1), of zt'] show ?thesis by auto
next
  case Stop
  then have "raised_inv (zt_timer zt') first n zt'" "zt_duration zt' = zt_duration zt"
    using assms by (auto simp: timer_stop_request_def intro: raised_inv_cong)
  then show ?thesis by blast
qed

lemma ztimer_run_raised:
  "raised_inv (zt_timer zt) first n zt \<Longrightarrow> ztimer_run es zt = Some zt' \<Longrightarrow>
    (\<exists>first n. raised_inv (zt_timer zt') first n zt') \<and> zt_duration zt' = zt_duration zt"
proof (induction es arbitrary: zt first n)
  case (Cons e es)
  obtain zt1 where 1: "ztimer_step e zt = Some zt1" "ztimer_run es zt1 = Some zt'"
    using Cons.prems(2) by (auto split: option.splits)
  obtain first1 n1 where "raised_inv (zt_timer zt1) first1 n1 zt1" "zt_duration zt1 = zt_duration zt"
    using ztimer_step_raised [OF Cons.prems(1) 1(1)] by blast
  with Cons.IH [OF this(1) 1(2)] show ?case by simp
qed auto

lemma ztimer_run_answers:
  "answer_inv zt \<Longrightarrow> keeps_up es zt \<Longrightarrow> ztimer_run es zt = Some zt' \<Longrightarrow> answer_inv zt'"
proof (induction es arbitrary: zt)
  case (Cons e es)
  obtain zt1 where 1: "ztimer_step e zt = Some zt1" "ztimer_run es zt1 = Some zt'"
    using Cons.prems(3) by (auto split: option.splits)
  have "answer_inv zt1"
  proof (cases e)
    case (Timer tp)
    with Cons.prems 1(1) show ?thesis by (auto simp: raises_def intro: timer_step_answers)
  next
    case Worker
    with Cons.prems 1(1) show ?thesis by (auto intro: zworker_step_answers)
  next
    case Stop
    then have "zt1 = zt\<lparr>zt_running := False\<rparr>"
      using 1(1) by (simp add: timer_stop_request_def)
    with Cons.prems(1) show ?thesis by (simp add: answer_inv_def)
  qed
  with Cons.IH 1 Cons.prems(2) show ?case by simp
qed simp

lemma raised_prefix: "raised_inv pc first n zt \<Longrightarrow> prefix (zt_raised zt) (schedule first (zt_duration zt) (Suc n))"
  by (cases pc) (auto simp: schedule_Suc prefix_def)


lemma started_fields:
  "zt_timer (started_timer d) = T_start" "zt_worker (started_timer d) = W_test"
  by (simp_all add: started_timer_def)

lemma small_epoch: "allocation_time 1000 = 750" "tp_to_timestamp 1000000 = 1000"
  by (code_simp, simp add: tp_to_timestamp_def)

text \<open>Two epochs of 1000 microseconds from time 0.\<close>

definition two_epochs :: "zevent list" where
  "two_epochs =
    [Timer 0, Timer 0, Worker, Timer 750000, Worker, Worker, Worker, Worker, Timer 1000000, Worker, Worker, Worker, Timer 1000000,
     Timer 1000000, Worker, Timer 1750000, Worker, Worker, Worker]"


text \<open>
  A late allocation is made for the wrong epoch. If the worker, having taken the flag,
  reads \<^verbatim>\<open>next_epoch\<close> only after the end of the epoch, it reads the beginning of the epoch after
  next: the epoch that begins gets no slots, and the allocation of the next epoch
  hands out a second set of slots for the same stretch of time.
\<close>

theorem late_allocation_doubles:
  "\<exists>es zt. ztimer_run es (started_timer 1000) = Some zt \<and>
    zt_raised zt = [Allocate 1000, Epoch_end, Allocate 2000] \<and> zt_calls zt = [Allocate 2000, Epoch_end, Allocate 2000]"
proof -
  let ?es = "[Timer 0, Timer 0, Worker, Timer 750000, Worker, Timer 1000000, Timer 1000000, Timer 1000000, Worker, Worker,
    Worker, Worker, Worker, Worker, Worker, Timer 1750000, Worker, Worker]"
  obtain zt where "ztimer_run ?es (started_timer 1000) = Some zt"
    "zt_raised zt = [Allocate 1000, Epoch_end, Allocate 2000]" "zt_calls zt = [Allocate 2000, Epoch_end, Allocate 2000]"
    by (simp add: started_timer_def timer_step_def zworker_step_def awake_def small_epoch)
  then show ?thesis by (intro exI conjI)
qed

end
