(* ===== verification/Earlier_Buffers.thy ===== *)
theory Earlier_Buffers
  imports Circular_Buffer Command_Batch
begin

text \<open>
  \<^verbatim>\<open>impl/proxy/client_buffer_manager_old.h\<close>: the client buffers before they became one shared array.
  Each client has a ring of its own, and a batch is drawn from the rings in turn. Nothing
  includes the file any more; it is the only user of \<^verbatim>\<open>circular_buffer.h\<close>.
\<close>

section \<open>State and operations\<close>

definition MAX_BATCH_BYTES :: nat where
  "MAX_BATCH_BYTES = 60000"

text \<open>\<^verbatim>\<open>PendingRequest\<close>: a command and the socket of its client.\<close>

type_synonym pending_request = "command \<times> int"
type_synonym client_buffers = "int \<rightharpoonup> pending_request circular_buffer"

definition ring_of :: "int \<Rightarrow> client_buffers \<Rightarrow> pending_request circular_buffer" where
  "ring_of socket bufs = (case bufs socket of None \<Rightarrow> new_ring ([], -1) BUFFER_SIZE | Some b \<Rightarrow> b)"

text \<open>\<open>None\<close>: the push waits for space in the ring, holding the lock of the manager.\<close>

definition eb_push :: "int \<Rightarrow> command \<Rightarrow> client_buffers \<Rightarrow> client_buffers option" where
  "eb_push socket cmd bufs = map_option (\<lambda>(b, ok). bufs(socket \<mapsto> b)) (ring_push (cmd, socket) (ring_of socket bufs))"

definition eb_push_raw :: "int \<Rightarrow> byte list \<Rightarrow> nat \<Rightarrow> nat \<Rightarrow> client_buffers \<Rightarrow> fault + client_buffers option" where
  "eb_push_raw socket mem off len bufs = map_res (\<lambda>cmd. eb_push socket cmd bufs) (get_bytes len mem off)"

definition eb_remove :: "int \<Rightarrow> client_buffers \<Rightarrow> client_buffers" where
  "eb_remove socket bufs = bufs(socket := None)"

definition eb_buffer_size :: "int \<Rightarrow> client_buffers \<Rightarrow> nat" where
  "eb_buffer_size socket bufs = (case bufs socket of None \<Rightarrow> 0 | Some b \<Rightarrow> ring_size b)"

text \<open>
  One round over the clients, in the order in which the hash map is iterated: what it takes, and
  the bytes taken so far.
\<close>

fun eb_round :: "int list \<Rightarrow> nat \<Rightarrow> client_buffers \<Rightarrow> pending_request list \<times> nat \<times> client_buffers" where
  "eb_round [] bytes bufs = ([], bytes, bufs)"
| "eb_round (s # ss) bytes bufs =
    (if MAX_BATCH_BYTES \<le> bytes then ([], bytes, bufs)
     else case ring_peek (ring_of s bufs) of
       None \<Rightarrow> eb_round ss bytes bufs
     | Some pr \<Rightarrow>
         if bytes + length (fst pr) \<le> MAX_BATCH_BYTES
         then let (items, bytes', bufs') =
                eb_round ss (bytes + length (fst pr)) (bufs(s \<mapsto> ring_drop (ring_of s bufs)))
              in (pr # items, bytes', bufs')
         else eb_round ss bytes bufs)"

text \<open>Each round that takes anything leaves fewer requests in the rings.\<close>

definition waiting :: "int list \<Rightarrow> client_buffers \<Rightarrow> nat" where
  "waiting order bufs = sum_list (map (\<lambda>s. ring_size (ring_of s bufs)) order)"

lemma waiting_drop:
  assumes "0 < ring_size (ring_of s bufs)"
  shows "waiting order (bufs(s \<mapsto> ring_drop (ring_of s bufs))) \<le> waiting order bufs"
    and "s \<in> set order \<Longrightarrow> waiting order (bufs(s \<mapsto> ring_drop (ring_of s bufs))) < waiting order bufs"
proof -
  have one: "ring_size (ring_of t (bufs(s \<mapsto> ring_drop (ring_of s bufs)))) =
      (if t = s then ring_size (ring_of t bufs) - 1 else ring_size (ring_of t bufs))" for t
    by (auto simp: ring_of_def ring_drop_def)
  show le: "waiting order (bufs(s \<mapsto> ring_drop (ring_of s bufs))) \<le> waiting order bufs" for order
    unfolding waiting_def one by (intro sum_list_mono) simp
  show "waiting order (bufs(s \<mapsto> ring_drop (ring_of s bufs))) < waiting order bufs" if "s \<in> set order"
    using that
  proof (induction order)
    case (Cons t order)
    show ?case
    proof (cases "t = s")
      case True
      with le [of order] assms show ?thesis by (simp add: waiting_def one del: fun_upd_apply)
    next
      case False
      with Cons show ?thesis by (simp add: waiting_def one del: fun_upd_apply)
    qed
  qed simp
qed

lemma eb_round_waiting:
  assumes "eb_round ss bytes bufs = (items, bytes', bufs')" and "set ss \<subseteq> set order"
  shows "waiting order bufs' \<le> waiting order bufs" and "items \<noteq> [] \<Longrightarrow> waiting order bufs' < waiting order bufs"
proof -
  have "waiting order bufs' \<le> waiting order bufs \<and> (items \<noteq> [] \<longrightarrow> waiting order bufs' < waiting order bufs)"
    using assms
  proof (induction ss bytes bufs arbitrary: items rule: eb_round.induct)
    case (2 s ss bytes bufs)
    show ?case
    proof (cases "MAX_BATCH_BYTES \<le> bytes \<or> ring_peek (ring_of s bufs) = None")
      case True
      with 2 show ?thesis by (auto split: if_splits)
    next
      case False
      then obtain pr where pr: "ring_peek (ring_of s bufs) = Some pr" "\<not> MAX_BATCH_BYTES \<le> bytes" by auto
      then have "0 < ring_size (ring_of s bufs)" by (auto simp: ring_peek_def split: if_splits)
      note drop = waiting_drop [OF this, of order]
      show ?thesis
      proof (cases "bytes + length (fst pr) \<le> MAX_BATCH_BYTES")
        case True
        with 2(4) pr obtain items' where
          "eb_round ss (bytes + length (fst pr)) (bufs(s \<mapsto> ring_drop (ring_of s bufs))) = (items', bytes', bufs')"
          by (auto split: prod.splits)
        with 2(2) [OF pr(2,1) True this] 2(5) drop show ?thesis by (simp del: fun_upd_apply)
      next
        case no: False
        with 2(3) [OF pr(2,1) no] 2(4,5) pr show ?thesis by simp
      qed
    qed
  qed simp
  then show "waiting order bufs' \<le> waiting order bufs" and "items \<noteq> [] \<Longrightarrow> waiting order bufs' < waiting order bufs"
    by simp_all
qed

text \<open>Rounds until nothing was taken or the batch is full.\<close>

function eb_loop :: "int list \<Rightarrow> nat \<Rightarrow> client_buffers \<Rightarrow> pending_request list \<times> client_buffers" where
  "eb_loop order bytes bufs =
    (if bytes < MAX_BATCH_BYTES
     then let (items, bytes', bufs') = eb_round order bytes bufs in
       if items = [] then ([], bufs')
       else let (items', bufs'') = eb_loop order bytes' bufs' in (items @ items', bufs'')
     else ([], bufs))"
  by pat_completeness auto
termination
  by (relation "measure (\<lambda>(order, bytes, bufs). waiting order bufs)")
    (auto dest: eb_round_waiting(2) [OF sym])

declare eb_loop.simps [simp del]

definition drain_batch :: "int list \<Rightarrow> client_buffers \<Rightarrow> byte list \<times> int set \<times> client_buffers" where
  "drain_batch order bufs =
    (let (items, bufs') = eb_loop order 0 bufs
     in (fold add_command (map fst items) [], snd ` set items, bufs'))"

section \<open>What a batch takes\<close>

definition queue :: "client_buffers \<Rightarrow> int \<Rightarrow> pending_request list" where
  "queue bufs s = ring_items (ring_of s bufs)"

definition eb_inv :: "client_buffers \<Rightarrow> bool" where
  "eb_inv bufs \<longleftrightarrow> (\<forall>s. ring_inv (ring_of s bufs) \<and> ring_capacity (ring_of s bufs) = BUFFER_SIZE \<and>
    (\<forall>pr \<in> set (queue bufs s). snd pr = s))"

lemma eb_inv_empty: "eb_inv Map.empty"
  by (simp add: eb_inv_def queue_def ring_of_def) (simp add: new_ring_def)

lemma ring_of_update [simp]: "ring_of t (bufs(s \<mapsto> b)) = (if t = s then b else ring_of t bufs)"
  by (simp add: ring_of_def)

lemma queue_update: "queue (bufs(s \<mapsto> b)) t = (if t = s then ring_items b else queue bufs t)"
  by (simp add: queue_def)

lemma eb_inv_update:
  "eb_inv bufs \<Longrightarrow> ring_inv b \<Longrightarrow> ring_capacity b = BUFFER_SIZE \<Longrightarrow> \<forall>pr \<in> set (ring_items b). snd pr = s \<Longrightarrow>
    eb_inv (bufs(s \<mapsto> b))"
  by (simp add: eb_inv_def queue_update del: fun_upd_apply)

text \<open>
  A push waits exactly when its client has 16 requests in the ring; the lock it holds is the
  one that \<^verbatim>\<open>drain_batch\<close> needs, so no request is ever taken out again.
\<close>

lemma eb_push_result:
  assumes "eb_inv bufs"
  shows "if length (queue bufs s) = BUFFER_SIZE then eb_push s cmd bufs = None
    else \<exists>bufs'. eb_push s cmd bufs = Some bufs' \<and> eb_inv bufs' \<and>
      (\<forall>t. queue bufs' t = (if t = s then queue bufs t @ [(cmd, s)] else queue bufs t))"
proof -
  let ?b = "ring_of s bufs"
  have b: "ring_inv ?b" "ring_capacity ?b = BUFFER_SIZE" "\<forall>pr \<in> set (ring_items ?b). snd pr = s"
    using assms by (simp_all add: eb_inv_def queue_def)
  have size: "ring_size ?b \<le> BUFFER_SIZE" using b(1,2) by (simp add: ring_inv_def)
  show ?thesis
  proof (cases "ring_size ?b = BUFFER_SIZE")
    case True
    with b(2) show ?thesis by (simp add: eb_push_def ring_push_def queue_def)
  next
    case False
    with size b(2) have room: "ring_size ?b < ring_capacity ?b" by simp
    note put = ring_put_items [OF b(1) room, of "(cmd, s)"]
    have "eb_inv (bufs(s \<mapsto> ring_put (cmd, s) ?b))"
      using eb_inv_update [OF assms put(1)] b(2,3) put(2) by (simp add: ring_put_def)
    with False room put(2) show ?thesis
      by (simp add: eb_push_def ring_push_def queue_update queue_def del: fun_upd_apply)
  qed
qed

lemma eb_take:
  assumes "eb_inv bufs" and "ring_peek (ring_of s bufs) = Some pr"
  shows "eb_inv (bufs(s \<mapsto> ring_drop (ring_of s bufs)))" and "snd pr = s"
    and "queue bufs t = (if t = s then [pr] else []) @ queue (bufs(s \<mapsto> ring_drop (ring_of s bufs))) t"
proof -
  let ?b = "ring_of s bufs"
  have some: "0 < ring_size ?b" and pr: "pr = ring ?b ! ring_head ?b"
    using assms(2) by (auto simp: ring_peek_def split: if_splits)
  have b: "ring_inv ?b" "ring_capacity ?b = BUFFER_SIZE" "\<forall>pr \<in> set (ring_items ?b). snd pr = s"
    using assms(1) by (simp_all add: eb_inv_def queue_def)
  note drop = ring_drop_items [OF b(1) some]
  show "snd pr = s" using b(3) drop(2) pr by simp
  show "eb_inv (bufs(s \<mapsto> ring_drop ?b))"
    using eb_inv_update [OF assms(1) drop(1)] b(2,3) drop(2) by (simp add: ring_drop_def)
  show "queue bufs t = (if t = s then [pr] else []) @ queue (bufs(s \<mapsto> ring_drop ?b)) t"
    using drop(2) pr by (simp add: queue_update del: fun_upd_apply) (simp add: queue_def)
qed

definition volume :: "pending_request list \<Rightarrow> nat" where
  "volume items = sum_list (map (length \<circ> fst) items)"

lemma volume_simps [simp]: "volume [] = 0" "volume (pr # items) = length (fst pr) + volume items"
  "volume (xs @ ys) = volume xs + volume ys"
  by (simp_all add: volume_def)

definition blocked_heads :: "nat \<Rightarrow> int set \<Rightarrow> client_buffers \<Rightarrow> bool" where
  "blocked_heads bytes S bufs \<longleftrightarrow>
    (\<forall>s \<in> S. queue bufs s = [] \<or> MAX_BATCH_BYTES < bytes + length (fst (hd (queue bufs s))))"

lemma blocked_Cons:
  "blocked_heads bytes (set (s # ss)) bufs \<longleftrightarrow>
    (queue bufs s = [] \<or> MAX_BATCH_BYTES < bytes + length (fst (hd (queue bufs s)))) \<and> blocked_heads bytes (set ss) bufs"
  by (simp add: blocked_heads_def)

lemma ring_peek_queue:
  assumes "eb_inv bufs"
  shows "ring_peek (ring_of s bufs) = (if queue bufs s = [] then None else Some (hd (queue bufs s)))"
proof (cases "ring_peek (ring_of s bufs)")
  case None
  then have "length (queue bufs s) = 0" by (simp add: ring_peek_def queue_def split: if_splits)
  with None show ?thesis by simp
next
  case (Some pr)
  with eb_take(3) [OF assms Some, of s] show ?thesis by simp
qed

lemma eb_round_result:
  assumes "eb_inv bufs" and "bytes \<le> MAX_BATCH_BYTES" and "eb_round ss bytes bufs = (items, bytes', bufs')"
  shows "eb_inv bufs' \<and> bytes' = bytes + volume items \<and> bytes' \<le> MAX_BATCH_BYTES \<and>
    (\<forall>s. queue bufs s = filter (\<lambda>pr. snd pr = s) items @ queue bufs' s) \<and>
    (items = [] \<and> bytes < MAX_BATCH_BYTES \<longrightarrow> bufs' = bufs \<and> blocked_heads bytes (set ss) bufs)"
  using assms
proof (induction ss bytes bufs arbitrary: items rule: eb_round.induct)
  case (2 s ss bytes bufs)
  consider (full) "MAX_BATCH_BYTES \<le> bytes" | (none) "\<not> MAX_BATCH_BYTES \<le> bytes" "ring_peek (ring_of s bufs) = None"
    | (take) pr where "\<not> MAX_BATCH_BYTES \<le> bytes" "ring_peek (ring_of s bufs) = Some pr" "bytes + length (fst pr) \<le> MAX_BATCH_BYTES"
    | (skip) pr where "\<not> MAX_BATCH_BYTES \<le> bytes" "ring_peek (ring_of s bufs) = Some pr" "\<not> bytes + length (fst pr) \<le> MAX_BATCH_BYTES"
    by fastforce
  then show ?case
  proof cases
    case full
    with 2(4-6) show ?thesis by auto
  next
    case none
    have "queue bufs s = []"
      using ring_peek_queue [OF 2(4), of s] none(2) by (auto split: if_splits)
    moreover have "eb_round ss bytes bufs = (items, bytes', bufs')" using 2(6) none by simp
    note 2(1) [OF none 2(4,5) this]
    ultimately show ?thesis unfolding blocked_Cons by blast
  next
    case take
    let ?bufs = "bufs(s \<mapsto> ring_drop (ring_of s bufs))"
    note t = eb_take [OF 2(4) take(2)]
    from take 2(6) obtain items' where items: "eb_round ss (bytes + length (fst pr)) ?bufs = (items', bytes', bufs')"
      "items = pr # items'"
      by (auto split: prod.splits)
    from 2(2) [OF take(1,2,3) t(1) take(3) items(1)]
    have ih: "eb_inv bufs'" "bytes' = bytes + length (fst pr) + volume items'" "bytes' \<le> MAX_BATCH_BYTES"
      "queue ?bufs k = filter (\<lambda>pr. snd pr = k) items' @ queue bufs' k" for k
      by blast+
    have "queue bufs k = filter (\<lambda>pr. snd pr = k) items @ queue bufs' k" for k
      using t(3) [of k] ih(4) [of k] t(2) items(2) by (simp del: fun_upd_apply)
    with ih(1-3) items(2) show ?thesis by simp
  next
    case skip
    have "MAX_BATCH_BYTES < bytes + length (fst (hd (queue bufs s)))"
      using ring_peek_queue [OF 2(4), of s] skip(2,3) by (auto split: if_splits)
    moreover have "eb_round ss bytes bufs = (items, bytes', bufs')" using 2(6) skip by simp
    note 2(3) [OF skip 2(4,5) this]
    ultimately show ?thesis unfolding blocked_Cons by blast
  qed
qed (simp add: blocked_heads_def)

lemma eb_loop_result:
  assumes "eb_inv bufs" and "bytes \<le> MAX_BATCH_BYTES" and "eb_loop order bytes bufs = (items, bufs')"
  shows "eb_inv bufs' \<and> bytes + volume items \<le> MAX_BATCH_BYTES \<and>
    (\<forall>s. queue bufs s = filter (\<lambda>pr. snd pr = s) items @ queue bufs' s) \<and>
    (bytes + volume items = MAX_BATCH_BYTES \<or> blocked_heads (bytes + volume items) (set order) bufs')"
  using assms
proof (induction order bytes bufs arbitrary: items rule: eb_loop.induct)
  case (1 order bytes bufs)
  show ?case
  proof (cases "bytes < MAX_BATCH_BYTES")
    case False
    with 1 show ?thesis by (simp add: eb_loop.simps [of order])
  next
    case True
    obtain taken bytes1 bufs1 where round: "eb_round order bytes bufs = (taken, bytes1, bufs1)"
      by (cases "eb_round order bytes bufs")
    note r = eb_round_result [OF 1(2,3) round]
    show ?thesis
    proof (cases "taken = []")
      case none: True
      with True round 1(4) have "items = []" "bufs' = bufs1" by (simp_all add: eb_loop.simps [of order])
      moreover have "bufs1 = bufs" "blocked_heads bytes (set order) bufs" using r none True by blast+
      ultimately show ?thesis using 1(2,3) by simp
    next
      case False
      obtain items1 bufs2 where loop: "eb_loop order bytes1 bufs1 = (items1, bufs2)"
        by (cases "eb_loop order bytes1 bufs1")
      then have "eb_loop order bytes bufs = (taken @ items1, bufs2)"
        using True False round by (simp add: eb_loop.simps [of order bytes])
      with loop 1(4) have more: "eb_loop order bytes1 bufs1 = (items1, bufs')" "items = taken @ items1" by simp_all
      have r: "eb_inv bufs1" "bytes1 = bytes + volume taken" "bytes1 \<le> MAX_BATCH_BYTES"
        "queue bufs s = filter (\<lambda>pr. snd pr = s) taken @ queue bufs1 s" for s
        using r by blast+
      note ih = 1(1) [OF True round [symmetric] refl refl False r(1,3) more(1)]
      have "queue bufs s = filter (\<lambda>pr. snd pr = s) items @ queue bufs' s" for s
      proof -
        have "queue bufs1 s = filter (\<lambda>pr. snd pr = s) items1 @ queue bufs' s" using ih by blast
        with r(4) [of s] more(2) show ?thesis by simp
      qed
      moreover have "bytes + volume items = bytes1 + volume items1" using r(2) more(2) by simp
      ultimately show ?thesis using ih by presburger
    qed
  qed
qed

section \<open>Properties\<close>

text \<open>
  A batch takes from every client the oldest requests in their order, for at most
  60000 bytes of commands, and stops only when it is full or no client's next request fits: what it
  holds are exactly the requests taken, and what remains is the rest of every ring.
\<close>

theorem earlier_batch_fifo:
  assumes "eb_inv bufs" and "drain_batch order bufs = (batch, participating, bufs')"
  shows "\<exists>items. batch = batch_of (map fst items) \<and> participating = snd ` set items \<and>
    (\<forall>s. queue bufs s = filter (\<lambda>pr. snd pr = s) items @ queue bufs' s) \<and> volume items \<le> MAX_BATCH_BYTES \<and>
    (volume items = MAX_BATCH_BYTES \<or> blocked_heads (volume items) (set order) bufs')"
proof -
  obtain items where items: "eb_loop order 0 bufs = (items, bufs')" "batch = batch_of (map fst items)"
    "participating = snd ` set items"
    using assms(2) by (auto simp: drain_batch_def batch_of_def split: prod.splits)
  from eb_loop_result [OF assms(1) _ items(1)] items(2,3) show ?thesis
    by (intro exI [of _ items]) simp
qed

text \<open>A request of more than 60000 bytes is never taken, nor any behind it.\<close>

lemma large_request_blocks:
  assumes "eb_inv bufs" and "queue bufs s = pr # rest" and "MAX_BATCH_BYTES < length (fst pr)"
    and "eb_loop order 0 bufs = (items, bufs')"
  shows "queue bufs' s = pr # rest"
proof -
  note r = eb_loop_result [OF assms(1) _ assms(4)]
  have "filter (\<lambda>pr. snd pr = s) items = []"
  proof (rule ccontr)
    assume "filter (\<lambda>pr. snd pr = s) items \<noteq> []"
    then obtain x xs where x: "filter (\<lambda>pr. snd pr = s) items = x # xs" by (cases "filter (\<lambda>pr. snd pr = s) items") auto
    moreover have "pr # rest = filter (\<lambda>pr. snd pr = s) items @ queue bufs' s" using r assms(2) by (metis zero_le)
    ultimately have "pr = x" by simp
    moreover have "x \<in> set items" using x by (metis filter_is_subset list.set_intros(1) subsetD)
    ultimately have "pr \<in> set items" by simp
    then have "length (fst pr) \<le> volume items" by (simp add: volume_def member_le_sum_list)
    moreover have "volume items \<le> MAX_BATCH_BYTES" using r by simp
    ultimately show False using assms(3) by simp
  qed
  moreover have "queue bufs s = filter (\<lambda>pr. snd pr = s) items @ queue bufs' s" using r by blast
  ultimately show ?thesis using assms(2) by simp
qed

end
