(* ===== verification/Earlier_Store.thy ===== *)
theory Earlier_Store
  imports Liveness
begin

text \<open>
  \<^verbatim>\<open>impl/server/message_store_old.h\<close>: the store of a server when it kept decoded messages
  instead of wire images. Nothing includes the file any more.
\<close>

type_synonym earlier_store = "node_id \<rightharpoonup> message list"

definition es_store :: "node_id \<Rightarrow> message \<Rightarrow> earlier_store \<Rightarrow> earlier_store" where
  "es_store proxy msg st = st(proxy \<mapsto> (case st proxy of None \<Rightarrow> [] | Some ms \<Rightarrow> ms) @ [msg])"

definition es_get :: "node_id \<Rightarrow> earlier_store \<Rightarrow> message list" where
  "es_get proxy st = (case st proxy of None \<Rightarrow> [] | Some ms \<Rightarrow> ms)"

definition es_has :: "node_id \<Rightarrow> earlier_store \<Rightarrow> bool" where
  "es_has proxy st \<longleftrightarrow> st proxy \<noteq> None"

lemma es_get_store: "es_get p (es_store q msg st) = (if p = q then es_get p st @ [msg] else es_get p st)"
  by (simp add: es_get_def es_store_def)

text \<open>
  The present store holds, for the same calls with the images of the messages, the images of what
  the earlier one holds; decoding them gives the earlier store back.
\<close>

definition images :: "(message \<Rightarrow> byte list) \<Rightarrow> earlier_store \<Rightarrow> message_store" where
  "images encode st = (\<lambda>p. map_option (map encode) (st p))"

lemma images_store: "images encode (es_store p msg st) = store p (encode msg) (images encode st)"
  by (auto simp: images_def es_store_def store_def split: option.splits)

lemma images_get: "stored p (images encode st) = map encode (es_get p st)"
  by (simp add: images_def stored_def es_get_def split: option.splits)

lemma images_has: "has p (images encode st) \<longleftrightarrow> es_has p st"
  by (simp add: images_def has_def es_has_def)

lemma stores_correspond:
  "fold (\<lambda>(p, msg). store p (encode msg)) calls (images encode st) =
    images encode (fold (\<lambda>(p, msg). es_store p msg) calls st)"
  by (induction calls arbitrary: st) (auto simp: images_store [symmetric])

lemma earlier_store_recovered:
  assumes "\<forall>(p, msg) \<in> set calls. decode (encode msg) = msg"
  shows "map decode (stored p (fold (\<lambda>(p, msg). store p (encode msg)) calls Map.empty)) =
    es_get p (fold (\<lambda>(p, msg). es_store p msg) calls Map.empty)"
proof -
  have held: "decode (encode m) = m"
    if "m \<in> set (es_get p (fold (\<lambda>(p, msg). es_store p msg) calls Map.empty))" for m
  proof -
    have "set (es_get p (fold (\<lambda>(p, msg). es_store p msg) cs st)) \<subseteq> set (es_get p st) \<union> snd ` set cs" for cs st
    proof (induction cs arbitrary: st)
      case (Cons c cs)
      show ?case
        using Cons [of "es_store (fst c) (snd c) st"] by (auto simp: es_get_store split_beta split: if_splits)
    qed simp
    from subsetD [OF this that] assms show ?thesis by (auto simp: es_get_def)
  qed
  have "images encode Map.empty = Map.empty" by (simp add: images_def)
  with stores_correspond [of encode calls Map.empty] have
    "stored p (fold (\<lambda>(p, msg). store p (encode msg)) calls Map.empty) =
      map encode (es_get p (fold (\<lambda>(p, msg). es_store p msg) calls Map.empty))"
    by (simp add: images_get)
  with held show ?thesis by (simp add: map_idI)
qed

end
