(* ===== verification/Zipper_Sending.thy ===== *)
theory Zipper_Sending
  imports Connection_Pool Zipper
begin

text \<open>
  How the messages of the Zipper get to the other nodes: \<^verbatim>\<open>broadcast_to_servers\<close> of
  \<^verbatim>\<open>impl/zipper/reconfig_manager.cpp\<close>, where one task per server shares the connection pool, and
  the sends of \<^verbatim>\<open>deliver_slot_allocation\<close> in \<^verbatim>\<open>impl/zipper/zipper.cpp\<close>, one after the other.
\<close>

section \<open>Tasks\<close>

text \<open>
  A task has a message for an address; the system's answers and how much of the message is
  taken are inputs. The tasks of all broadcasts that run at the same time form one list.
\<close>

record send_task =
  ta_address :: address
  ta_message :: message
  ta_os :: os
  ta_accepted :: int

datatype task_pc = To_connect | To_send int | To_close | Task_over

text \<open>\<open>bs_sent\<close> is history: the task, the peer of the socket when it was written to, the bytes.\<close>

record broadcasting =
  bs_pool :: pool
  bs_fds :: descriptors
  bs_pcs :: "nat \<Rightarrow> task_pc"
  bs_sent :: "(nat \<times> address option option \<times> byte list) list"

definition start_tasks :: "pool \<Rightarrow> descriptors \<Rightarrow> broadcasting" where
  "start_tasks pool fds = \<lparr>bs_pool = pool, bs_fds = fds, bs_pcs = (\<lambda>_. To_connect), bs_sent = []\<rparr>"

text \<open>The steps of a task between two calls that lock the pool.\<close>

definition task_step :: "send_task \<Rightarrow> nat \<Rightarrow> broadcasting \<Rightarrow> broadcasting" where
  "task_step t i b =
    (case bs_pcs b i of
       To_connect \<Rightarrow>
         (let (sock, pool, fds) = get_connection (ta_os t) (ta_address t) (bs_pool b, bs_fds b)
          in b\<lparr>bs_pool := pool, bs_fds := fds,
               bs_pcs := (bs_pcs b)(i := if sock < 0 then Task_over else To_send sock)\<rparr>)
     | To_send sock \<Rightarrow>
         (let (out, ok) = send_message (ta_accepted t) (ta_message t)
          in b\<lparr>bs_sent := bs_sent b @ [(i, bs_fds b sock, out)],
               bs_pcs := (bs_pcs b)(i := if ok then Task_over else To_close)\<rparr>)
     | To_close \<Rightarrow>
         (let (pool, fds) = close_connection (ta_address t) (bs_pool b, bs_fds b)
          in b\<lparr>bs_pool := pool, bs_fds := fds, bs_pcs := (bs_pcs b)(i := Task_over)\<rparr>)
     | Task_over \<Rightarrow> b)"

definition run_tasks :: "send_task list \<Rightarrow> nat list \<Rightarrow> broadcasting \<Rightarrow> broadcasting" where
  "run_tasks tasks schedule b = fold (\<lambda>i. task_step (tasks ! i) i) schedule b"

text \<open>\<^verbatim>\<open>broadcast_to_servers\<close>: one message, a task for each server.\<close>

definition broadcast_tasks :: "message \<Rightarrow> (address \<times> os \<times> int) list \<Rightarrow> send_task list" where
  "broadcast_tasks msg servers =
    map (\<lambda>(a, os, accepted). \<lparr>ta_address = a, ta_message = msg, ta_os = os, ta_accepted = accepted\<rparr>) servers"

section \<open>Tasks with different peers\<close>

lemma get_connection_others:
  assumes "get_connection os a (pool, fds) = (s, pool', fds')" and "b \<noteq> a"
  shows "pool' b = pool b"
  using assms by (auto simp: get_connection_def new_connection_defs split: option.splits if_splits prod.splits)

lemma get_connection_pooled:
  assumes "get_connection os a (pool, fds) = (s, pool', fds')" and "0 \<le> s"
  shows "pool' a = Some s"
  using assms by (auto simp: get_connection_def new_connection_defs split: option.splits if_splits prod.splits)

lemma close_connection_others:
  assumes "close_connection a (pool, fds) = (pool', fds')" and "b \<noteq> a"
  shows "pool' b = pool b"
  using assms by (auto simp: close_connection_def split: option.splits)

definition sent_right :: "send_task list \<Rightarrow> nat \<times> address option option \<times> byte list \<Rightarrow> bool" where
  "sent_right tasks e \<longleftrightarrow> (case e of (i, peer, out) \<Rightarrow> i < length tasks \<and> peer = Some (Some (ta_address (tasks ! i))) \<and>
    out = fst (send_message (ta_accepted (tasks ! i)) (ta_message (tasks ! i))))"

text \<open>A task that is about to write has the pool's socket for its peer, and has not written yet.\<close>

definition tasks_inv :: "send_task list \<Rightarrow> pool \<times> descriptors \<Rightarrow> broadcasting \<Rightarrow> bool" where
  "tasks_inv tasks st b \<longleftrightarrow> pool_ok (bs_pool b) (bs_fds b) \<and> keeps st (bs_pool b, bs_fds b) \<and>
    (\<forall>i s. i < length tasks \<longrightarrow> bs_pcs b i = To_send s \<longrightarrow> bs_pool b (ta_address (tasks ! i)) = Some s) \<and>
    list_all (sent_right tasks) (bs_sent b) \<and> distinct (map fst (bs_sent b)) \<and>
    (\<forall>i < length tasks. (i \<in> set (map fst (bs_sent b))) \<longrightarrow> bs_pcs b i \<in> {To_close, Task_over})"

lemma tasks_inv_start: "pool_ok pool fds \<Longrightarrow> tasks_inv tasks (pool, fds) (start_tasks pool fds)"
  by (simp add: tasks_inv_def start_tasks_def)

lemma tasks_inv_step:
  assumes "tasks_inv tasks st b" and "i < length tasks" and "distinct (map ta_address tasks)"
    and "\<forall>t \<in> set tasks. fresh_sockets (ta_os t)"
  shows "tasks_inv tasks st (task_step (tasks ! i) i b)"
proof -
  let ?t = "tasks ! i" and ?a = "ta_address (tasks ! i)"
  have other: "ta_address (tasks ! j) \<noteq> ?a" if "j < length tasks" "j \<noteq> i" for j
    using assms(2,3) that by (metis length_map nth_eq_iff_index_eq nth_map)
  have ok: "pool_ok (bs_pool b) (bs_fds b)" "keeps st (bs_pool b, bs_fds b)"
    using assms(1) by (simp_all add: tasks_inv_def)
  show ?thesis
  proof (cases "bs_pcs b i")
    case To_connect
    obtain s pool fds where g: "get_connection (ta_os ?t) ?a (bs_pool b, bs_fds b) = (s, pool, fds)"
      by (cases "get_connection (ta_os ?t) ?a (bs_pool b, bs_fds b)") auto
    have "fresh_sockets (ta_os ?t)" using assms(2,4) by simp
    note c = get_connection_ok [OF ok(1) this g]
    have "bs_pool b (ta_address (tasks ! j)) = pool (ta_address (tasks ! j))" if "j < length tasks" "j \<noteq> i" for j
      using get_connection_others [OF g other [OF that]] by simp
    with assms(1) To_connect g c keeps_trans [OF ok(2) c(2)] get_connection_pooled [OF g] show ?thesis
      by (auto simp: tasks_inv_def task_step_def)
  next
    case (To_send s)
    have "bs_pool b ?a = Some s" using assms(1,2) To_send by (simp add: tasks_inv_def)
    then have "bs_fds b s = Some (Some ?a)" using ok(1) unfolding pool_ok_def by blast
    moreover have "i \<notin> set (map fst (bs_sent b))" using assms(1,2) To_send by (auto simp: tasks_inv_def)
    ultimately show ?thesis
      using assms(1,2) To_send
      by (cases "send_message (ta_accepted ?t) (ta_message ?t)") (auto simp: tasks_inv_def task_step_def sent_right_def)
  next
    case To_close
    obtain pool fds where g: "close_connection ?a (bs_pool b, bs_fds b) = (pool, fds)"
      by (cases "close_connection ?a (bs_pool b, bs_fds b)") auto
    note c = close_connection_ok [OF ok(1) g]
    have "bs_pool b (ta_address (tasks ! j)) = pool (ta_address (tasks ! j))" if "j < length tasks" "j \<noteq> i" for j
      using close_connection_others [OF g other [OF that]] by simp
    with assms(1) To_close g c keeps_trans [OF ok(2), of "(pool, fds)"] show ?thesis
      by (auto simp: tasks_inv_def task_step_def)
  next
    case Task_over
    with assms(1) show ?thesis by (simp add: task_step_def)
  qed
qed

lemma tasks_inv_run:
  assumes "tasks_inv tasks st b" and "\<forall>i \<in> set schedule. i < length tasks" and "distinct (map ta_address tasks)"
    and "\<forall>t \<in> set tasks. fresh_sockets (ta_os t)"
  shows "tasks_inv tasks st (run_tasks tasks schedule b)"
  using assms(1,2)
proof (induction schedule arbitrary: b)
  case (Cons i schedule)
  then show ?case
    using tasks_inv_step [OF Cons.prems(1) _ assms(3,4), of i] by (simp add: run_tasks_def)
qed (simp add: run_tasks_def)

section \<open>The sends of an allocation\<close>

text \<open>
  The second half of \<^verbatim>\<open>deliver_slot_allocation\<close>: to the proxy, then to every server. A failed send
  closes the connection to the proxy but not that to a server. The result has what was written, by peer.
\<close>

definition send_to_proxy ::
  "message \<Rightarrow> address \<Rightarrow> os \<Rightarrow> int \<Rightarrow> pool \<times> descriptors \<Rightarrow> (address \<times> byte list) list \<times> pool \<times> descriptors" where
  "send_to_proxy resp proxy os accepted st =
    (let (sock, st) = get_connection os proxy st in
     if sock < 0 then ([], st)
     else let (out, ok) = send_message accepted resp in
       ([(proxy, out)], if ok then st else close_connection proxy st))"

fun forward_to_servers ::
  "message \<Rightarrow> (address \<times> os \<times> int) list \<Rightarrow> pool \<times> descriptors \<Rightarrow> (address \<times> byte list) list \<times> pool \<times> descriptors" where
  "forward_to_servers resp [] st = ([], st)"
| "forward_to_servers resp ((server, os, accepted) # servers) st =
    (let (sock, st) = get_connection os server st in
     if sock < 0 then forward_to_servers resp servers st
     else let (outs, st) = forward_to_servers resp servers st
       in ((server, fst (send_message accepted resp)) # outs, st))"

text \<open>
  A message that was written in part to a connection that stays open is completed with the beginning
  of the next: the reader gets a body that nobody sent.
\<close>

lemma short_write_mixes_messages:
  assumes "length b \<le> k + 2 + length c" and "k < length b"
  shows "take (2 + k) (frame b) @ frame c =
    frame (take k b @ take (length b - k) (frame c)) @ drop (length b - k) (frame c)"
proof -
  have "length (take k b @ take (length b - k) (frame c)) = length b"
    using assms by simp
  then have "frame (take k b @ take (length b - k) (frame c)) =
      be_bytes 2 (of_nat (length b) :: u16) @ take k b @ take (length b - k) (frame c)"
    by (simp only: frame_def [of "take k b @ take (length b - k) (frame c)"])
  then show ?thesis
    by (simp add: frame_def [of b])
qed

section \<open>Properties\<close>

definition task_for :: "address \<Rightarrow> int \<Rightarrow> send_task" where
  "task_for a accepted =
    \<lparr>ta_address = a, ta_message = blank_message (code FREEZE) (0, 0, 0), ta_os = small_os True, ta_accepted = accepted\<rparr>"

text \<open>
  C32: the tasks of a broadcast do not disturb each other. With different peers, under every
  interleaving of their calls of the pool and whatever the system answers, each task writes at most
  once, its own message, to a socket that is at that moment connected to its own peer; every socket of
  the pool stays connected to its peer, no other descriptor is touched, none is lost.
\<close>

theorem broadcast_tasks_separate:
  assumes "pool_ok pool fds" and "distinct (map ta_address tasks)" and "\<forall>t \<in> set tasks. fresh_sockets (ta_os t)"
    and "\<forall>i \<in> set schedule. i < length tasks" and "run_tasks tasks schedule (start_tasks pool fds) = b"
  shows "(\<forall>(i, peer, out) \<in> set (bs_sent b). i < length tasks \<and> peer = Some (Some (ta_address (tasks ! i))) \<and>
      out = fst (send_message (ta_accepted (tasks ! i)) (ta_message (tasks ! i)))) \<and>
    distinct (map fst (bs_sent b)) \<and> pool_ok (bs_pool b) (bs_fds b) \<and> keeps (pool, fds) (bs_pool b, bs_fds b)"
  using tasks_inv_run [OF tasks_inv_start [OF assms(1)] assms(4,2,3)] assms(5)
  by (auto simp: tasks_inv_def sent_right_def list_all_iff)

theorem broadcast_tasks_separate_witness:
  "let tasks = [task_for (''10.0.0.1'', 1) 57, task_for (''10.0.0.2'', 1) 0];
       b = run_tasks tasks [0, 1, 1, 0, 1] (start_tasks Map.empty Map.empty)
   in map fst (bs_sent b) = [1, 0] \<and> distinct (map fst (bs_sent b)) \<and>
     (\<forall>(i, peer, out) \<in> set (bs_sent b). i < length tasks \<and> peer = Some (Some (ta_address (tasks ! i))) \<and>
       out = fst (send_message (ta_accepted (tasks ! i)) (ta_message (tasks ! i)))) \<and>
     pool_ok (bs_pool b) (bs_fds b) \<and> keeps (Map.empty, Map.empty) (bs_pool b, bs_fds b)"
proof -
  let ?tasks = "[task_for (''10.0.0.1'', 1) 57, task_for (''10.0.0.2'', 1) 0]"
  let ?b = "run_tasks ?tasks [0, 1, 1, 0, 1] (start_tasks Map.empty Map.empty)"
  have "fresh_sockets (small_os True)" by (auto simp: small_os_def fresh_sockets_def)
  then have "\<forall>t \<in> set ?tasks. fresh_sockets (ta_os t)" by (simp add: task_for_def)
  moreover have "pool_ok Map.empty Map.empty" by (simp add: pool_ok_def)
  moreover have "distinct (map ta_address ?tasks)" by (simp add: task_for_def)
  moreover have "map fst (bs_sent ?b) = [1, 0]"
    by (simp add: run_tasks_def start_tasks_def task_step_def task_for_def get_connection_def new_connection_defs
        small_os_def socket_alive_def close_connection_def send_message_def split_beta)
  moreover have "\<forall>i \<in> set [0, 1, 1, 0, 1]. i < length ?tasks" by simp
  ultimately show ?thesis
    unfolding Let_def using broadcast_tasks_separate [of Map.empty Map.empty ?tasks "[0, 1, 1, 0, 1]" ?b] by blast
qed

text \<open>
  Two broadcasts at the same time are different: they have tasks with the same peer, and the second may
  find the connection broken, close it and have its number given to the connection to another server
  before the first writes.
\<close>

lemma concurrent_broadcasts_misdirect:
  "\<exists>out. bs_sent (run_tasks [task_for (''10.0.0.1'', 1) 57, task_for (''10.0.0.1'', 1) 0, task_for (''10.0.0.2'', 1) 57]
      [0, 1, 1, 1, 2, 0] (start_tasks Map.empty Map.empty)) =
    [(1, Some (Some (''10.0.0.1'', 1)), []), (0, Some (Some (''10.0.0.2'', 1)), out)]"
  by (simp add: run_tasks_def start_tasks_def task_step_def task_for_def get_connection_def new_connection_defs
      small_os_def socket_alive_def close_connection_def send_message_def split_beta)

end
