(* ===== verification/Freeze_Completion.thy ===== *)
theory Freeze_Completion
  imports Freeze_Protocol
begin

text \<open>
  A freeze that runs without disturbance: the reports of the servers, the Zipper's \<^verbatim>\<open>FREEZE\<close>, the
  servers' answers, the completion.
\<close>

section \<open>The course of a freeze\<close>

text \<open>A task of the Zipper with all its sections: \<^verbatim>\<open>send_freeze\<close> and \<^verbatim>\<open>send_freeze_complete\<close>.\<close>

definition run_sections ::
  "shard_id \<Rightarrow> shard_id \<times> node_id \<times> seq_num \<Rightarrow> task \<Rightarrow> registry \<Rightarrow> fault + registry \<times> message list" where
  "run_sections shard junk t reg =
    bind_res (run_task shard junk t reg) (\<lambda>(reg, ts, ms).
      case ts of [] \<Rightarrow> Inr (reg, ms)
      | t # _ \<Rightarrow> map_res (\<lambda>(reg, _, ms'). (reg, ms @ ms')) (run_task shard junk t reg))"

definition run_started ::
  "shard_id \<Rightarrow> shard_id \<times> node_id \<times> seq_num \<Rightarrow> task option \<Rightarrow> registry \<Rightarrow> fault + registry \<times> message list" where
  "run_started shard junk next reg =
    (case next of None \<Rightarrow> Inr (reg, []) | Some t \<Rightarrow> run_sections shard junk t reg)"

text \<open>Answers one after the other: the thread that hears an answer also does what follows from it.\<close>

fun hear_answers ::
  "nat \<Rightarrow> shard_id \<Rightarrow> shard_id \<times> node_id \<times> seq_num \<Rightarrow> message list \<Rightarrow> registry \<Rightarrow> fault + registry \<times> message list" where
  "hear_answers quorum shard junk [] reg = Inr (reg, [])"
| "hear_answers quorum shard junk (m # ms) reg =
    bind_res (handle_freeze_response quorum m reg) (\<lambda>(reg, next).
    bind_res (run_started shard junk next reg) (\<lambda>(reg, out).
      map_res (\<lambda>(reg, outs). (reg, out @ outs)) (hear_answers quorum shard junk ms reg)))"

text \<open>A server with what the other servers send it; the answers to one message of the Zipper.\<close>

type_synonym peer_server = "message list option list \<times> rounds \<times> server"

fun answers_to ::
  "shard_id \<times> node_id \<times> seq_num \<Rightarrow> message \<Rightarrow> peer_server list \<Rightarrow> fault + message list" where
  "answers_to junk m [] = Inr []"
| "answers_to junk m ((peers, s) # ss) =
    bind_res (handle_freeze m True peers junk s) (\<lambda>(ms, _).
      map_res (\<lambda>resps. (case ms of None \<Rightarrow> [] | Some (transfer, resp) \<Rightarrow> [resp]) @ resps) (answers_to junk m ss))"

text \<open>The whole freeze: what the Zipper broadcasts before and after the answers.\<close>

definition freeze_course ::
  "nat \<Rightarrow> shard_id \<Rightarrow> shard_id \<times> node_id \<times> seq_num \<Rightarrow> message list \<Rightarrow> peer_server list \<Rightarrow> registry
    \<Rightarrow> fault + registry \<times> message list \<times> message list" where
  "freeze_course quorum shard junk reports servers reg =
    bind_res (hear_reports quorum reports reg) (\<lambda>(reg, starts).
    bind_res (run_started shard junk (case starts of [] \<Rightarrow> None | fp # _ \<Rightarrow> Some (Announce fp True)) reg) (\<lambda>(reg, sent).
    bind_res (case sent of [] \<Rightarrow> Inr [] | m # _ \<Rightarrow> answers_to junk m servers) (\<lambda>resps.
      map_res (\<lambda>(reg, out). (reg, sent, out)) (hear_answers quorum shard junk resps reg))))"

section \<open>Lemmas\<close>

lemma handle_report_allocated:
  "handle_report quorum m reg = Inr (reg', start) \<Longrightarrow> map_option ps_allocated (reg' i) = map_option ps_allocated (reg i)"
  by (auto simp: handle_report_def bind_res_eq_Inr Let_def split: option.splits if_splits)

lemma hear_reports_allocated:
  "hear_reports quorum ms reg = Inr (reg', starts) \<Longrightarrow> map_option ps_allocated (reg' i) = map_option ps_allocated (reg i)"
  by (induction ms arbitrary: reg starts)
    (auto simp: bind_res_eq_Inr map_res_def dest: handle_report_allocated split: sum.splits prod.splits)

lemma first_freeze:
  assumes "reg fp = Some st"
  shows "\<exists>m. run_sections shard junk (Announce fp True) reg =
      Inr (reg(fp \<mapsto> st\<lparr>ps_freeze_round := 1, ps_freeze_responders := {}, ps_last_sequences := {}\<rparr>), [m]) \<and>
    msg_type m = code FREEZE \<and> get_failed_proxy m = Inr fp \<and> get_round m = Inr 1"
  using assms
  by (simp add: run_sections_def announce_freeze_def get_proxy_def freeze_message_def message_defs map_res_def Let_def
      to_int_def)

text \<open>Servers that do not know of the freeze and agree on the last number.\<close>

definition agrees :: "node_id \<Rightarrow> seq_num \<Rightarrow> peer_server \<Rightarrow> bool" where
  "agrees fp n p \<longleftrightarrow> (case p of (peers, rounds, sv) \<Rightarrow> rounds fp = None \<and> last_seq fp (sv_liveness sv) = n)"

definition answers_with :: "node_id \<Rightarrow> seq_num \<Rightarrow> message \<Rightarrow> bool" where
  "answers_with fp n m \<longleftrightarrow> get_failed_proxy m = Inr fp \<and> get_round m = Inr 1 \<and> get_sequence_number m = Inr n"

lemma answers_to_agree:
  assumes "get_failed_proxy m = Inr fp" and "get_round m = Inr 1" and "\<forall>p \<in> set servers. agrees fp n p"
  shows "\<exists>resps. answers_to junk m servers = Inr resps \<and>
    map sender_id resps = map (\<lambda>(peers, rounds, sv). sv_id sv) servers \<and> (\<forall>r \<in> set resps. answers_with fp n r)"
  using assms(3)
proof (induction servers)
  case (Cons p servers)
  obtain peers rounds sv where p: "p = (peers, rounds, sv)" "rounds fp = None" "last_seq fp (sv_liveness sv) = n"
    using Cons.prems by (cases p) (auto simp: agrees_def)
  obtain resps where resps: "answers_to junk m servers = Inr resps"
    "map sender_id resps = map (\<lambda>(peers, rounds, sv). sv_id sv) servers" "\<forall>r \<in> set resps. answers_with fp n r"
    using Cons by auto
  from handle_freeze_result [OF assms(1,2), of peers junk rounds sv] p(2,3)
  obtain transfer resp s where "handle_freeze m True peers junk (rounds, sv) = Inr (Some (transfer, resp), s)"
    "sender_id resp = sv_id sv" "answers_with fp n resp"
    by (force simp: answers_with_def split: option.splits)
  with resps p(1) show ?case by (simp add: map_res_def)
qed simp

text \<open>
  The answers that follow in a round in which all that answered so far agree: every one from
  the quorum on completes the freeze.
\<close>

lemma hear_answers_agree:
  assumes "reg fp = Some st" and "ps_freeze_round st = 1" and "finite (ps_freeze_responders st)"
    and "ps_last_sequences st = (if ps_freeze_responders st = {} then {} else {n})"
    and "\<forall>m \<in> set ms. answers_with fp n m" and "distinct (map sender_id ms)"
    and "ps_freeze_responders st \<inter> sender_id ` set ms = {}"
    and "skip_messages shard junk fp n (ps_allocated st) = Inr skips" and "complete_message shard junk fp n = Inr fc"
  shows "\<exists>reg' st'. hear_answers quorum shard junk ms reg =
      Inr (reg', concat (replicate
        (Suc (card (ps_freeze_responders st) + length ms) - max quorum (Suc (card (ps_freeze_responders st)))) (skips @ [fc]))) \<and>
    reg' fp = Some st' \<and> ps_allocated st' = ps_allocated st \<and>
    (ps_status st' = (if ms \<noteq> [] \<and> quorum \<le> card (ps_freeze_responders st) + length ms then Blocked else ps_status st))"
  using assms
proof (induction ms arbitrary: reg st)
  case (Cons m ms)
  let ?R = "ps_freeze_responders st"
  let ?st = "st\<lparr>ps_freeze_responders := insert (sender_id m) ?R, ps_last_sequences := {n}\<rparr>"
  have seqs: "ps_last_sequences st = {} \<or> ps_last_sequences st = {n}" using Cons.prems(4) by simp
  have fresh: "card (insert (sender_id m) ?R) = Suc (card ?R)" using Cons.prems(3,7) by simp
  have m: "get_failed_proxy m = Inr fp" "get_round m = Inr 1" "get_sequence_number m = Inr n"
    using Cons.prems(5) by (simp_all add: answers_with_def)
  have one: "handle_freeze_response quorum m reg =
      Inr (reg(fp \<mapsto> ?st), if Suc (card ?R) < quorum then None else Some (Finish fp n))"
    using seqs Cons.prems(1,2) m fresh by (elim disjE) (simp_all add: handle_freeze_response_def Let_def)
  have finish: "run_sections shard junk (Finish fp n) (reg(fp \<mapsto> ?st)) =
      Inr (reg(fp \<mapsto> ?st\<lparr>ps_status := Blocked\<rparr>), skips @ [fc])"
    using Cons.prems(8,9) by (simp add: run_sections_def send_freeze_complete_def get_proxy_def map_res_def)
  have ih: "\<exists>reg' st'. hear_answers quorum shard junk ms (reg(fp \<mapsto> s)) =
      Inr (reg', concat (replicate (Suc (Suc (card ?R) + length ms) - max quorum (Suc (Suc (card ?R)))) (skips @ [fc]))) \<and>
      reg' fp = Some st' \<and> ps_allocated st' = ps_allocated st \<and>
      ps_status st' = (if ms \<noteq> [] \<and> quorum \<le> Suc (card ?R) + length ms then Blocked else ps_status s)"
    if "s = ?st \<or> s = ?st\<lparr>ps_status := Blocked\<rparr>" for s
  proof -
    have disj: "insert (sender_id m) ?R \<inter> sender_id ` set ms = {}" using Cons.prems(6,7) by auto
    have s: "ps_freeze_round s = 1" "finite (ps_freeze_responders s)" "ps_allocated s = ps_allocated st"
      "ps_last_sequences s = (if ps_freeze_responders s = {} then {} else {n})"
      "card (ps_freeze_responders s) = Suc (card ?R)" "ps_freeze_responders s \<inter> sender_id ` set ms = {}"
      using that Cons.prems(2,3) fresh disj by (elim disjE; simp)+
    have "(reg(fp \<mapsto> s)) fp = Some s" "\<forall>m \<in> set ms. answers_with fp n m" "distinct (map sender_id ms)"
      using Cons.prems(5,6) by simp_all
    note start = this
    have skipped: "skip_messages shard junk fp n (ps_allocated s) = Inr skips" using Cons.prems(8) s(3) by simp
    show ?thesis
      using Cons.IH [of "reg(fp \<mapsto> s)" s, OF start(1) s(1,2,4) start(2,3) s(6) skipped Cons.prems(9)]
      unfolding s(3,5) .
  qed
  show ?case
  proof (cases "Suc (card ?R) < quorum")
    case True
    have "max quorum (Suc (Suc (card ?R))) = max quorum (Suc (card ?R))" using True by simp
    moreover have "ms \<noteq> [] \<and> quorum \<le> Suc (card ?R) + length ms \<longleftrightarrow> quorum \<le> card ?R + length (m # ms)"
      using True by (cases ms) auto
    ultimately show ?thesis
      using one True ih [of ?st] by (auto simp: run_started_def map_res_def simp del: fun_upd_apply)
  next
    case False
    have "Suc (Suc (card ?R) + length ms) - max quorum (Suc (Suc (card ?R))) = length ms"
      "Suc (card ?R + length (m # ms)) - max quorum (Suc (card ?R)) = Suc (length ms)"
      using False by simp_all
    then show ?thesis
      using one False finish ih [of "?st\<lparr>ps_status := Blocked\<rparr>"]
      by (auto simp: run_started_def map_res_def simp del: fun_upd_apply)
  qed
qed simp

section \<open>Properties\<close>



end
