(* ===== verification/Server_Shutdown.thy ===== *)
theory Server_Shutdown
  imports Server
begin

text \<open>
  The destructor of \<^verbatim>\<open>impl/server/server.cpp\<close> against the workers of the broadcaster and the threads of
  the connections. \<^verbatim>\<open>SubscriberBroadcaster::shutdown\<close> holds the lock that \<^verbatim>\<open>broadcast\<close> needs until it has joined
  every worker. How the connections' threads end is modelled in theory \<open>Node\<close>; here they end when the
  node is closed.
\<close>

section \<open>States and steps\<close>

text \<open>
  A worker is before the test of its loop, in the exchange of an image with its subscriber, or
  over. A connection's thread has acknowledged and stored an image that it has still to broadcast, or
  waits for the next frame.
\<close>

datatype bworker_pc = B_test | B_exchange | B_over
datatype entry_pc = Reading | Acknowledged "byte list" | Ended
datatype sclose_pc = S_running | S_join_workers | S_close_node | S_close_pool | S_freed

text \<open>\<open>ds_acknowledged\<close>, \<open>ds_images\<close>: the images acknowledged and those broadcast.\<close>

record dying_server =
  ds_workers :: broadcaster
  ds_pcs :: "nat \<Rightarrow> bworker_pc"
  ds_entries :: "nat \<Rightarrow> entry_pc"
  ds_close :: sclose_pc
  ds_acknowledged :: "byte list list"
  ds_images :: "byte list list"

definition living_server :: "broadcaster \<Rightarrow> dying_server" where
  "living_server b =
    \<lparr>ds_workers = b, ds_pcs = (\<lambda>_. B_test), ds_entries = (\<lambda>_. Reading), ds_close = S_running,
     ds_acknowledged = [], ds_images = []\<rparr>"

text \<open>
  A round of a worker's loop in two steps, the wait for an image and the exchange; a worker that is
  told to stop during the exchange ends when that is over.
\<close>

definition after_round :: "bool \<Rightarrow> bworker \<Rightarrow> bworker" where
  "after_round told w = w\<lparr>bw_shutdown := bw_shutdown w \<or> told\<rparr>"

inductive sdestroy_step :: "dying_server \<Rightarrow> dying_server \<Rightarrow> bool" where
  entry: "ds_entries d j = Reading \<Longrightarrow> sdestroy_step d
    (d\<lparr>ds_entries := (ds_entries d)(j := Acknowledged wire), ds_acknowledged := ds_acknowledged d @ [wire]\<rparr>)"
| pushed: "ds_entries d j = Acknowledged wire \<Longrightarrow> ds_close d \<noteq> S_join_workers \<Longrightarrow> sdestroy_step d
    (d\<lparr>ds_entries := (ds_entries d)(j := Reading), ds_workers := broadcast wire (ds_workers d),
       ds_images := ds_images d @ [wire]\<rparr>)"
| closed: "ds_entries d j = Reading \<Longrightarrow> sdestroy_step d (d\<lparr>ds_entries := (ds_entries d)(j := Ended)\<rparr>)"
| stop_seen: "ds_pcs d i = B_test \<Longrightarrow> ds_workers d i = Some w \<Longrightarrow> bw_shutdown w \<Longrightarrow>
    sdestroy_step d (d\<lparr>ds_pcs := (ds_pcs d)(i := B_over)\<rparr>)"
| image_taken: "ds_pcs d i = B_test \<Longrightarrow> ds_workers d i = Some w \<Longrightarrow> \<not> bw_shutdown w \<Longrightarrow> bw_queue w \<noteq> [] \<Longrightarrow>
    sdestroy_step d (d\<lparr>ds_pcs := (ds_pcs d)(i := B_exchange)\<rparr>)"
| exchanged: "ds_pcs d i = B_exchange \<Longrightarrow> ds_workers d i = Some w \<Longrightarrow>
    worker_round sock accepted evs (w\<lparr>bw_shutdown := False\<rparr>) = Some w' \<Longrightarrow>
    sdestroy_step d (d\<lparr>ds_pcs := (ds_pcs d)(i := B_test), ds_workers := (ds_workers d)(i \<mapsto> after_round (bw_shutdown w) w')\<rparr>)"
| shut_broadcaster: "ds_close d = S_running \<Longrightarrow>
    sdestroy_step d (d\<lparr>ds_close := S_join_workers, ds_workers := shutdown_broadcaster (ds_workers d)\<rparr>)"
| workers_joined: "ds_close d = S_join_workers \<Longrightarrow> \<forall>i \<in> dom (ds_workers d). ds_pcs d i = B_over \<Longrightarrow>
    sdestroy_step d (d\<lparr>ds_close := S_close_node\<rparr>)"
| node_closed: "ds_close d = S_close_node \<Longrightarrow> \<forall>j. \<forall>wire. ds_entries d j \<noteq> Acknowledged wire \<Longrightarrow>
    sdestroy_step d (d\<lparr>ds_close := S_close_pool, ds_entries := (\<lambda>_. Ended)\<rparr>)"
| pool_closed: "ds_close d = S_close_pool \<Longrightarrow> sdestroy_step d (d\<lparr>ds_close := S_freed\<rparr>)"

section \<open>Invariant\<close>

text \<open>The images sent to a subscriber are the first of those broadcast.\<close>

definition fed :: "byte list list \<Rightarrow> bworker \<Rightarrow> bworker_pc \<Rightarrow> bool" where
  "fed ws w pc \<longleftrightarrow> prefix (bw_sent w) ws \<and> (\<not> bw_shutdown w \<or> pc = B_exchange \<longrightarrow> ws = bw_sent w @ bw_queue w) \<and>
    (pc = B_over \<longrightarrow> bw_shutdown w)"

definition ds_inv :: "dying_server \<Rightarrow> bool" where
  "ds_inv d \<longleftrightarrow> (\<forall>i w. ds_workers d i = Some w \<longrightarrow> fed (ds_images d) w (ds_pcs d i)) \<and>
    (ds_close d \<noteq> S_running \<longrightarrow> (\<forall>i w. ds_workers d i = Some w \<longrightarrow> bw_shutdown w)) \<and>
    (ds_close d \<in> {S_close_node, S_close_pool, S_freed} \<longrightarrow> (\<forall>i \<in> dom (ds_workers d). ds_pcs d i = B_over)) \<and>
    (ds_close d \<in> {S_close_pool, S_freed} \<longrightarrow> (\<forall>j. ds_entries d j = Ended))"

lemma fed_push: "fed ws w pc \<Longrightarrow> fed (ws @ [wire]) (push_image wire w) pc"
  by (auto simp: fed_def push_image_def queue_push_def intro: prefix_order.trans)

lemma fed_round:
  assumes "fed ws w B_exchange" and "worker_round sock accepted evs (w\<lparr>bw_shutdown := False\<rparr>) = Some w'"
  shows "fed ws (after_round (bw_shutdown w) w') B_test"
proof -
  have "bworker_inv ws (w\<lparr>bw_shutdown := False\<rparr>)" using assms(1) by (simp add: fed_def bworker_inv_def)
  from worker_round_inv [OF this assms(2)] show ?thesis by (simp add: fed_def bworker_inv_def after_round_def)
qed

lemma ds_inv_step: "sdestroy_step d d' \<Longrightarrow> ds_inv d \<Longrightarrow> ds_inv d'"
proof (induction rule: sdestroy_step.induct)
  case (pushed d j wire)
  then show ?case
    by (fastforce simp: ds_inv_def broadcast_def push_image_def [where w = w for w] dest: fed_push [of _ _ _ wire])
next
  case (exchanged d i w sock accepted evs w')
  have fed: "fed (ds_images d) w B_exchange" using exchanged(1,2,4) unfolding ds_inv_def by metis
  have "ds_close d \<notin> {S_close_node, S_close_pool, S_freed}"
    using exchanged(1,2,4) unfolding ds_inv_def by (metis bworker_pc.distinct(5) domI)
  with exchanged(2,4) fed_round [OF fed exchanged(3)] show ?case by (auto simp: ds_inv_def after_round_def)
next
  case (shut_broadcaster d)
  then show ?case by (auto simp: ds_inv_def shutdown_broadcaster_def fed_def)
next
  case (stop_seen d i w)
  from stop_seen(1,2,4) have "fed (ds_images d) w B_test" unfolding ds_inv_def by metis
  with stop_seen(2,3) have "fed (ds_images d) v B_over" if "ds_workers d i = Some v" for v
    using that by (simp add: fed_def)
  with stop_seen(4) show ?case unfolding ds_inv_def by simp
next
  case (image_taken d i w)
  from image_taken(1,2,5) have "fed (ds_images d) w B_test" unfolding ds_inv_def by metis
  with image_taken(2,3) have "fed (ds_images d) v B_exchange" if "ds_workers d i = Some v" for v
    using that by (simp add: fed_def)
  moreover have "ds_close d = S_running" using image_taken(2,3,5) unfolding ds_inv_def by metis
  ultimately show ?case using image_taken(5) unfolding ds_inv_def by simp
next
  case (entry d j wire)
  then show ?case unfolding ds_inv_def by (cases "ds_close d") auto
next
  case (closed d j)
  then show ?case unfolding ds_inv_def by simp
next
  case (workers_joined d)
  then show ?case unfolding ds_inv_def by simp
next
  case (node_closed d)
  then show ?case unfolding ds_inv_def by simp
next
  case (pool_closed d)
  then show ?case unfolding ds_inv_def by simp
qed

lemma ds_inv_run: "sdestroy_step\<^sup>*\<^sup>* d d' \<Longrightarrow> ds_inv d \<Longrightarrow> ds_inv d'"
  by (induction rule: rtranclp_induct) (auto intro: ds_inv_step)

lemma ds_inv_living:
  assumes "\<forall>i w. b i = Some w \<longrightarrow> w = new_bworker junk"
  shows "ds_inv (living_server b)"
proof -
  have "fed [] w B_test" if "b i = Some w" for i w
    using assms [rule_format, OF that] by (simp add: fed_def new_bworker_def)
  then show ?thesis by (auto simp: ds_inv_def living_server_def)
qed

section \<open>What no longer happens\<close>

text \<open>An exchange that is not over keeps the lock.\<close>

definition held_up :: "nat \<Rightarrow> byte list list \<Rightarrow> dying_server \<Rightarrow> bool" where
  "held_up i ws d \<longleftrightarrow> (\<exists>w. ds_workers d i = Some w \<and> bw_shutdown w) \<and>
    (ds_pcs d i = B_exchange \<longrightarrow> ds_close d = S_join_workers \<and> ds_images d = ws)"

lemma held_up_step: "sdestroy_step d d' \<Longrightarrow> held_up i ws d \<Longrightarrow> held_up i ws d'"
proof (induction rule: sdestroy_step.induct)
  case (workers_joined d)
  then have "ds_pcs d i = B_over" unfolding held_up_def by (meson domI)
  with workers_joined show ?case by (simp add: held_up_def)
qed (auto simp: held_up_def broadcast_def push_image_def shutdown_broadcaster_def after_round_def)

lemma held_up_run: "sdestroy_step\<^sup>*\<^sup>* d d' \<Longrightarrow> held_up i ws d \<Longrightarrow> held_up i ws d'"
  by (induction rule: rtranclp_induct) (auto intro: held_up_step)

definition sent_images :: "dying_server \<Rightarrow> nat \<Rightarrow> byte list list option" where
  "sent_images d i = map_option bw_sent (ds_workers d i)"

definition all_over :: "dying_server \<Rightarrow> bool" where
  "all_over d \<longleftrightarrow> ds_close d \<in> {S_close_node, S_close_pool, S_freed} \<and> (\<forall>i \<in> dom (ds_workers d). ds_pcs d i = B_over)"

lemma all_over_step: "sdestroy_step d d' \<Longrightarrow> all_over d \<Longrightarrow> all_over d' \<and> sent_images d' = sent_images d"
proof (induction rule: sdestroy_step.induct)
  case (pushed d j wire)
  then show ?case
    by (auto simp: all_over_def sent_images_def broadcast_def push_image_def fun_eq_iff option.map_comp o_def)
next
  case (exchanged d i w sock accepted evs w')
  then have "ds_pcs d i = B_over" unfolding all_over_def by (meson domI)
  with exchanged(1) show ?case by simp
next
  case (image_taken d i w)
  then have "ds_pcs d i = B_over" unfolding all_over_def by (meson domI)
  with image_taken(1) show ?case by simp
qed (auto simp: all_over_def sent_images_def)

lemma all_over_run: "sdestroy_step\<^sup>*\<^sup>* d d' \<Longrightarrow> all_over d \<Longrightarrow> all_over d' \<and> sent_images d' = sent_images d"
  by (induction rule: rtranclp_induct) (auto dest: all_over_step)

section \<open>Properties\<close>

text \<open>
  C35: the destruction of a server against its threads, under every interleaving. The images that
  reached a subscriber are always the first of those broadcast. While the destructor waits for a worker in an
  exchange with its subscriber, nothing is broadcast and no further step of the destructor is taken until
  that exchange is over: a silent subscriber holds up the server's destructor and all its
  connections that have an image to broadcast. Once the workers are joined no image reaches any
  subscriber, although connections are still served and acknowledged; and when the destructor has returned every
  worker and every connection's thread has ended.
\<close>

theorem server_destruction:
  assumes "\<forall>i w. b i = Some w \<longrightarrow> w = new_bworker junk" and "sdestroy_step\<^sup>*\<^sup>* (living_server b) d"
    and "sdestroy_step\<^sup>*\<^sup>* d d'"
  shows "(\<forall>i w. ds_workers d i = Some w \<longrightarrow> prefix (bw_sent w) (ds_images d)) \<and>
    (ds_close d = S_join_workers \<and> i \<in> dom (ds_workers d) \<and> ds_pcs d' i = B_exchange \<longrightarrow>
      ds_close d' = S_join_workers \<and> ds_images d' = ds_images d) \<and>
    (ds_close d \<in> {S_close_node, S_close_pool, S_freed} \<longrightarrow> sent_images d' = sent_images d) \<and>
    (ds_close d = S_freed \<longrightarrow> (\<forall>i \<in> dom (ds_workers d). ds_pcs d i = B_over) \<and> (\<forall>j. ds_entries d j = Ended))"
proof -
  have inv: "ds_inv d" by (rule ds_inv_run [OF assms(2) ds_inv_living [OF assms(1)]])
  have "prefix (bw_sent w) (ds_images d)" if "ds_workers d i = Some w" for i w
    using inv that by (simp add: ds_inv_def fed_def)
  moreover have "ds_close d' = S_join_workers \<and> ds_images d' = ds_images d"
    if "ds_close d = S_join_workers" "i \<in> dom (ds_workers d)" "ds_pcs d' i = B_exchange"
  proof -
    have "held_up i (ds_images d) d" using inv that(1,2) by (auto simp: ds_inv_def held_up_def)
    from held_up_run [OF assms(3) this] that(3) show ?thesis by (simp add: held_up_def)
  qed
  moreover have "sent_images d' = sent_images d" if "ds_close d \<in> {S_close_node, S_close_pool, S_freed}"
  proof -
    have "all_over d" using inv that by (auto simp: ds_inv_def all_over_def)
    from all_over_run [OF assms(3) this] show ?thesis by simp
  qed
  moreover have "(\<forall>i \<in> dom (ds_workers d). ds_pcs d i = B_over) \<and> (\<forall>j. ds_entries d j = Ended)" if "ds_close d = S_freed"
    using inv that by (simp add: ds_inv_def)
  ultimately show ?thesis by blast
qed

text \<open>A server with one subscriber, destroyed while an image is on its way; a connection goes on.\<close>

lemma destroyed_in_exchange:
  "\<exists>d d'. sdestroy_step\<^sup>*\<^sup>* (living_server [0 \<mapsto> new_bworker []]) d \<and> sdestroy_step\<^sup>*\<^sup>* d d' \<and>
    ds_close d = S_join_workers \<and> ds_pcs d' 0 = B_exchange \<and> 0 \<in> dom (ds_workers d) \<and>
    ds_acknowledged d' = [[1], [2]] \<and> ds_images d = [[1]]"
proof -
  let ?l = "living_server [0 \<mapsto> new_bworker []]"
  let ?acked = "\<lambda>d wire. d\<lparr>ds_entries := (ds_entries d)(0 := Acknowledged wire), ds_acknowledged := ds_acknowledged d @ [wire]\<rparr>"
  let ?d1 = "?acked ?l [1]"
  let ?d2 = "?d1\<lparr>ds_entries := (ds_entries ?d1)(0 := Reading), ds_workers := broadcast [1] (ds_workers ?d1),
    ds_images := ds_images ?d1 @ [[1]]\<rparr>"
  let ?d3 = "?d2\<lparr>ds_pcs := (ds_pcs ?d2)(0 := B_exchange)\<rparr>"
  let ?d4 = "?d3\<lparr>ds_close := S_join_workers, ds_workers := shutdown_broadcaster (ds_workers ?d3)\<rparr>"
  let ?d5 = "?acked ?d4 [2]"
  have "sdestroy_step ?l ?d1" by (rule entry) (simp add: living_server_def)
  moreover have "sdestroy_step ?d1 ?d2" by (rule pushed) (simp_all add: living_server_def)
  moreover have "sdestroy_step ?d2 ?d3"
    by (rule image_taken [where w = "push_image [1] (new_bworker [])"])
      (simp_all add: living_server_def broadcast_def push_image_def queue_push_def new_bworker_def)
  moreover have "sdestroy_step ?d3 ?d4" by (rule shut_broadcaster) (simp add: living_server_def)
  ultimately have "sdestroy_step\<^sup>*\<^sup>* ?l ?d4" by (meson rtranclp.rtrancl_refl rtranclp.rtrancl_into_rtrancl)
  moreover have "sdestroy_step ?d4 ?d5" by (rule entry) (simp add: living_server_def)
  ultimately show ?thesis
    by (intro exI [of _ ?d4] exI [of _ ?d5])
      (simp add: living_server_def broadcast_def shutdown_broadcaster_def r_into_rtranclp)
qed

theorem server_destruction_witness:
  "\<exists>d d'. sdestroy_step\<^sup>*\<^sup>* (living_server [0 \<mapsto> new_bworker []]) d \<and> sdestroy_step\<^sup>*\<^sup>* d d' \<and>
    ds_acknowledged d' = [[1], [2]] \<and> ds_close d' = S_join_workers \<and> ds_images d' = [[1]]"
proof -
  obtain d d' where run: "sdestroy_step\<^sup>*\<^sup>* (living_server [0 \<mapsto> new_bworker []]) d" "sdestroy_step\<^sup>*\<^sup>* d d'"
    and facts: "ds_close d = S_join_workers" "ds_pcs d' 0 = B_exchange" "0 \<in> dom (ds_workers d)"
      "ds_acknowledged d' = [[1], [2]]" "ds_images d = [[1]]"
    using destroyed_in_exchange by blast
  have "\<forall>i w. [0 \<mapsto> new_bworker []] i = Some w \<longrightarrow> w = new_bworker []" by simp
  from server_destruction [OF this run, of 0] run facts show ?thesis by auto
qed

end
