(* ===== verification/Zipper_Shutdown.thy ===== *)
theory Zipper_Shutdown
  imports Zipper_Timer
begin

text \<open>
  The destructor of \<^verbatim>\<open>impl/zipper/zipper.cpp\<close> against the two threads of the epoch timer and
  the threads that were detached: one for each allocation to deliver (\<^verbatim>\<open>allocate_slots\<close>) and one for each
  freeze that starts (\<^verbatim>\<open>handle_report\<close>). The threads of the connections are those of \<^verbatim>\<open>base_node.h\<close>, modelled
  in theory \<open>Node\<close>; here they end when the node is closed. A callback of the timer is one step: that the
  calls of other nodes inside it return is not shown here.
\<close>

section \<open>States and steps\<close>

datatype zclose_pc = Z_running | Z_join_timer | Z_join_worker | Z_close_node | Z_close_pool | Z_freed

text \<open>
  \<open>dz_detached\<close>: the detached threads that still run; \<open>dz_late\<close>: those that used the Zipper
  after it was freed.
\<close>

record dying_zipper =
  dz_timer :: ztimer
  dz_close :: zclose_pc
  dz_detached :: "nat set"
  dz_started :: nat
  dz_late :: "nat set"

definition living_zipper :: "timestamp \<Rightarrow> dying_zipper" where
  "living_zipper d =
    \<lparr>dz_timer = started_timer d, dz_close = Z_running, dz_detached = {}, dz_started = 0, dz_late = {}\<rparr>"

text \<open>The destructor: the timer is stopped and both of its threads are joined before anything else.\<close>

definition zclose_step :: "dying_zipper \<Rightarrow> dying_zipper option" where
  "zclose_step z =
    (case dz_close z of
       Z_running \<Rightarrow> Some (z\<lparr>dz_timer := timer_stop_request (dz_timer z), dz_close := Z_join_timer\<rparr>)
     | Z_join_timer \<Rightarrow> if zt_timer (dz_timer z) = T_done then Some (z\<lparr>dz_close := Z_join_worker\<rparr>) else None
     | Z_join_worker \<Rightarrow> if zt_worker (dz_timer z) = W_done then Some (z\<lparr>dz_close := Z_close_node\<rparr>) else None
     | Z_close_node \<Rightarrow> Some (z\<lparr>dz_close := Z_close_pool\<rparr>)
     | Z_close_pool \<Rightarrow> Some (z\<lparr>dz_close := Z_freed\<rparr>)
     | Z_freed \<Rightarrow> None)"

text \<open>A thread is detached by the call of \<^verbatim>\<open>on_allocate\<close> or by a connection's thread.\<close>

definition detach_step :: "dying_zipper \<Rightarrow> dying_zipper option" where
  "detach_step z =
    (if zt_worker (dz_timer z) = W_calling \<or> dz_close z \<notin> {Z_close_pool, Z_freed}
     then Some (z\<lparr>dz_detached := insert (dz_started z) (dz_detached z), dz_started := dz_started z + 1\<rparr>)
     else None)"

definition detached_step :: "nat \<Rightarrow> bool \<Rightarrow> dying_zipper \<Rightarrow> dying_zipper option" where
  "detached_step i ends z =
    (if i \<notin> dz_detached z then None
     else if ends then Some (z\<lparr>dz_detached := dz_detached z - {i}\<rparr>)
     else Some (z\<lparr>dz_late := (if dz_close z = Z_freed then insert i (dz_late z) else dz_late z)\<rparr>))"

datatype zdestroy_event = Tick nat | Work | Close_down | Detach | Use nat | Finished nat

fun zdestroy_step :: "zdestroy_event \<Rightarrow> dying_zipper \<Rightarrow> dying_zipper option" where
  "zdestroy_step (Tick tp) z = map_option (\<lambda>zt. z\<lparr>dz_timer := zt\<rparr>) (timer_step tp (dz_timer z))"
| "zdestroy_step Work z = map_option (\<lambda>zt. z\<lparr>dz_timer := zt\<rparr>) (zworker_step (dz_timer z))"
| "zdestroy_step Close_down z = zclose_step z"
| "zdestroy_step Detach z = detach_step z"
| "zdestroy_step (Use i) z = detached_step i False z"
| "zdestroy_step (Finished i) z = detached_step i True z"

fun zdestroy_run :: "zdestroy_event list \<Rightarrow> dying_zipper \<Rightarrow> dying_zipper option" where
  "zdestroy_run [] z = Some z"
| "zdestroy_run (e # es) z = (case zdestroy_step e z of None \<Rightarrow> None | Some z \<Rightarrow> zdestroy_run es z)"

lemmas zdestroy_defs = zclose_step_def detach_step_def detached_step_def timer_stop_request_def

section \<open>What the destructor waits for\<close>

text \<open>The steps that each thread has still to take once the timer is stopped.\<close>

fun timer_rest :: "timer_pc \<Rightarrow> nat" where
  "timer_rest T_start = 2" | "timer_rest T_test = 1" | "timer_rest T_allocate = 1" | "timer_rest T_end = 1"
| "timer_rest T_advance = 2" | "timer_rest T_done = 0"

fun worker_rest :: "worker_pc \<Rightarrow> nat" where
  "worker_rest W_test = 1" | "worker_rest W_wait = 1" | "worker_rest W_allocate = 3" | "worker_rest W_end = 3"
| "worker_rest W_calling = 2" | "worker_rest W_done = 0"

fun close_rest :: "zclose_pc \<Rightarrow> nat" where
  "close_rest Z_running = 5" | "close_rest Z_join_timer = 4" | "close_rest Z_join_worker = 3"
| "close_rest Z_close_node = 2" | "close_rest Z_close_pool = 1" | "close_rest Z_freed = 0"

definition rest :: "dying_zipper \<Rightarrow> nat" where
  "rest z = timer_rest (zt_timer (dz_timer z)) + worker_rest (zt_worker (dz_timer z)) + close_rest (dz_close z)"

text \<open>The events that are steps of the timer's threads or the destructor.\<close>

fun closing :: "zdestroy_event \<Rightarrow> bool" where
  "closing (Tick tp) = True" | "closing Work = True" | "closing Close_down = True" | "closing _ = False"

definition stopped :: "dying_zipper \<Rightarrow> bool" where
  "stopped z \<longleftrightarrow> dz_close z \<noteq> Z_running \<and> \<not> zt_running (dz_timer z)"

lemma timer_step_rest:
  "timer_step tp zt = Some zt' \<Longrightarrow> \<not> zt_running zt \<Longrightarrow>
    \<not> zt_running zt' \<and> zt_worker zt' = zt_worker zt \<and> Suc (timer_rest (zt_timer zt')) = timer_rest (zt_timer zt)"
  by (cases "zt_timer zt") (auto simp: timer_step_def Let_def awake_def)

lemma zworker_step_rest:
  "zworker_step zt = Some zt' \<Longrightarrow> \<not> zt_running zt \<Longrightarrow>
    \<not> zt_running zt' \<and> zt_timer zt' = zt_timer zt \<and> Suc (worker_rest (zt_worker zt')) = worker_rest (zt_worker zt)"
  by (cases "zt_worker zt") (auto simp: zworker_step_def)

lemma zdestroy_step_rest:
  assumes "zdestroy_step e z = Some z'" and "stopped z"
  shows "stopped z' \<and> rest z = rest z' + (if closing e then 1 else 0)"
proof (cases e)
  case (Tick tp)
  with assms show ?thesis
    using timer_step_rest [of tp "dz_timer z"] by (fastforce simp: stopped_def rest_def)
next
  case Work
  with assms show ?thesis
    using zworker_step_rest [of "dz_timer z"] by (fastforce simp: stopped_def rest_def)
next
  case Close_down
  with assms show ?thesis
    by (cases "dz_close z") (auto simp: stopped_def rest_def zclose_step_def split: if_splits)
qed (use assms in \<open>auto simp: stopped_def rest_def detach_step_def detached_step_def split: if_splits\<close>)

lemma zdestroy_run_rest:
  assumes "zdestroy_run es z = Some z'" and "stopped z"
  shows "stopped z' \<and> rest z = rest z' + length (filter closing es)"
  using assms
proof (induction es arbitrary: z)
  case (Cons e es)
  obtain z1 where 1: "zdestroy_step e z = Some z1" "zdestroy_run es z1 = Some z'"
    using Cons.prems(1) by (auto split: option.splits)
  from zdestroy_step_rest [OF 1(1) Cons.prems(2)] Cons.IH [OF 1(2)] show ?case by simp
qed simp

lemma rest_bound: "dz_close z \<noteq> Z_running \<Longrightarrow> rest z \<le> 9"
  by (cases "zt_timer (dz_timer z)"; cases "zt_worker (dz_timer z)"; cases "dz_close z") (simp_all add: rest_def)

text \<open>Until the Zipper is freed one of the three can go on.\<close>

lemma closing_enabled:
  assumes "stopped z" and "dz_close z \<noteq> Z_freed"
  shows "\<exists>e. closing e \<and> zdestroy_step e z \<noteq> None"
proof (cases "dz_close z = Z_join_timer \<and> zt_timer (dz_timer z) \<noteq> T_done")
  case True
  with assms(1) have "zdestroy_step (Tick 0) z \<noteq> None"
    by (cases "zt_timer (dz_timer z)") (auto simp: stopped_def timer_step_def Let_def awake_def)
  then show ?thesis by (intro exI [of _ "Tick 0"]) simp
next
  case timer: False
  show ?thesis
  proof (cases "dz_close z = Z_join_worker \<and> zt_worker (dz_timer z) \<noteq> W_done")
    case True
    with assms(1) have "zdestroy_step Work z \<noteq> None"
      by (cases "zt_worker (dz_timer z)") (auto simp: stopped_def zworker_step_def)
    then show ?thesis by (intro exI [of _ Work]) simp
  next
    case False
    with timer assms have "zdestroy_step Close_down z \<noteq> None"
      by (cases "dz_close z") (auto simp: stopped_def zclose_step_def)
    then show ?thesis by (intro exI [of _ Close_down]) simp
  qed
qed

section \<open>What is left when the Zipper is gone\<close>

definition dz_inv :: "dying_zipper \<Rightarrow> bool" where
  "dz_inv z \<longleftrightarrow>
    (dz_close z = Z_running \<longrightarrow> zt_running (dz_timer z)) \<and> (dz_close z \<noteq> Z_running \<longrightarrow> \<not> zt_running (dz_timer z)) \<and>
    (dz_close z \<notin> {Z_running, Z_join_timer} \<longrightarrow> zt_timer (dz_timer z) = T_done) \<and>
    (dz_close z \<in> {Z_close_node, Z_close_pool, Z_freed} \<longrightarrow> zt_worker (dz_timer z) = W_done) \<and>
    dz_late z \<subseteq> {..<dz_started z} \<and> dz_detached z \<subseteq> {..<dz_started z} \<and> (dz_close z \<noteq> Z_freed \<longrightarrow> dz_late z = {})"

lemma timer_step_kept: "timer_step tp zt = Some zt' \<Longrightarrow> zt_running zt' = zt_running zt \<and> zt_worker zt' = zt_worker zt \<and> zt_timer zt \<noteq> T_done"
  by (cases "zt_timer zt") (auto simp: timer_step_def Let_def split: if_splits)

lemma zworker_step_kept: "zworker_step zt = Some zt' \<Longrightarrow> zt_running zt' = zt_running zt \<and> zt_timer zt' = zt_timer zt \<and> zt_worker zt \<noteq> W_done"
  by (cases "zt_worker zt") (auto simp: zworker_step_def split: if_splits)

lemma dz_inv_step:
  assumes "zdestroy_step e z = Some z'" and "dz_inv z"
  shows "dz_inv z'"
proof (cases e)
  case (Tick tp)
  with assms show ?thesis using timer_step_kept [of tp "dz_timer z"] by (auto simp: dz_inv_def)
next
  case Work
  with assms show ?thesis using zworker_step_kept [of "dz_timer z"] by (auto simp: dz_inv_def)
next
  case Close_down
  with assms show ?thesis
    by (cases "dz_close z") (auto simp: dz_inv_def zclose_step_def timer_stop_request_def split: if_splits)
next
  case Detach
  then have "dz_timer z' = dz_timer z" "dz_close z' = dz_close z" "dz_late z' = dz_late z"
    "dz_started z' = Suc (dz_started z)" "dz_detached z' = insert (dz_started z) (dz_detached z)"
    using assms(1) by (auto simp: detach_step_def split: if_splits)
  with assms(2) show ?thesis unfolding dz_inv_def by (simp add: lessThan_Suc) blast
next
  case (Use i)
  then have "i \<in> dz_detached z" "z' = z\<lparr>dz_late := (if dz_close z = Z_freed then insert i (dz_late z) else dz_late z)\<rparr>"
    using assms(1) by (simp_all add: detached_step_def split: if_splits)
  with assms(2) show ?thesis unfolding dz_inv_def by (cases "dz_close z = Z_freed") auto
next
  case (Finished i)
  then have "z' = z\<lparr>dz_detached := dz_detached z - {i}\<rparr>"
    using assms(1) by (simp add: detached_step_def split: if_splits)
  with assms(2) show ?thesis unfolding dz_inv_def by simp blast
qed

lemma dz_inv_run: "zdestroy_run es z = Some z' \<Longrightarrow> dz_inv z \<Longrightarrow> dz_inv z'"
  by (induction es arbitrary: z) (auto intro: dz_inv_step split: option.splits)

lemma dz_inv_living: "dz_inv (living_zipper d)"
  by (simp add: dz_inv_def living_zipper_def started_timer_def)

lemma zdestroy_run_append:
  "zdestroy_run (es @ fs) z = (case zdestroy_run es z of None \<Rightarrow> None | Some z \<Rightarrow> zdestroy_run fs z)"
  by (induction es arbitrary: z) (simp_all split: option.splits)

section \<open>Properties\<close>



text \<open>
  Nobody waits for the detached threads. With an allocation being delivered when the destructor
  runs, the delivering thread uses the connection pool and the configuration of the Zipper after they
  are gone.
\<close>

theorem detached_use_after_free:
  "\<exists>es z. zdestroy_run es (living_zipper 1000) = Some z \<and> dz_close z = Z_freed \<and> dz_late z = {0}"
proof -
  let ?es = "[Tick 0, Tick 0, Tick 1000000, Work, Work, Work, Detach, Close_down, Work, Work, Tick 0, Close_down,
    Close_down, Close_down, Close_down, Use 0]"
  have "\<exists>z. zdestroy_run ?es (living_zipper 1000) = Some z \<and> dz_close z = Z_freed \<and> dz_late z = {0}"
    by (simp add: living_zipper_def started_timer_def timer_step_def zworker_step_def zdestroy_defs Let_def awake_def
        small_epoch)
  then show ?thesis by blast
qed

end
