(* ===== verification/Cluster.thy ===== *)
theory Cluster
  imports System
begin

text \<open>
  The components as one system: a proxy, \<open>n\<close> servers and \<open>m\<close> subscribers, their threads as the steps of one
  transition system over the byte streams that connect them. The steps are the operations of the
  components' theories; added here is only which of them run together and what they pass on.
  The specification at the end is a log that only grows; the properties of the system are in
  \<^theory_text>\<open>Cluster_Progress\<close>.
\<close>

section \<open>The state of the cluster\<close>

text \<open>
  The connection between the worker \<open>i\<close> of the proxy and the server \<open>i\<close>: the send in progress (how
  many bytes it takes), the bytes written so far, the bodies the server has handled and the
  answers it has written. All but the first are history.
\<close>

record link =
  lk_sending :: "int option"
  lk_wire :: "byte list"
  lk_handled :: "byte list list"
  lk_answers :: "byte list list"

text \<open>
  The connection between the worker \<open>j\<close> of a server and the subscriber \<open>j\<close>: the send in progress (its
  socket and the bytes it takes), the bytes written, the bodies the subscriber has handled and the
  answers it has written.
\<close>

record feed =
  fd_sending :: "(int \<times> int) option"
  fd_wire :: "byte list"
  fd_seen :: "byte list list"
  fd_answers :: "byte list list"

text \<open>
  Where the timer thread is in \<^verbatim>\<open>send_out_batch\<close>: it has drained the buffer, built the image, released
  the buffer, or waits in \<^verbatim>\<open>replicate_bytes\<close>, where it has read the counter of acknowledgements in
  this turn or not. The message is history.
\<close>

datatype batch_phase =
    Resting
  | Drained seq_num drain_result
  | Built drain_result "byte list" log_message
  | Released drain_result "byte list" log_message
  | Awaiting drain_result bool

text \<open>
  \<open>cl_due\<close>: the numbers of the epoch for which a batch is still to be sent. \<open>cl_batches\<close> and \<open>cl_answers\<close> are history: the messages handed to
  the replicator, and for each batch answered its place, the outcome and the responses to the clients.
\<close>

record cluster =
  cl_proxy :: proxy
  cl_due :: "seq_num list"
  cl_phase :: batch_phase
  cl_batches :: "log_message list"
  cl_answers :: "(nat \<times> bool \<times> (int \<times> byte list) list) list"
  cl_links :: "nat \<Rightarrow> link"
  cl_servers :: "nat \<Rightarrow> server"
  cl_feeds :: "nat \<Rightarrow> nat \<Rightarrow> feed"
  cl_subs :: "nat \<Rightarrow> subscriber"

definition start_cluster :: "proxy \<Rightarrow> (nat \<Rightarrow> server) \<Rightarrow> (nat \<Rightarrow> subscriber) \<Rightarrow> cluster" where
  "start_cluster px svs subs =
    \<lparr>cl_proxy = px, cl_due = [], cl_phase = Resting, cl_batches = [], cl_answers = [],
     cl_links = (\<lambda>_. \<lparr>lk_sending = None, lk_wire = [], lk_handled = [], lk_answers = []\<rparr>),
     cl_servers = svs, cl_feeds = (\<lambda>_ _. \<lparr>fd_sending = None, fd_wire = [], fd_seen = [], fd_answers = []\<rparr>), cl_subs = subs\<rparr>"

abbreviation cl_replicator :: "cluster \<Rightarrow> replicator" where
  "cl_replicator c \<equiv> px_replicator (cl_proxy c)"

section \<open>What happens in it\<close>

text \<open>A handler runs on a read buffer in which the frame of \<open>body\<close> is complete at \<open>p\<close>.\<close>

definition framed_at :: "byte list \<Rightarrow> nat \<Rightarrow> byte list \<Rightarrow> bool" where
  "framed_at mem p body \<longleftrightarrow> p + 2 + length body \<le> length mem \<and> chunk p (2 + length body) mem = frame body"

text \<open>The next frame among the bytes that were written to a connection.\<close>

definition next_body :: "byte list list \<Rightarrow> byte list \<Rightarrow> byte list \<Rightarrow> bool" where
  "next_body handled wire body \<longleftrightarrow> length body \<le> MAX_MESSAGE_SIZE \<and> prefix (framed (handled @ [body])) wire"

definition send_image :: "nat \<Rightarrow> int \<Rightarrow> cluster \<Rightarrow> cluster" where
  "send_image i accepted c =
    (let wire = fst (hd (w_queue (rp_workers (cl_replicator c) ! i))); lk = cl_links c i in
     c\<lparr>cl_links := (cl_links c)(i := lk\<lparr>lk_sending := Some accepted,
       lk_wire := lk_wire lk @ fst (send_bytes_raw accepted wire)\<rparr>)\<rparr>)"

definition finish_image :: "nat \<Rightarrow> bool \<Rightarrow> byte list \<Rightarrow> read_buffer \<Rightarrow> cluster \<Rightarrow> cluster" where
  "finish_image i ok out rb c =
    c\<lparr>cl_proxy := (cl_proxy c)\<lparr>px_replicator := serve i ok out rb (cl_replicator c)\<rparr>,
      cl_links := (cl_links c)(i := (cl_links c i)\<lparr>lk_sending := None\<rparr>)\<rparr>"

definition server_takes :: "nat \<Rightarrow> byte list \<Rightarrow> byte list list \<Rightarrow> server \<Rightarrow> cluster \<Rightarrow> cluster" where
  "server_takes i body out sv c =
    (let lk = cl_links c i in
     c\<lparr>cl_servers := (cl_servers c)(i := sv),
       cl_links := (cl_links c)(i := lk\<lparr>lk_handled := lk_handled lk @ [body], lk_answers := lk_answers lk @ out\<rparr>)\<rparr>)"

definition forward_image :: "nat \<Rightarrow> nat \<Rightarrow> int \<Rightarrow> int \<Rightarrow> byte list \<Rightarrow> cluster \<Rightarrow> cluster" where
  "forward_image i j sock accepted wire c =
    (let fd = cl_feeds c i j in
     c\<lparr>cl_feeds := (cl_feeds c)(i := (cl_feeds c i)(j := fd\<lparr>fd_sending := Some (sock, accepted),
       fd_wire := fd_wire fd @ fst (send_bytes_raw accepted wire)\<rparr>))\<rparr>)"

text \<open>The buffer of a round: emptied when the connection is a new one.\<close>

definition round_buffer :: "int \<Rightarrow> bworker \<Rightarrow> read_buffer" where
  "round_buffer sock w = (if sock \<noteq> bw_socket w then rb_reset (bw_rb w) else bw_rb w)"

definition finish_forward :: "nat \<Rightarrow> nat \<Rightarrow> bworker \<Rightarrow> cluster \<Rightarrow> cluster" where
  "finish_forward i j w c =
    c\<lparr>cl_servers := (cl_servers c)(i := (cl_servers c i)\<lparr>sv_workers := (sv_workers (cl_servers c i))(j \<mapsto> w)\<rparr>),
      cl_feeds := (cl_feeds c)(i := (cl_feeds c i)(j := (cl_feeds c i j)\<lparr>fd_sending := None\<rparr>))\<rparr>"

definition subscriber_takes :: "nat \<Rightarrow> nat \<Rightarrow> byte list \<Rightarrow> byte list list \<Rightarrow> subscriber \<Rightarrow> cluster \<Rightarrow> cluster" where
  "subscriber_takes i j body out s c =
    (let fd = cl_feeds c i j in
     c\<lparr>cl_subs := (cl_subs c)(j := s),
       cl_feeds := (cl_feeds c)(i := (cl_feeds c i)(j := fd\<lparr>fd_seen := fd_seen fd @ [body],
       fd_answers := fd_answers fd @ out\<rparr>))\<rparr>)"

definition answer_batch :: "bool \<Rightarrow> drain_result \<Rightarrow> cluster \<Rightarrow> cluster" where
  "answer_batch ok r c =
    c\<lparr>cl_phase := Resting,
      cl_answers := cl_answers c @ [(length (cl_batches c) - 1, ok, batch_responses ok r (cl_proxy c))]\<rparr>"

text \<open>
  The steps: the timer thread of the proxy (an epoch, the parts of a batch, the turns of the loop of
  \<^verbatim>\<open>replicate_bytes\<close>), its connection threads (a message of a client, the end of a
  connection), its workers (connect, take an item, send it, be answered), the connection threads
  of the servers, their workers (send, be answered, find no connection) and the connection
  threads of the subscribers. What arrives is always a beginning of what was written and not yet
  read; a connection that breaks delivers nothing more and is not opened again. An answer that
  cannot be sent is one whose bytes never arrive; what is taken for granted is that none follows on the
  same connection (\<^verbatim>\<open>subscriber.cpp\<close> then closes it, \<^verbatim>\<open>server.cpp\<close> does not look at the result). The
  Zipper and the destructors are not part of this system: \<open>Allocation_Delivery\<close>, \<open>Membership\<close>, \<open>Freeze_Protocol\<close> and the
  \<open>Shutdown\<close> theories compose those.
\<close>

inductive cluster_step :: "nat \<Rightarrow> nat \<Rightarrow> cluster \<Rightarrow> cluster \<Rightarrow> bool" for n m where
  cs_epoch: "cl_due c = [] \<Longrightarrow> cl_phase c = Resting \<Longrightarrow> epoch_turn ts e (cl_proxy c) = Some (Inr (sent, px)) \<Longrightarrow>
    cluster_step n m c (c\<lparr>cl_proxy := px, cl_due := sent\<rparr>)"
| cs_drain: "cl_due c = k # ks \<Longrightarrow> cl_phase c = Resting \<Longrightarrow> drain (px_buffer (cl_proxy c)) = (r, b) \<Longrightarrow>
    cluster_step n m c (c\<lparr>cl_proxy := (cl_proxy c)\<lparr>px_buffer := b\<rparr>, cl_due := ks, cl_phase := Drained k r\<rparr>)"
| cs_build: "cl_phase c = Drained k r \<Longrightarrow>
    cluster_step n m c (c\<lparr>cl_phase := Built r (batch_image (cl_proxy c) k r (px_buffer (cl_proxy c)))
      (next_batch (cl_proxy c) k r (px_buffer (cl_proxy c)))\<rparr>)"
| cs_release: "cl_phase c = Built r wire e \<Longrightarrow>
    cluster_step n m c (c\<lparr>cl_proxy := (cl_proxy c)\<lparr>px_buffer := release (sent_length r) (px_buffer (cl_proxy c))\<rparr>,
      cl_phase := Released r wire e\<rparr>)"
| cs_submit: "cl_phase c = Released r wire e \<Longrightarrow>
    cluster_step n m c (c\<lparr>cl_proxy := (cl_proxy c)\<lparr>px_replicator := enqueue_all wire (cl_replicator c)\<rparr>,
      cl_batches := cl_batches c @ [e], cl_phase := Awaiting r False\<rparr>)"
| cs_enough: "cl_phase c = Awaiting r False \<Longrightarrow> enough (length (cl_batches c) - 1) (cl_replicator c) \<Longrightarrow>
    cluster_step n m c (answer_batch True r c)"
| cs_short: "cl_phase c = Awaiting r False \<Longrightarrow> \<not> enough (length (cl_batches c) - 1) (cl_replicator c) \<Longrightarrow>
    cluster_step n m c (c\<lparr>cl_phase := Awaiting r True\<rparr>)"
| cs_gone: "cl_phase c = Awaiting r True \<Longrightarrow> none_left (cl_replicator c) \<Longrightarrow>
    cluster_step n m c (answer_batch False r c)"
| cs_again: "cl_phase c = Awaiting r True \<Longrightarrow> \<not> none_left (cl_replicator c) \<Longrightarrow>
    cluster_step n m c (c\<lparr>cl_phase := Awaiting r False\<rparr>)"
| cs_client: "proxy_handle client z u (cl_proxy c) mem base msg_len = Inr (out, px, go) \<Longrightarrow>
    cluster_step n m c (c\<lparr>cl_proxy := px\<rparr>)"
| cs_leave: "cluster_step n m c (c\<lparr>cl_proxy := close_client client (cl_proxy c)\<rparr>)"
| cs_connect: "i < n \<Longrightarrow> w = rp_workers (cl_replicator c) ! i \<Longrightarrow> \<not> w_connected w \<Longrightarrow> \<not> w_exited w \<Longrightarrow>
    \<not> w_shutdown w \<Longrightarrow>
    cluster_step n m c (c\<lparr>cl_proxy := (cl_proxy c)\<lparr>px_replicator := connect_worker i (cl_replicator c)\<rparr>\<rparr>)"
| cs_take: "i < n \<Longrightarrow> w = rp_workers (cl_replicator c) ! i \<Longrightarrow> w_connected w \<Longrightarrow> \<not> w_exited w \<Longrightarrow>
    \<not> w_shutdown w \<Longrightarrow> \<not> w_busy w \<Longrightarrow> w_queue w \<noteq> [] \<Longrightarrow>
    cluster_step n m c (c\<lparr>cl_proxy := (cl_proxy c)\<lparr>px_replicator := take_item i (cl_replicator c)\<rparr>\<rparr>)"
| cs_send: "i < n \<Longrightarrow> w = rp_workers (cl_replicator c) ! i \<Longrightarrow> w_busy w \<Longrightarrow> \<not> w_exited w \<Longrightarrow> w_queue w \<noteq> [] \<Longrightarrow>
    lk_sending (cl_links c i) = None \<Longrightarrow> cluster_step n m c (send_image i accepted c)"
| cs_answered: "i < n \<Longrightarrow> w = rp_workers (cl_replicator c) ! i \<Longrightarrow> lk_sending (cl_links c i) = Some accepted \<Longrightarrow>
    prefix (stream (w_rb w) evs) (concat (drop (w_acked w) (lk_answers (cl_links c i)))) \<Longrightarrow>
    exchange accepted (fst (hd (w_queue w))) (w_rb w) evs = Some (Inr (ok, out, rb)) \<Longrightarrow>
    cluster_step n m c (finish_image i ok out rb c)"
| cs_store: "i < n \<Longrightarrow> next_body (lk_handled (cl_links c i)) (lk_wire (cl_links c i)) body \<Longrightarrow> framed_at mem p body \<Longrightarrow>
    server_handle (cl_servers c i) mem (p + 2) (length body) = Inr (out, sv, True) \<Longrightarrow>
    cluster_step n m c (server_takes i body out sv c)"
| cs_forward: "i < n \<Longrightarrow> j < m \<Longrightarrow> sv_workers (cl_servers c i) j = Some w \<Longrightarrow> \<not> bw_shutdown w \<Longrightarrow>
    bw_queue w = wire # q \<Longrightarrow> fd_sending (cl_feeds c i j) = None \<Longrightarrow> 0 \<le> sock \<Longrightarrow> bw_socket w \<in> {- 1, sock} \<Longrightarrow>
    cluster_step n m c (forward_image i j sock accepted wire c)"
| cs_forwarded: "i < n \<Longrightarrow> j < m \<Longrightarrow> sv_workers (cl_servers c i) j = Some w \<Longrightarrow>
    fd_sending (cl_feeds c i j) = Some (sock, accepted) \<Longrightarrow>
    prefix (stream (round_buffer sock w) evs) (concat (drop (length (bw_sent w)) (fd_answers (cl_feeds c i j)))) \<Longrightarrow>
    worker_round sock accepted evs w = Some w' \<Longrightarrow>
    cluster_step n m c (finish_forward i j w' c)"
| cs_unreachable: "i < n \<Longrightarrow> j < m \<Longrightarrow> sv_workers (cl_servers c i) j = Some w \<Longrightarrow>
    fd_sending (cl_feeds c i j) = None \<Longrightarrow> sock < 0 \<Longrightarrow> worker_round sock accepted evs w = Some w' \<Longrightarrow>
    cluster_step n m c (finish_forward i j w' c)"
| cs_observe: "i < n \<Longrightarrow> j < m \<Longrightarrow> next_body (fd_seen (cl_feeds c i j)) (fd_wire (cl_feeds c i j)) body \<Longrightarrow> framed_at mem p body \<Longrightarrow>
    subscriber_handle (cl_subs c j) mem (p + 2) (length body) = Inr (out, s, True) \<Longrightarrow>
    cluster_step n m c (subscriber_takes i j body out s c)"

text \<open>
  The start: a proxy with its timer running, \<open>n\<close> servers numbered from 0, \<open>m\<close> subscribers, all built
  with the same \<open>f\<close>; the clocks of the subscribers show times before the year 2262.
\<close>

inductive cluster_reachable :: "nat \<Rightarrow> nat \<Rightarrow> nat \<Rightarrow> cluster \<Rightarrow> bool" for n m f where
  cr_start: "construct_known (new_proxy sh i addr history duration n f junk) = Inr px \<Longrightarrow> length junk = CAPACITY \<Longrightarrow>
    \<forall>k < n. new_server sh (of_nat k) duration proxies m junk = Inr (svs k) \<Longrightarrow>
    \<forall>j < m. \<exists>clock. subs j = new_subscriber sh (of_nat j) f clock \<and> (\<forall>t \<in> set clock. unat t < 2 ^ 63) \<Longrightarrow>
    cluster_reachable n m f (start_cluster px svs subs)"
| cr_step: "cluster_reachable n m f c \<Longrightarrow> cluster_step n m c c' \<Longrightarrow> cluster_reachable n m f c'"

section \<open>The abstract log\<close>

text \<open>
  The contract: one log that only grows; each server holds a beginning of it, \<open>rl_copies\<close> entries; each
  subscriber shows a beginning of it, \<open>rl_views\<close> entries, none of which less than \<open>q\<close> servers
  hold; and an entry is answered with success only when \<open>q\<close> servers hold it.
\<close>

record replicated_log =
  rl_log :: "command list"
  rl_copies :: "nat \<Rightarrow> nat"
  rl_views :: "nat \<Rightarrow> nat"
  rl_answers :: "(nat \<times> bool) list"

definition holders :: "nat \<Rightarrow> nat \<Rightarrow> replicated_log \<Rightarrow> nat set" where
  "holders n k rl = {i. i < n \<and> k < rl_copies rl i}"

inductive log_step :: "nat \<Rightarrow> nat \<Rightarrow> nat \<Rightarrow> replicated_log \<Rightarrow> replicated_log \<Rightarrow> bool" for n m q where
  ls_stutter: "log_step n m q rl rl"
| ls_append: "log_step n m q rl (rl\<lparr>rl_log := rl_log rl @ [d]\<rparr>)"
| ls_copy: "i < n \<Longrightarrow> rl_copies rl i < length (rl_log rl) \<Longrightarrow>
    log_step n m q rl (rl\<lparr>rl_copies := (rl_copies rl)(i := rl_copies rl i + 1)\<rparr>)"
| ls_learn: "j < m \<Longrightarrow> rl_views rl j \<le> v \<Longrightarrow> v \<le> length (rl_log rl) \<Longrightarrow> \<forall>k < v. q \<le> card (holders n k rl) \<Longrightarrow>
    log_step n m q rl (rl\<lparr>rl_views := (rl_views rl)(j := v)\<rparr>)"
| ls_answer: "k < length (rl_log rl) \<Longrightarrow> ok \<longrightarrow> q \<le> card (holders n k rl) \<Longrightarrow>
    log_step n m q rl (rl\<lparr>rl_answers := rl_answers rl @ [(k, ok)]\<rparr>)"

definition shown :: "nat \<Rightarrow> cluster \<Rightarrow> nat" where
  "shown j c = log_size (sub_log (cl_subs c j)) - 1"

definition abstract_log :: "cluster \<Rightarrow> replicated_log" where
  "abstract_log c =
    \<lparr>rl_log = map (\<lambda>e. payload (log_data e)) (cl_batches c),
     rl_copies = (\<lambda>i. length (lk_handled (cl_links c i))),
     rl_views = (\<lambda>j. shown j c),
     rl_answers = map (\<lambda>(k, ok, resp). (k, ok)) (cl_answers c)\<rparr>"

end
