(* ===== verification/Cluster_Invariant.thy ===== *)
theory Cluster_Invariant
  imports Cluster
begin

text \<open>
  The invariant of the cluster: what is on the wire of each connection and in each queue, in terms
  of the batches the proxy has submitted. Each part has one lemma per step that touches it.
\<close>

section \<open>The invariant of a link\<close>

definition in_flight :: "int option \<Rightarrow> byte list list \<Rightarrow> byte list" where
  "in_flight sending queue = (case sending of None \<Rightarrow> [] | Some a \<Rightarrow> fst (send_bytes_raw a (hd queue)))"

lemma in_flight_None [simp]: "in_flight None queue = []"
  by (simp add: in_flight_def)

lemma in_flight_snoc: "queue \<noteq> [] \<Longrightarrow> in_flight s (queue @ qs) = in_flight s queue"
  by (cases s) (simp_all add: in_flight_def)

lemma in_flight_prefix: "queue \<noteq> [] \<Longrightarrow> prefix (in_flight s queue) (concat queue)"
  by (cases s; cases queue) (auto simp: in_flight_def send_bytes_raw_def take_is_prefix prefix_prefix)

lemma in_flight_sent: "send_bytes_raw a (hd queue) = (out, True) \<Longrightarrow> in_flight (Some a) queue = hd queue"
  by (auto simp: in_flight_def send_bytes_raw_def)

text \<open>The proxy's side: what is on the wire are the images acknowledged and a part of the next one.\<close>

definition link_sent :: "log_message list \<Rightarrow> worker \<Rightarrow> link \<Rightarrow> bool" where
  "link_sent ms w lk \<longleftrightarrow> prefix (lk_wire lk) (framed (map log_body ms)) \<and>
    (\<not> w_exited w \<longrightarrow> lk_wire lk = w_out w @ in_flight (lk_sending lk) (map fst (w_queue w))) \<and>
    (lk_sending lk \<noteq> None \<longrightarrow> w_busy w \<and> \<not> w_exited w \<and> w_queue w \<noteq> [])"

text \<open>The server's side: it has handled the first images, and answered each.\<close>

definition link_handled :: "log_message list \<Rightarrow> link \<Rightarrow> server \<Rightarrow> bool" where
  "link_handled ms lk sv \<longleftrightarrow> length (lk_handled lk) \<le> length ms \<and>
    lk_handled lk = map log_body (take (length (lk_handled lk)) ms) \<and>
    prefix (framed (lk_handled lk)) (lk_wire lk) \<and>
    lk_answers lk = map (server_ack sv \<circ> number) (take (length (lk_handled lk)) ms)"

text \<open>The answers on their way back: one for each image the worker counts as acknowledged is gone.\<close>

definition link_back :: "worker \<Rightarrow> link \<Rightarrow> bool" where
  "link_back w lk \<longleftrightarrow> w_acked w \<le> length (lk_handled lk) \<and>
    (\<not> w_exited w \<longrightarrow> rb_inv (w_rb w) \<and> prefix (pending (w_rb w)) (concat (drop (w_acked w) (lk_answers lk))))"

lemma server_ack_frame: "server_ack sv k = frame (plain (code ACK) (sv_shard sv) (sv_id sv) k [])"
  by (simp add: server_ack_def build_wire_plain_null)

text \<open>A worker and the queue it serves, from the invariant of the replicator.\<close>

lemma worker_queue:
  assumes "worker_inv (map (frame \<circ> log_body) ms) w" and "\<not> w_exited w"
  shows "map fst (w_queue w) = drop (w_acked w) (map (frame \<circ> log_body) ms)"
    and "w_out w = framed (map log_body (take (w_acked w) ms))" and "w_acked w \<le> length ms"
  using assms by (auto simp: worker_inv_def tagged_def framed_def take_map map_fst_zip simp flip: drop_map)

lemma link_send:
  assumes "link_sent ms w lk" and "worker_inv (map (frame \<circ> log_body) ms) w"
    and "w_busy w" and "\<not> w_exited w" and "w_queue w \<noteq> []" and "lk_sending lk = None"
  shows "link_sent ms w (lk\<lparr>lk_sending := Some a, lk_wire := lk_wire lk @ fst (send_bytes_raw a (fst (hd (w_queue w))))\<rparr>)"
proof -
  let ?q = "map fst (w_queue w)"
  have "?q \<noteq> []" "hd ?q = fst (hd (w_queue w))"
    using assms(5) by (simp_all add: hd_map)
  then have part: "in_flight (Some a) ?q = fst (send_bytes_raw a (fst (hd (w_queue w))))"
    "prefix (in_flight (Some a) ?q) (concat ?q)"
    using in_flight_prefix by (simp add: in_flight_def, blast)
  have wire: "lk_wire lk = w_out w"
    using assms(1,4,6) by (simp add: link_sent_def)
  have "framed (map log_body ms) = w_out w @ concat ?q"
    unfolding worker_queue(1,2) [OF assms(2,4)]
    by (simp add: framed_def drop_map take_map flip: concat_append map_append)
  with part wire assms(3-6) show ?thesis
    by (simp add: link_sent_def)
qed

lemma link_sent_grows: "link_sent ms w lk \<Longrightarrow> link_sent (ms @ [e]) w lk"
  by (auto simp: link_sent_def intro: prefix_order.trans)

lemma link_sent_enqueue:
  "link_sent ms w lk \<Longrightarrow> link_sent (ms @ [e]) (w\<lparr>w_queue := w_queue w @ [(wire, k)]\<rparr>) lk"
  by (cases "lk_sending lk") (auto simp: link_sent_def in_flight_snoc intro: prefix_order.trans)

lemma link_handled_grows: "link_handled ms lk sv \<Longrightarrow> link_handled (ms @ [e]) lk sv"
  by (simp add: link_handled_def)

lemma exchange_True:
  assumes "exchange a wire rb evs = Some (Inr (True, out, rb'))"
  obtains m evs' where "send_bytes_raw a wire = (out, True)"
    "recv_message_buffered rb evs = Some (Inr (Some m, rb', evs'))"
  using assms by (auto simp: exchange_def map_res_def bind_res_eq_Inr split: prod.splits if_splits)

lemma exchange_False_out: "exchange a wire rb evs = Some (Inr (ok, out, rb')) \<Longrightarrow> out = fst (send_bytes_raw a wire)"
  by (auto simp: exchange_def map_res_def bind_res_eq_Inr split: prod.splits if_splits)

text \<open>An answer that arrives was written by the server, for the image it answers.\<close>

lemma link_answer_arrives:
  assumes "link_handled ms lk sv" and "link_back w lk" and "\<not> w_exited w"
    and "prefix (stream (w_rb w) evs) (concat (drop (w_acked w) (lk_answers lk)))"
    and "recv_message_buffered (w_rb w) evs = Some (Inr (Some m, rb', evs'))"
  shows "w_acked w < length (lk_handled lk)" and "rb_inv rb'"
    and "prefix (pending rb') (concat (drop (Suc (w_acked w)) (lk_answers lk)))"
proof -
  let ?k = "w_acked w" and ?h = "length (lk_handled lk)"
  have "rb_inv (w_rb w)"
    using assms(2,3) by (simp add: link_back_def)
  then obtain body where body: "stream (w_rb w) evs = frame body @ stream rb' evs'" "rb_inv rb'"
    "length body \<le> MAX_MESSAGE_SIZE"
    using recv_message_buffered_raw [OF assms(5)] recv_raw_buffered_Some by metis
  have len: "length (lk_answers lk) = ?h"
    using assms(1) by (simp add: link_handled_def)
  show k: "?k < ?h"
  proof (rule ccontr)
    assume "\<not> ?k < ?h"
    then have "concat (drop ?k (lk_answers lk)) = []" using len by simp
    with assms(4) body(1) show False by simp
  qed
  then have "?k < length ms" "lk_answers lk ! ?k = server_ack sv (number (ms ! ?k))"
    using assms(1) by (auto simp: link_handled_def)
  then have "drop ?k (lk_answers lk) = frame (plain (code ACK) (sv_shard sv) (sv_id sv) (number (ms ! ?k)) [])
      # drop (Suc ?k) (lk_answers lk)"
    using k len Cons_nth_drop_Suc [of ?k "lk_answers lk"] by (simp add: server_ack_frame)
  then have "prefix (stream rb' evs') (concat (drop (Suc ?k) (lk_answers lk)))"
    using assms(4) body(1,3) frame_prefix [of body "stream rb' evs'"] by (simp add: MAX_MESSAGE_SIZE_def)
  moreover have "prefix (pending rb') (stream rb' evs')"
    by (simp add: stream_def)
  ultimately show "prefix (pending rb') (concat (drop (Suc ?k) (lk_answers lk)))"
    using prefix_order.trans by blast
  show "rb_inv rb'" using body(2) .
qed

lemma link_answered:
  assumes "link_sent ms w lk" "link_handled ms lk sv" "link_back w lk" and "lk_sending lk = Some a"
    and "prefix (stream (w_rb w) evs) (concat (drop (w_acked w) (lk_answers lk)))"
    and "exchange a (fst (hd (w_queue w))) (w_rb w) evs = Some (Inr (ok, out, rb'))"
  shows "link_sent ms (finish_item ok out rb' w) (lk\<lparr>lk_sending := None\<rparr>)"
    "link_handled ms (lk\<lparr>lk_sending := None\<rparr>) sv" "link_back (finish_item ok out rb' w) (lk\<lparr>lk_sending := None\<rparr>)"
proof -
  have run: "\<not> w_exited w" "w_queue w \<noteq> []"
    using assms(1,4) by (auto simp: link_sent_def)
  have "in_flight (Some a) (map fst (w_queue w)) = out"
    using exchange_False_out [OF assms(6)] run(2) by (simp add: in_flight_def hd_map)
  then show "link_sent ms (finish_item ok out rb' w) (lk\<lparr>lk_sending := None\<rparr>)"
    using assms(1,4) run by (auto simp: link_sent_def finish_item_def Let_def)
  show "link_handled ms (lk\<lparr>lk_sending := None\<rparr>) sv"
    using assms(2) by (simp add: link_handled_def)
  show "link_back (finish_item ok out rb' w) (lk\<lparr>lk_sending := None\<rparr>)"
  proof (cases ok)
    case True
    then obtain m evs' where "recv_message_buffered (w_rb w) evs = Some (Inr (Some m, rb', evs'))"
      using assms(6) exchange_True by metis
    with link_answer_arrives [OF assms(2,3) run(1) assms(5)] True run(1) show ?thesis
      by (simp add: link_back_def finish_item_def)
  next
    case False
    with assms(3) show ?thesis by (simp add: link_back_def finish_item_def)
  qed
qed

text \<open>The server's turn: the next body on the wire is the next batch.\<close>

definition sized :: "log_message \<Rightarrow> bool" where
  "sized e \<longleftrightarrow> 28 + length (snd (snd (snd (snd e)))) \<le> safe_body"

lemma sized_body: "sized e \<Longrightarrow> length (log_body e) \<le> MAX_MESSAGE_SIZE"
  by (cases e rule: prod_cases5) (simp add: sized_def safe_body_def CAPACITY_def MAX_MESSAGE_SIZE_def)

lemma next_body_is:
  assumes "next_body hs wire body" and "prefix wire (framed (map f es))" and "hs = map f (take (length hs) es)"
    and "\<forall>e \<in> set es. length (f e) \<le> MAX_MESSAGE_SIZE"
  shows "length hs < length es \<and> body = f (es ! length hs)"
proof -
  have "prefix (framed (hs @ [body])) (framed (map f es))"
    using assms(1,2) prefix_order.trans unfolding next_body_def by blast
  moreover have "\<forall>b \<in> set (hs @ [body]) \<union> set (map f es). length b \<le> MAX_MESSAGE_SIZE"
  proof -
    have "set hs \<subseteq> f ` set es"
      by (subst assms(3)) (auto dest: in_set_takeD)
    with assms(1,4) show ?thesis by (auto simp: next_body_def)
  qed
  ultimately have "length (hs @ [body]) \<le> length (map f es)" "hs @ [body] = take (length (hs @ [body])) (map f es)"
    using framed_prefix_take by blast+
  then have le: "length hs < length es" and eq: "hs @ [body] = take (Suc (length hs)) (map f es)"
    by simp_all
  have "body = (hs @ [body]) ! length hs" by simp
  also have "\<dots> = take (Suc (length hs)) (map f es) ! length hs" by (simp only: eq)
  also have "\<dots> = f (es ! length hs)" using le by simp
  finally show ?thesis using le by simp
qed

lemma link_store:
  assumes "link_handled ms lk sv" and "prefix (lk_wire lk) (framed (map log_body ms))" and "\<forall>e \<in> set ms. sized e"
    and "next_body (lk_handled lk) (lk_wire lk) body"
  shows "length (lk_handled lk) < length ms" and "body = log_body (ms ! length (lk_handled lk))"
    and "server_ack sv' = server_ack sv \<Longrightarrow> link_handled ms (lk\<lparr>lk_handled := lk_handled lk @ [body],
      lk_answers := lk_answers lk @ [server_ack sv (number (ms ! length (lk_handled lk)))]\<rparr>) sv'"
proof -
  let ?h = "length (lk_handled lk)"
  have hs: "lk_handled lk = map log_body (take ?h ms)"
    using assms(1) by (simp add: link_handled_def)
  have *: "?h < length ms \<and> body = log_body (ms ! ?h)"
    using next_body_is [OF assms(4,2) hs] assms(3) sized_body by blast
  then show "?h < length ms" "body = log_body (ms ! ?h)" by simp_all
  show "link_handled ms (lk\<lparr>lk_handled := lk_handled lk @ [body],
      lk_answers := lk_answers lk @ [server_ack sv (number (ms ! length (lk_handled lk)))]\<rparr>) sv'"
    if "server_ack sv' = server_ack sv"
  proof -
    have "lk_handled lk @ [body] = map log_body (take (Suc ?h) ms)"
      using * hs by (simp add: take_Suc_conv_app_nth)
    moreover have "prefix (framed (lk_handled lk @ [body])) (lk_wire lk)"
      using assms(4) by (simp only: next_body_def)
    ultimately show ?thesis
      using * assms(1) that by (simp add: link_handled_def take_Suc_conv_app_nth)
  qed
qed

lemma link_back_grows: "link_back w lk \<Longrightarrow> link_back w (lk\<lparr>lk_handled := lk_handled lk @ [b], lk_answers := lk_answers lk @ [a]\<rparr>)"
  by (auto simp: link_back_def intro: prefix_order.trans)

section \<open>The invariant of a server\<close>

definition typed :: "log_message \<Rightarrow> bool" where
  "typed e \<longleftrightarrow> fst e \<in> {APPEND, SKIP}"

definition server_inv :: "log_message list \<Rightarrow> nat \<Rightarrow> nat \<Rightarrow> server \<Rightarrow> bool" where
  "server_inv ms h i sv \<longleftrightarrow> server_ok sv \<and> (\<forall>p. \<not> is_blocked p (sv_liveness sv)) \<and> sv_id sv = of_nat i \<and>
    (\<forall>p. stored p (sv_store sv) = map (frame \<circ> log_body) (filter (\<lambda>e. sender e = p) (take h ms)))"

definition forwarded :: "server \<Rightarrow> log_message \<Rightarrow> byte list" where
  "forwarded sv e = frame (log_body (resend (sv_id sv) e))"

lemma entry_ok_sized: "sized e \<Longrightarrow> typed e \<Longrightarrow> entry_ok e"
  by (cases e rule: prod_cases5) (simp add: sized_def typed_def entry_ok.simps)

lemma server_inv_grows: "server_inv ms h i sv \<Longrightarrow> h \<le> length ms \<Longrightarrow> server_inv (ms @ [e]) h i sv"
  by (simp add: server_inv_def)

lemma server_takes_entry:
  assumes "server_inv ms h i sv" and "h < length ms" and "sized (ms ! h)" and "typed (ms ! h)"
    and "framed_at mem p (log_body (ms ! h))"
    and "server_handle sv mem (p + 2) (length (log_body (ms ! h))) = Inr (out, sv', True)"
  shows "out = [server_ack sv (number (ms ! h))]" and "server_inv ms (Suc h) i sv'"
    and "server_ack sv' = server_ack sv"
    and "sv_workers sv' j = map_option (\<lambda>w. w\<lparr>bw_queue := bw_queue w @ [forwarded sv (ms ! h)]\<rparr>) (sv_workers sv j)"
proof -
  obtain t sh sd k d where e: "ms ! h = (t, sh, sd, k, d)" by (rule prod_cases5)
  have ok: "entry_ok (t, sh, sd, k, d)"
    using entry_ok_sized [OF assms(3,4)] by (simp add: e)
  have inv: "server_ok sv" "\<not> is_blocked sd (sv_liveness sv)"
    using assms(1) by (simp_all add: server_inv_def)
  obtain lv where lv: "remove_timeout sd k (sv_liveness sv) = Inr lv" "even_timeouts lv"
    "reconfiguring lv = reconfiguring (sv_liveness sv)"
    using remove_timeout_even inv(1) by (metis server_ok_def)
  have "(out, sv') = server_entry (t, sh, sd, k, d) sv"
    using server_handle_body [OF _ _ ok inv(1), of p mem] assms(5,6)
    by (simp add: framed_at_def e split: prod.splits)
  then have step: "out = [server_ack sv (number (ms ! h))]"
    "sv' = accept_entry sd (frame (log_body (ms ! h))) (forwarded sv (ms ! h)) lv sv"
    using inv(2) lv(1) by (simp_all add: server_entry.simps e number_def forwarded_def)
  then show "out = [server_ack sv (number (ms ! h))]" by simp
  show "server_ack sv' = server_ack sv"
    by (simp add: step(2) accept_entry_def server_ack_def fun_eq_iff)
  show "sv_workers sv' j = map_option (\<lambda>w. w\<lparr>bw_queue := bw_queue w @ [forwarded sv (ms ! h)]\<rparr>) (sv_workers sv j)"
    by (simp add: step(2) accept_entry_def broadcast_queue)
  show "server_inv ms (Suc h) i sv'"
    using assms(1,2) lv(2,3) by (simp add: server_inv_def step(2) accept_entry_def server_ok_def is_blocked_def
        take_Suc_conv_app_nth e sender_def)
qed

section \<open>The invariant of a feed\<close>

definition feed_inv :: "log_message list \<Rightarrow> nat \<Rightarrow> node_id \<Rightarrow> bworker \<Rightarrow> feed \<Rightarrow> bool" where
  "feed_inv ms h i w fd \<longleftrightarrow> length (fd_seen fd) \<le> h \<and>
    fd_seen fd = map (log_body \<circ> resend i) (take (length (fd_seen fd)) ms) \<and>
    prefix (framed (fd_seen fd)) (fd_wire fd) \<and>
    prefix (fd_wire fd) (framed (map (log_body \<circ> resend i) (take h ms))) \<and>
    (\<not> bw_shutdown w \<longrightarrow>
      map (frame \<circ> log_body \<circ> resend i) (take h ms) = bw_sent w @ bw_queue w \<and>
      fd_wire fd = concat (bw_sent w) @ in_flight (map_option snd (fd_sending fd)) (bw_queue w)) \<and>
    (fd_sending fd \<noteq> None \<longrightarrow> \<not> bw_shutdown w \<and> bw_queue w \<noteq> [])"

lemma feed_inv_grows: "feed_inv ms h i w fd \<Longrightarrow> h \<le> length ms \<Longrightarrow> feed_inv (ms @ [e]) h i w fd"
  by (simp add: feed_inv_def)

lemma feed_inv_take:
  assumes "feed_inv ms h i w fd" and "h < length ms"
  shows "feed_inv ms (Suc h) i (w\<lparr>bw_queue := bw_queue w @ [frame (log_body (resend i (ms ! h)))]\<rparr>) fd"
  using assms by (cases "fd_sending fd")
    (auto simp: feed_inv_def take_Suc_conv_app_nth in_flight_snoc intro: prefix_order.trans)

lemma framed_concat: "framed (map f xs) = concat (map (frame \<circ> f) xs)"
  by (simp add: framed_def)

lemma feed_forward:
  assumes "feed_inv ms h i w fd" and "\<not> bw_shutdown w" and "bw_queue w = wire # q" and "fd_sending fd = None"
  shows "feed_inv ms h i w (fd\<lparr>fd_sending := Some (sock, a), fd_wire := fd_wire fd @ fst (send_bytes_raw a wire)\<rparr>)"
proof -
  have wire: "fd_wire fd = concat (bw_sent w)"
    using assms(1,2,4) by (simp add: feed_inv_def)
  have part: "in_flight (Some a) (bw_queue w) = fst (send_bytes_raw a wire)"
    by (simp add: in_flight_def assms(3))
  have "framed (map (log_body \<circ> resend i) (take h ms)) = concat (bw_sent w) @ concat (bw_queue w)"
    using assms(1,2) by (simp add: feed_inv_def framed_concat comp_assoc)
  with wire part in_flight_prefix [of "bw_queue w" "Some a"] assms show ?thesis
    by (simp add: feed_inv_def)
qed

lemma feed_forwarded:
  assumes "feed_inv ms h i w fd" and "fd_sending fd = Some (sock, a)" and "worker_round sock a evs w = Some w'"
  shows "feed_inv ms h i w' (fd\<lparr>fd_sending := None\<rparr>)"
proof -
  have run: "\<not> bw_shutdown w" "bw_queue w \<noteq> []"
    using assms(1,2) by (auto simp: feed_inv_def)
  then obtain wire q where q: "bw_queue w = wire # q" by (cases "bw_queue w") auto
  consider "bw_shutdown w'" | "send_bytes_raw a wire = (wire, True)" "\<not> bw_shutdown w'" "bw_queue w' = q"
    "bw_sent w' = bw_sent w @ [wire]"
    using assms(3) run(1) q
    by (auto simp: worker_round_def queue_pop_def send_bytes_raw_def Let_def split: if_splits option.splits)
  then show ?thesis
  proof cases
    case 1
    with assms(1) show ?thesis by (simp add: feed_inv_def)
  next
    case 2
    with in_flight_sent [of a "bw_queue w"] q assms(1,2) run show ?thesis
      by (auto simp: feed_inv_def)
  qed
qed

lemma unreachable_stops: "sock < 0 \<Longrightarrow> worker_round sock a evs w = Some w' \<Longrightarrow> bw_shutdown w'"
  by (auto simp: worker_round_def Let_def split: if_splits option.splits)

lemma feed_unreachable:
  assumes "feed_inv ms h i w fd" and "sock < 0" and "worker_round sock a evs w = Some w'"
  shows "feed_inv ms h i w' (fd\<lparr>fd_sending := None\<rparr>)"
proof -
  have "bw_shutdown w'"
    using assms(2,3) by (rule unreachable_stops)
  with assms(1) show ?thesis by (simp add: feed_inv_def)
qed

lemma resend_size: "length (log_body (resend i e)) = length (log_body e)"
  by (cases e rule: prod_cases5) (simp add: resend.simps)

lemma feed_observe:
  assumes "feed_inv ms h i w fd" and "h \<le> length ms" and "\<forall>e \<in> set ms. sized e"
    and "next_body (fd_seen fd) (fd_wire fd) body"
  shows "length (fd_seen fd) < h" and "body = log_body (resend i (ms ! length (fd_seen fd)))"
    and "feed_inv ms h i w (fd\<lparr>fd_seen := fd_seen fd @ [body], fd_answers := as\<rparr>)"
proof -
  let ?k = "length (fd_seen fd)" and ?f = "log_body \<circ> resend i"
  have seen: "fd_seen fd = map ?f (take ?k (take h ms))"
    using assms(1) by (simp add: feed_inv_def min_def)
  have pre: "prefix (fd_wire fd) (framed (map ?f (take h ms)))"
    using assms(1) by (simp add: feed_inv_def)
  have "length (?f e) \<le> MAX_MESSAGE_SIZE" if "e \<in> set (take h ms)" for e
    using assms(3) in_set_takeD [OF that] sized_body [of e] by (simp add: resend_size)
  then have "\<forall>e \<in> set (take h ms). length (?f e) \<le> MAX_MESSAGE_SIZE" by blast
  from next_body_is [OF assms(4) pre seen this] have *: "?k < h" "body = ?f (ms ! ?k)"
    using assms(2) by auto
  then show "?k < h" "body = log_body (resend i (ms ! ?k))" by simp_all
  have "fd_seen fd @ [body] = map ?f (take (Suc ?k) ms)"
    using * seen assms(2) by (simp add: take_Suc_conv_app_nth min_def)
  moreover have "prefix (framed (fd_seen fd @ [body])) (fd_wire fd)"
    using assms(4) by (simp only: next_body_def)
  ultimately show "feed_inv ms h i w (fd\<lparr>fd_seen := fd_seen fd @ [body], fd_answers := as\<rparr>)"
    using assms(1,2) * by (simp add: feed_inv_def min_def)
qed

text \<open>The answers of the subscriber on their way back; one for each image sent is gone.\<close>

definition feed_back :: "log_message list \<Rightarrow> bworker \<Rightarrow> feed \<Rightarrow> (seq_num \<Rightarrow> byte list) \<Rightarrow> bool" where
  "feed_back ms w fd ack \<longleftrightarrow> fd_answers fd = map (ack \<circ> number) (take (length (fd_seen fd)) ms) \<and>
    (\<forall>sock a. fd_sending fd = Some (sock, a) \<longrightarrow> 0 \<le> sock) \<and>
    (\<not> bw_shutdown w \<longrightarrow> length (bw_sent w) \<le> length (fd_seen fd) \<and> rb_inv (bw_rb w) \<and>
      (bw_socket w = - 1 \<or> 0 \<le> bw_socket w) \<and>
      prefix (pending (bw_rb w)) (concat (drop (length (bw_sent w)) (fd_answers fd))))"

lemma feed_back_grows: "feed_back ms w fd ack \<Longrightarrow> length (fd_seen fd) \<le> length ms \<Longrightarrow> feed_back (ms @ [e]) w fd ack"
  by (auto simp: feed_back_def)

lemma feed_back_take: "feed_back ms w fd ack \<Longrightarrow> feed_back ms (w\<lparr>bw_queue := q\<rparr>) fd ack"
  by (auto simp: feed_back_def)

lemma feed_back_forward:
  "feed_back ms w fd ack \<Longrightarrow> 0 \<le> sock \<Longrightarrow> feed_back ms w (fd\<lparr>fd_sending := Some (sock, a), fd_wire := out\<rparr>) ack"
  by (auto simp: feed_back_def)

lemma feed_back_stopped:
  "feed_back ms w fd ack \<Longrightarrow> bw_shutdown w' \<Longrightarrow> feed_back ms w' (fd\<lparr>fd_sending := None\<rparr>) ack"
  by (auto simp: feed_back_def)

lemma round_buffer_pending:
  assumes "rb_inv (bw_rb w)"
  shows "rb_inv (round_buffer sock w)" and "prefix (pending (round_buffer sock w)) (pending (bw_rb w))"
  using assms by (auto simp: round_buffer_def rb_reset_def rb_inv_def pending_def available_def)

text \<open>What a round leaves when it succeeds.\<close>

lemma worker_round_cases:
  assumes "worker_round sock a evs w = Some w'" and "\<not> bw_shutdown w" and "bw_queue w = wire # q"
  obtains "bw_shutdown w'"
  | len rb evs' where "recv_raw_buffered (round_buffer sock w) evs = Some (Some len, rb, evs')" "0 \<le> sock"
    "bw_queue w' = q" "bw_socket w' = sock" "bw_rb w' = consume (2 + len) rb" "bw_sent w' = bw_sent w @ [wire]"
    "\<not> bw_shutdown w'"
  using assms that
  by (auto simp: worker_round_def queue_pop_def send_bytes_raw_def round_buffer_def Let_def split: if_splits option.splits)

lemma feed_back_forwarded:
  assumes "feed_back ms w fd ack" and "\<not> bw_shutdown w" and "bw_queue w = wire # q"
    and ack: "\<And>k. \<exists>body. ack k = frame body \<and> length body \<le> MAX_MESSAGE_SIZE"
    and arrived: "prefix (stream (round_buffer sock w) evs) (concat (drop (length (bw_sent w)) (fd_answers fd)))"
    and round: "worker_round sock a evs w = Some w'"
  shows "feed_back ms w' (fd\<lparr>fd_sending := None\<rparr>) ack"
  using round assms(2,3)
proof (cases rule: worker_round_cases)
  case 1
  with assms(1) show ?thesis by (rule feed_back_stopped)
next
  case (2 len rb evs')
  let ?k = "length (bw_sent w)" and ?h = "length (fd_seen fd)"
  have rb: "rb_inv (round_buffer sock w)"
    using assms(1,2) round_buffer_pending(1) by (simp add: feed_back_def)
  obtain body where body: "stream (round_buffer sock w) evs = frame body @ stream (consume (2 + len) rb) evs'"
    "rb_inv (consume (2 + len) rb)" "length body \<le> MAX_MESSAGE_SIZE"
    using recv_raw_buffered_Some [OF 2(1) rb] by metis
  have answers: "fd_answers fd = map (ack \<circ> number) (take ?h ms)"
    using assms(1) by (simp add: feed_back_def)
  have k: "?k < length (fd_answers fd)"
  proof (rule ccontr)
    assume "\<not> ?thesis"
    with arrived body(1) show False by simp
  qed
  then obtain b where "fd_answers fd ! ?k = frame b" "length b \<le> MAX_MESSAGE_SIZE"
    using ack answers by (metis (no_types, lifting) comp_apply length_map nth_map)
  then have "drop ?k (fd_answers fd) = frame b # drop (Suc ?k) (fd_answers fd)" "length b \<le> MAX_MESSAGE_SIZE"
    using k Cons_nth_drop_Suc by metis+
  then have "prefix (stream (consume (2 + len) rb) evs') (concat (drop (Suc ?k) (fd_answers fd)))"
  proof -
    assume eq: "drop ?k (fd_answers fd) = frame b # drop (Suc ?k) (fd_answers fd)" and b: "length b \<le> MAX_MESSAGE_SIZE"
    have "prefix (frame body @ stream (consume (2 + len) rb) evs') (frame b @ concat (drop (Suc ?k) (fd_answers fd)))"
      using arrived unfolding eq body(1) by simp
    from frame_prefix [OF this body(3) b] show ?thesis by simp
  qed
  moreover have "prefix (pending (consume (2 + len) rb)) (stream (consume (2 + len) rb) evs')"
    by (simp add: stream_def)
  ultimately have "prefix (pending (consume (2 + len) rb)) (concat (drop (Suc ?k) (fd_answers fd)))"
    using prefix_order.trans by blast
  then show ?thesis
    using assms(1,2) 2 k body(2) by (auto simp: feed_back_def)
qed

lemma feed_back_observe:
  assumes "feed_back ms w fd ack" and "length (fd_seen fd) < length ms"
  shows "feed_back ms w (fd\<lparr>fd_seen := fd_seen fd @ [b],
    fd_answers := fd_answers fd @ [ack (number (ms ! length (fd_seen fd)))]\<rparr>) ack"
  using assms by (auto simp: feed_back_def take_Suc_conv_app_nth intro: prefix_order.trans)

section \<open>The invariant of a subscriber\<close>

definition origins :: "nat \<Rightarrow> node_id set" where
  "origins n = of_nat ` {..<n}"

definition view_inv :: "nat \<Rightarrow> nat \<Rightarrow> log_message list \<Rightarrow> (nat \<Rightarrow> feed) \<Rightarrow> subscriber \<Rightarrow> observation list \<Rightarrow> bool" where
  "view_inv n f ms fds s h \<longleftrightarrow> subscriber_inv s h \<and> sub_f s = f \<and>
    (\<forall>i < n. received h (of_nat i) = map content (take (length (fd_seen (fds i))) ms)) \<and>
    (\<forall>x. x \<notin> origins n \<longrightarrow> received h x = [])"

text \<open>How many batches each server has delivered, by its identifier.\<close>

definition delivered :: "nat \<Rightarrow> (nat \<Rightarrow> feed) \<Rightarrow> node_id \<Rightarrow> nat" where
  "delivered n fds x = (if x \<in> origins n then length (fd_seen (fds (unat x))) else 0)"

lemma unat_origin: "i < n \<Longrightarrow> n \<le> 2 ^ 32 \<Longrightarrow> unat (of_nat i :: node_id) = i"
  by (intro unat_of_nat_eq) simp

lemma delivered_at: "i < n \<Longrightarrow> n \<le> 2 ^ 32 \<Longrightarrow> delivered n fds (of_nat i) = length (fd_seen (fds i))"
  by (simp add: delivered_def origins_def unat_origin)

lemma card_delivered:
  assumes "n \<le> 2 ^ 32"
  shows "card {x. k < delivered n fds x} = card {i. i < n \<and> k < length (fd_seen (fds i))}"
proof -
  have "k < delivered n fds x \<longleftrightarrow> x \<in> of_nat ` {i. i < n \<and> k < length (fd_seen (fds i))}" for x
  proof
    assume "k < delivered n fds x"
    then have "x \<in> origins n" by (auto simp: delivered_def split: if_splits)
    then obtain i where "i < n" "x = of_nat i" by (auto simp: origins_def)
    with \<open>k < delivered n fds x\<close> assms show "x \<in> of_nat ` {i. i < n \<and> k < length (fd_seen (fds i))}"
      by (auto simp: delivered_at)
  qed (use assms in \<open>auto simp: delivered_at\<close>)
  then have "{x. k < delivered n fds x} = of_nat ` {i. i < n \<and> k < length (fd_seen (fds i))}" by blast
  then show ?thesis
    using card_servers [of "{i. i < n \<and> k < length (fd_seen (fds i))}" n] assms by auto
qed

lemma view_one_proxy:
  assumes "view_inv n f ms fds s h" and "consecutive ms" and "length ms < 2 ^ 64" and "n \<le> 2 ^ 32"
    and "\<forall>i < n. length (fd_seen (fds i)) \<le> length ms"
  shows "one_proxy ms (delivered n fds) h"
proof -
  have "delivered n fds x \<le> length ms \<and> received h x = map content (take (delivered n fds x) ms)" for x
  proof (cases "x \<in> origins n")
    case True
    then obtain i where "i < n" "x = of_nat i" by (auto simp: origins_def)
    with assms(1,4,5) show ?thesis by (simp add: delivered_at view_inv_def)
  next
    case False
    with assms(1) show ?thesis by (simp add: delivered_def view_inv_def)
  qed
  with assms(2,3) show ?thesis by (simp add: one_proxy_def)
qed

lemma view_log:
  assumes "view_inv n f ms fds s h" and "consecutive ms" and "length ms < 2 ^ 64" and "n \<le> 2 ^ 32"
    and "\<forall>i < n. length (fd_seen (fds i)) \<le> length ms"
  shows "log_entries (sub_log s) = [] # take (log_size (sub_log s) - 1) (map (\<lambda>e. payload (log_data e)) ms)"
    and "log_size (sub_log s) - 1 \<le> length ms"
    and "k < log_size (sub_log s) - 1 \<Longrightarrow> f + 1 \<le> card {i. i < n \<and> k < length (fd_seen (fds i))}"
    and "card {i. i < n \<and> log_size (sub_log s) - 1 < length (fd_seen (fds i))} < f + 1"
proof -
  have one: "one_proxy ms (delivered n fds) h"
    using assms by (rule view_one_proxy)
  have run: "run_tracker (f + 1) h = Inr (sub_log s)"
    using assms(1) by (auto simp: view_inv_def subscriber_inv_def)
  have inv: "tracker_inv (f + 1) h (sub_log s)"
    using run one_proxy_written(2) [OF one] by (intro run_tracker_inv) simp_all
  note size = one_proxy_size [OF inv one]
  show "log_entries (sub_log s) = [] # take (log_size (sub_log s) - 1) (map (\<lambda>e. payload (log_data e)) ms)"
    using one_proxy_log [OF inv one] by (simp add: take_map)
  show le: "log_size (sub_log s) - 1 \<le> length ms"
    using size(1) by simp
  show "f + 1 \<le> card {i. i < n \<and> k < length (fd_seen (fds i))}" if "k < log_size (sub_log s) - 1"
    using size(2) [of k] that le card_delivered [OF assms(4)] by simp
  show "card {i. i < n \<and> log_size (sub_log s) - 1 < length (fd_seen (fds i))} < f + 1"
    using size(3) card_delivered [OF assms(4)] by simp
qed

lemma content_resend: "content (resend i e) = content e"
  by (cases e rule: prod_cases5) (simp add: content_def resend.simps number_def log_data.simps)

definition stamped :: "log_message \<Rightarrow> bool" where
  "stamped e \<longleftrightarrow> well_stamped (snd (snd (snd (snd e))))"

lemma sound_forwarded:
  assumes "sized e" and "typed e" and "stamped e" and "number e \<noteq> 0"
  shows "sound_message (resend i e)"
  using assms by (cases e rule: prod_cases5)
    (simp add: sound_message.simps resend.simps sized_def typed_def stamped_def number_def)

text \<open>An observation of the next batch on one feed.\<close>

lemma view_observe:
  assumes inv: "view_inv n f ms fds s h" and i: "i < n" "n \<le> 2 ^ 32"
    and k: "k = length (fd_seen (fds i))" "k < length ms"
    and e: "sound_message (resend (of_nat i) (ms ! k))"
    and at: "framed_at mem p (log_body (resend (of_nat i) (ms ! k)))"
    and run: "subscriber_handle s mem (p + 2) (length (log_body (resend (of_nat i) (ms ! k)))) = Inr (out, s', True)"
  shows "\<exists>h'. view_inv n f ms (fds(i := (fds i)\<lparr>fd_seen := fd_seen (fds i) @ [b], fd_answers := as\<rparr>)) s' h'"
    and "subscriber_ack s' = subscriber_ack s" and "out = [subscriber_ack s (number (ms ! k))]"
proof -
  obtain t sh sd q d where ms: "ms ! k = (t, sh, sd, q, d)" by (rule prod_cases5)
  have re: "resend (of_nat i) (ms ! k) = (t, sh, of_nat i, q, d)"
    by (simp add: ms resend.simps)
  have sound: "sound_message (t, sh, of_nat i, q, d)" using e by (simp add: re)
  let ?o = "(clock_now (sub_clock s), of_nat i :: node_id, q, log_data (t, sh, of_nat i :: node_id, q, d))"
  have sub: "subscriber_inv s h" "sub_f s = f"
    using inv by (simp_all add: view_inv_def)
  obtain s1 where s1: "subscriber_observe (of_nat i) q (log_data (t, sh, of_nat i, q, d)) s = Inr s1"
    "subscriber_inv s1 (?o # h)" "sub_f s1 = f" "sub_shard s1 = sub_shard s" "sub_id s1 = sub_id s"
    using subscriber_observe_ok [OF sub(1)] sound_payload [OF sound] sub(2) by blast
  have "out = [subscriber_ack s q]" "s' = s1"
    using run subscriber_handle_forwarded [OF _ _ sound, of p mem s] at s1(1) by (simp_all add: re framed_at_def)
  then show "out = [subscriber_ack s (number (ms ! k))]" "subscriber_ack s' = subscriber_ack s"
    using s1(4,5) by (simp_all add: ms number_def subscriber_ack_def fun_eq_iff)
  have c: "content (ms ! k) = (q, log_data (t, sh, of_nat i, q, d))"
    by (simp add: ms content_def number_def log_data.simps)
  have "received (?o # h) x = received h x @ (if x = of_nat i then [content (ms ! k)] else [])" for x
    by (simp add: received_def c)
  moreover have "of_nat j = (of_nat i :: node_id) \<longleftrightarrow> j = i" if "j < n" for j
    using that i unat_origin by metis
  moreover have "of_nat i \<in> origins n"
    using i by (simp add: origins_def)
  ultimately have "view_inv n f ms (fds(i := (fds i)\<lparr>fd_seen := fd_seen (fds i) @ [b], fd_answers := as\<rparr>)) s1 (?o # h)"
    using inv s1(2,3) k by (auto simp: view_inv_def take_Suc_conv_app_nth)
  then show "\<exists>h'. view_inv n f ms (fds(i := (fds i)\<lparr>fd_seen := fd_seen (fds i) @ [b], fd_answers := as\<rparr>)) s' h'"
    using \<open>s' = s1\<close> by blast
qed

lemma view_grows:
  assumes "view_inv n f ms fds s h" and "\<forall>i < n. length (fd_seen (fds i)) \<le> length ms"
  shows "view_inv n f (ms @ [e]) fds s h"
  using assms by (simp add: view_inv_def)

text \<open>A subscriber that has seen more shows at least as much.\<close>

lemma view_monotone:
  assumes "view_inv n f ms fds s h" and "view_inv n f ms fds' s' h'" and "consecutive ms" and "length ms < 2 ^ 64"
    and "n \<le> 2 ^ 32" and "\<forall>i < n. length (fd_seen (fds i)) \<le> length (fd_seen (fds' i))"
    and "\<forall>i < n. length (fd_seen (fds' i)) \<le> length ms"
  shows "log_size (sub_log s) - 1 \<le> log_size (sub_log s') - 1"
proof (rule ccontr)
  assume "\<not> ?thesis"
  then have less: "log_size (sub_log s') - 1 < log_size (sub_log s) - 1" by simp
  let ?k = "log_size (sub_log s') - 1"
  have "\<forall>i < n. length (fd_seen (fds i)) \<le> length ms"
    using assms(6,7) le_trans by blast
  then have "f + 1 \<le> card {i. i < n \<and> ?k < length (fd_seen (fds i))}"
    using view_log(3) [OF assms(1,3-5)] less by blast
  also have "\<dots> \<le> card {i. i < n \<and> ?k < length (fd_seen (fds' i))}"
    using assms(6) by (intro card_mono) (auto intro: less_le_trans)
  also have "\<dots> < f + 1"
    by (rule view_log(4) [OF assms(2-5,7)])
  finally show False by simp
qed

section \<open>The invariant of the cluster\<close>

definition handled :: "(nat \<Rightarrow> link) \<Rightarrow> nat \<Rightarrow> nat" where
  "handled lks i = length (lk_handled (lks i))"

text \<open>The connections, the servers and the subscribers, for the batches \<open>ms\<close> and the proxy's workers \<open>ws\<close>.\<close>

definition links_inv :: "nat \<Rightarrow> log_message list \<Rightarrow> worker list \<Rightarrow> (nat \<Rightarrow> link) \<Rightarrow> (nat \<Rightarrow> server) \<Rightarrow> bool" where
  "links_inv n ms ws lks svs \<longleftrightarrow>
    (\<forall>i < n. link_sent ms (ws ! i) (lks i) \<and> link_handled ms (lks i) (svs i) \<and> link_back (ws ! i) (lks i))"

definition servers_inv :: "nat \<Rightarrow> nat \<Rightarrow> log_message list \<Rightarrow> (nat \<Rightarrow> link) \<Rightarrow> (nat \<Rightarrow> server) \<Rightarrow> (nat \<Rightarrow> nat \<Rightarrow> feed) \<Rightarrow> bool" where
  "servers_inv n m ms lks svs fds \<longleftrightarrow>
    (\<forall>i < n. handled lks i \<le> length ms \<and> server_inv ms (handled lks i) i (svs i) \<and>
      (\<forall>j < m. \<exists>w. sv_workers (svs i) j = Some w \<and> feed_inv ms (handled lks i) (of_nat i) w (fds i j)))"

definition feeds_inv :: "nat \<Rightarrow> nat \<Rightarrow> log_message list \<Rightarrow> (nat \<Rightarrow> server) \<Rightarrow> (nat \<Rightarrow> nat \<Rightarrow> feed) \<Rightarrow> (nat \<Rightarrow> subscriber) \<Rightarrow> bool" where
  "feeds_inv n m ms svs fds subs \<longleftrightarrow>
    (\<forall>i < n. \<forall>j < m. \<forall>w. sv_workers (svs i) j = Some w \<longrightarrow> feed_back ms w (fds i j) (subscriber_ack (subs j)))"

definition views_inv :: "nat \<Rightarrow> nat \<Rightarrow> nat \<Rightarrow> log_message list \<Rightarrow> (nat \<Rightarrow> nat \<Rightarrow> feed) \<Rightarrow> (nat \<Rightarrow> subscriber) \<Rightarrow> bool" where
  "views_inv n m f ms fds subs \<longleftrightarrow> (\<forall>j < m. \<exists>h. view_inv n f ms (\<lambda>i. fds i j) (subs j) h)"

text \<open>
  The proxy: what the timer thread holds of a batch, whatever its clients push meanwhile; the batches are
  numbered from 1 on, the number in hand, those due and those of its slots follow.
\<close>

definition image_ok :: "proxy \<Rightarrow> byte list \<Rightarrow> log_message \<Rightarrow> bool" where
  "image_ok px wire e \<longleftrightarrow> wire = frame (log_body e) \<and> sender e = px_id px \<and> typed e"

fun phase_ok :: "log_message list \<Rightarrow> proxy \<Rightarrow> batch_phase \<Rightarrow> bool" where
  "phase_ok ms px Resting \<longleftrightarrow> True"
| "phase_ok ms px (Drained k r) \<longleftrightarrow> dr_data r = cb_read (px_buffer px) \<and> dr_len r \<le> cb_used (px_buffer px)"
| "phase_ok ms px (Built r wire e) \<longleftrightarrow> sent_length r \<le> cb_used (px_buffer px) \<and> image_ok px wire e"
| "phase_ok ms px (Released r wire e) \<longleftrightarrow> image_ok px wire e"
| "phase_ok ms px (Awaiting r turn) \<longleftrightarrow> ms \<noteq> []"

fun phase_numbers :: "batch_phase \<Rightarrow> seq_num list" where
  "phase_numbers (Drained k r) = [k]"
| "phase_numbers (Built r wire e) = [number e]"
| "phase_numbers (Released r wire e) = [number e]"
| "phase_numbers _ = []"

definition proxy_inv :: "nat \<Rightarrow> nat \<Rightarrow> log_message list \<Rightarrow> batch_phase \<Rightarrow> seq_num list \<Rightarrow> proxy \<Rightarrow> bool" where
  "proxy_inv n f ms ph due px \<longleftrightarrow> cb_inv (px_buffer px) \<and> slots_inv (px_sched px) \<and> phase_ok ms px ph \<and>
    rp_inv (px_replicator px) \<and> rp_wires (px_replicator px) = map (frame \<circ> log_body) ms \<and>
    length (rp_workers (px_replicator px)) = n \<and> rp_quorum (px_replicator px) = f + 1 \<and>
    (\<forall>e \<in> set ms. sender e = px_id px \<and> typed e) \<and>
    (\<exists>k. map number ms @ phase_numbers ph @ due @ map snd (slots (px_sched px)) = map of_nat [1..<Suc k] \<and>
      px_next_seq px = of_nat (Suc k))"

definition answers_inv :: "nat \<Rightarrow> log_message list \<Rightarrow> replicator \<Rightarrow> (nat \<times> bool \<times> (int \<times> byte list) list) list \<Rightarrow> bool" where
  "answers_inv f ms rp as \<longleftrightarrow> (\<forall>(k, ok, resp) \<in> set as. k < length ms \<and> (ok \<longrightarrow> f + 1 \<le> card (ackers k rp)))"

definition cluster_inv :: "nat \<Rightarrow> nat \<Rightarrow> nat \<Rightarrow> cluster \<Rightarrow> bool" where
  "cluster_inv n m f c \<longleftrightarrow>
    proxy_inv n f (cl_batches c) (cl_phase c) (cl_due c) (cl_proxy c) \<and>
    answers_inv f (cl_batches c) (cl_replicator c) (cl_answers c) \<and>
    links_inv n (cl_batches c) (rp_workers (cl_replicator c)) (cl_links c) (cl_servers c) \<and>
    servers_inv n m (cl_batches c) (cl_links c) (cl_servers c) (cl_feeds c) \<and>
    feeds_inv n m (cl_batches c) (cl_servers c) (cl_feeds c) (cl_subs c) \<and>
    views_inv n m f (cl_batches c) (cl_feeds c) (cl_subs c)"

text \<open>
  What the sizes must allow: no number comes twice, every batch fits a frame that a reader takes, and the
  stamps of the commands can be read.
\<close>

definition admissible :: "cluster \<Rightarrow> bool" where
  "admissible c \<longleftrightarrow> length (cl_batches c) < 2 ^ 64 \<and> (\<forall>e \<in> set (cl_batches c). sized e \<and> stamped e)"

lemma proxy_inv_consecutive: "proxy_inv n f ms ph due px \<Longrightarrow> consecutive ms"
proof -
  assume "proxy_inv n f ms ph due px"
  then obtain k where k: "map number ms @ phase_numbers ph @ due @ map snd (slots (px_sched px)) = map of_nat [1..<Suc k]"
    by (auto simp: proxy_inv_def)
  then have "length ms \<le> k"
    by (metis length_append length_map length_upt le_add1 diff_Suc_1)
  have "map number ms = take (length ms) (map of_nat [1..<Suc k])"
    by (simp only: flip: k) simp
  also have "\<dots> = map of_nat [1..<Suc (length ms)]"
    using \<open>length ms \<le> k\<close> by (simp add: take_map take_upt del: upt_Suc)
  finally show ?thesis by (simp only: consecutive_def)
qed

lemma proxy_inv_worker: "proxy_inv n f ms ph due px \<Longrightarrow> i < n \<Longrightarrow>
    worker_inv (map (frame \<circ> log_body) ms) (rp_workers (px_replicator px) ! i)"
  by (auto simp: proxy_inv_def rp_inv_def)

lemma servers_inv_seen: "servers_inv n m ms lks svs fds \<Longrightarrow> i < n \<Longrightarrow> j < m \<Longrightarrow>
    length (fd_seen (fds i j)) \<le> handled lks i \<and> handled lks i \<le> length ms"
  by (fastforce simp: servers_inv_def feed_inv_def)

subsection \<open>The proxy\<close>

lemma proxy_inv_epoch:
  assumes "proxy_inv n f ms Resting [] px" and "epoch_turn ts e px = Some (Inr (sent, px'))"
  shows "proxy_inv n f ms Resting sent px' \<and> px_replicator px' = px_replicator px"
proof -
  obtain k where k: "map number ms @ map snd (slots (px_sched px)) = map of_nat [1..<Suc k]"
    "px_next_seq px = of_nat (Suc k)"
    using assms(1) by (auto simp: proxy_inv_def)
  have "\<not> tm_paused (px_timer px)"
    using assms(2) by (auto simp: epoch_turn_def split: if_splits)
  then obtain s where s: "px' = px\<lparr>px_sched := s, px_next_seq := px_next_seq px + 1\<rparr>" "slots_inv s"
    "sent @ map snd (slots s) = map snd (slots (px_sched px)) @ [px_next_seq px]"
    using assms epoch_turn_sends [of px ts e] by (auto simp: proxy_inv_def)
  have "map number ms @ sent @ map snd (slots s) = map of_nat [1..<Suc (Suc k)]"
    using k by (simp add: s(3))
  moreover have "px_next_seq px + 1 = of_nat (Suc (Suc k))"
    using k(2) by simp
  ultimately show ?thesis
    using assms(1) s(1,2) by (auto simp: proxy_inv_def simp del: upt_Suc of_nat_Suc)
qed

lemma proxy_inv_client:
  assumes "proxy_inv n f ms ph due px" and "proxy_handle client z u px mem base msg_len = Inr (out, px', go)"
  shows "proxy_inv n f ms ph due px' \<and> px_replicator px' = px_replicator px"
proof -
  have "cb_inv (px_buffer px)" "phase_ok ms px ph"
    using assms(1) by (simp_all add: proxy_inv_def)
  note keep = proxy_handle_keeps [OF assms(2) this(1)]
  have "phase_ok ms px' ph"
    using keep \<open>phase_ok ms px ph\<close> by (cases ph) (auto simp: image_ok_def)
  with keep assms(1) show ?thesis
    by (simp add: proxy_inv_def del: upt_Suc of_nat_Suc)
qed

lemma proxy_inv_leave:
  "proxy_inv n f ms ph due px \<Longrightarrow> proxy_inv n f ms ph due (close_client client px)"
  by (cases ph) (auto simp: proxy_inv_def close_client_def image_ok_def simp del: upt_Suc of_nat_Suc)

lemma proxy_inv_drain:
  assumes "proxy_inv n f ms Resting (k # due) px" and "drain (px_buffer px) = (r, b)"
  shows "proxy_inv n f ms (Drained k r) due (px\<lparr>px_buffer := b\<rparr>)"
proof -
  have "dr_data r = cb_read b" "dr_len r = cb_used b" "cb_inv (px_buffer px) \<Longrightarrow> cb_inv b"
    using assms(2) by (auto simp: drain_def cb_inv_def)
  with assms(1) show ?thesis by (simp add: proxy_inv_def del: upt_Suc of_nat_Suc)
qed

lemma next_batch_facts:
  "number (next_batch px k r b) = k" "sender (next_batch px k r b) = px_id px" "typed (next_batch px k r b)"
  by (auto simp: next_batch_def number_def sender_def typed_def)

lemma proxy_inv_build:
  assumes "proxy_inv n f ms (Drained k r) due px"
  shows "proxy_inv n f ms (Built r (batch_image px k r (px_buffer px)) (next_batch px k r (px_buffer px))) due px"
proof -
  have "dr_data r + dr_len r \<le> length (cb_buf (px_buffer px))" "sent_length r \<le> cb_used (px_buffer px)"
    using assms by (auto simp: proxy_inv_def cb_inv_def sent_length_def)
  then show ?thesis
    using assms batch_image_frame [of r "px_buffer px" px k] next_batch_facts
    by (simp add: proxy_inv_def image_ok_def del: upt_Suc of_nat_Suc)
qed

lemma proxy_inv_release:
  assumes "proxy_inv n f ms (Built r wire e) due px"
  shows "proxy_inv n f ms (Released r wire e) due (px\<lparr>px_buffer := release (sent_length r) (px_buffer px)\<rparr>)"
  using assms release_facts(1) [of "px_buffer px" "sent_length r"]
  by (simp add: proxy_inv_def image_ok_def del: upt_Suc of_nat_Suc)

lemma proxy_inv_submit:
  assumes "proxy_inv n f ms (Released r wire e) due px"
  shows "proxy_inv n f (ms @ [e]) (Awaiting r turn) due (px\<lparr>px_replicator := enqueue_all wire (px_replicator px)\<rparr>)"
  using assms rp_inv_enqueue [of "px_replicator px" wire]
  by (auto simp: proxy_inv_def image_ok_def enqueue_all_def Let_def simp del: upt_Suc of_nat_Suc)

lemma proxy_inv_turn:
  "proxy_inv n f ms (Awaiting r t) due px \<Longrightarrow> proxy_inv n f ms (Awaiting r t') due px"
  "proxy_inv n f ms (Awaiting r t) due px \<Longrightarrow> proxy_inv n f ms Resting due px"
  by (simp_all add: proxy_inv_def del: upt_Suc of_nat_Suc)

text \<open>A step of the workers.\<close>

lemma worker_step_ackers: "worker_step r r' \<Longrightarrow> ackers k r \<subseteq> ackers k r'"
  by (induction rule: worker_step.induct)
    (auto simp: ackers_def connect_worker_def take_item_def exit_worker_def serve_def Let_def nth_list_update finish_item_def)

lemma proxy_inv_work:
  "proxy_inv n f ms ph due px \<Longrightarrow> worker_step (px_replicator px) rp \<Longrightarrow> proxy_inv n f ms ph due (px\<lparr>px_replicator := rp\<rparr>)"
  using rp_inv_worker_step worker_step_wires worker_step_quorum
  by (cases ph) (simp_all add: proxy_inv_def image_ok_def del: upt_Suc of_nat_Suc)

lemma answers_inv_work: "answers_inv f ms rp as \<Longrightarrow> worker_step rp rp' \<Longrightarrow> answers_inv f ms rp' as"
proof -
  assume inv: "answers_inv f ms rp as" and step: "worker_step rp rp'"
  have "card (ackers k rp) \<le> card (ackers k rp')" for k
    by (intro card_mono worker_step_ackers [OF step]) simp
  with inv show ?thesis by (fastforce simp: answers_inv_def intro: le_trans)
qed

lemma answers_inv_submit: "answers_inv f ms rp as \<Longrightarrow> answers_inv f (ms @ [e]) (enqueue_all wire rp) as"
proof -
  have "ackers k (enqueue_all wire rp) = ackers k rp" for k
    by (auto simp: ackers_def enqueue_all_def Let_def)
  moreover assume "answers_inv f ms rp as"
  ultimately show ?thesis by (auto simp: answers_inv_def)
qed

subsection \<open>The rest of the cluster\<close>

lemma links_inv_submit:
  assumes "links_inv n ms (rp_workers rp) lks svs" and "length (rp_workers rp) = n"
  shows "links_inv n (ms @ [e]) (rp_workers (enqueue_all wire rp)) lks svs"
proof -
  have "rp_workers (enqueue_all wire rp) ! i
      = (rp_workers rp ! i)\<lparr>w_queue := w_queue (rp_workers rp ! i) @ [(wire, length (rp_wires rp))]\<rparr>" if "i < n" for i
    using that assms(2) by (simp add: enqueue_all_def Let_def)
  then show ?thesis
    using assms(1) link_sent_enqueue link_handled_grows by (simp add: links_inv_def link_back_def)
qed

lemma servers_inv_submit: "servers_inv n m ms lks svs fds \<Longrightarrow> servers_inv n m (ms @ [e]) lks svs fds"
  by (auto simp: servers_inv_def intro: server_inv_grows) (metis feed_inv_grows)

lemma feeds_inv_submit:
  assumes "feeds_inv n m ms svs fds subs" and "servers_inv n m ms lks svs fds"
  shows "feeds_inv n m (ms @ [e]) svs fds subs"
  using assms(1) servers_inv_seen [OF assms(2)] feed_back_grows unfolding feeds_inv_def by (meson le_trans)

lemma feeds_inv_push:
  assumes "feeds_inv n m ms svs fds subs"
    and "\<And>j. sv_workers sv j = map_option (\<lambda>w. w\<lparr>bw_queue := bw_queue w @ q\<rparr>) (sv_workers (svs i) j)"
  shows "feeds_inv n m ms (svs(i := sv)) fds subs"
  using assms by (auto simp: feeds_inv_def feed_back_take)

lemma feeds_inv_update:
  assumes "feeds_inv n m ms svs fds subs" and "feed_back ms w fd (subscriber_ack (subs j))"
  shows "feeds_inv n m ms (svs(i := (svs i)\<lparr>sv_workers := (sv_workers (svs i))(j \<mapsto> w)\<rparr>)) (fds(i := (fds i)(j := fd))) subs"
  using assms by (auto simp: feeds_inv_def)

lemma feeds_inv_feed:
  assumes "feeds_inv n m ms svs fds subs" and "sv_workers (svs i) j = Some w"
    and "feed_back ms w fd (subscriber_ack (subs j))"
  shows "feeds_inv n m ms svs (fds(i := (fds i)(j := fd))) subs"
  using assms by (auto simp: feeds_inv_def)

lemma feeds_inv_subs:
  assumes "feeds_inv n m ms svs fds subs" and "subscriber_ack s = subscriber_ack (subs j)"
  shows "feeds_inv n m ms svs fds (subs(j := s))"
  using assms by (auto simp: feeds_inv_def)

lemma views_inv_submit:
  assumes "views_inv n m f ms fds subs" and "servers_inv n m ms lks svs fds"
  shows "views_inv n m f (ms @ [e]) fds subs"
proof -
  have "\<forall>i < n. length (fd_seen (fds i j)) \<le> length ms" if "j < m" for j
    using servers_inv_seen [OF assms(2) _ that] le_trans by blast
  then show ?thesis
    using assms(1) view_grows [where e = e] unfolding views_inv_def by metis
qed

text \<open>One worker, one link.\<close>

lemma links_inv_update:
  assumes "links_inv n ms ws lks svs" and "i < length ws"
    and "link_sent ms w lk" and "link_handled ms lk (svs i)" and "link_back w lk"
  shows "links_inv n ms (ws[i := w]) (lks(i := lk)) svs"
  using assms by (simp add: links_inv_def nth_list_update)

lemma links_inv_worker:
  assumes "links_inv n ms ws lks svs" and "i < length ws" and "i < n"
    and "w_out w = w_out (ws ! i)" "w_queue w = w_queue (ws ! i)" "w_acked w = w_acked (ws ! i)" "w_rb w = w_rb (ws ! i)"
    and "w_exited w = w_exited (ws ! i)" "w_busy (ws ! i) \<longrightarrow> w_busy w"
  shows "links_inv n ms (ws[i := w]) lks svs"
  using assms by (auto simp: links_inv_def nth_list_update link_sent_def link_back_def)

lemma links_inv_servers:
  assumes "links_inv n ms ws lks svs" and "server_ack sv = server_ack (svs i)"
  shows "links_inv n ms ws lks (svs(i := sv))"
  using assms by (auto simp: links_inv_def link_handled_def)

lemma servers_inv_links:
  assumes "servers_inv n m ms lks svs fds" and "\<And>k. lk_handled (lks' k) = lk_handled (lks k)"
  shows "servers_inv n m ms lks' svs fds"
  using assms by (simp add: servers_inv_def handled_def)

text \<open>The outputs of one worker of one server.\<close>

lemma servers_inv_feed:
  assumes "servers_inv n m ms lks svs fds" and "i < n"
    and "feed_inv ms (handled lks i) (of_nat i) w fd"
  shows "servers_inv n m ms lks (svs(i := (svs i)\<lparr>sv_workers := (sv_workers (svs i))(j \<mapsto> w)\<rparr>)) (fds(i := (fds i)(j := fd)))"
  using assms by (auto simp: servers_inv_def server_inv_def server_ok_def)

lemma servers_inv_feed_only:
  assumes "servers_inv n m ms lks svs fds" and "sv_workers (svs i) j = Some w"
    and "feed_inv ms (handled lks i) (of_nat i) w fd"
  shows "servers_inv n m ms lks svs (fds(i := (fds i)(j := fd)))"
  using assms by (auto simp: servers_inv_def)

lemma views_inv_feeds:
  assumes "views_inv n m f ms fds subs" and "\<And>i j. fd_seen (fds' i j) = fd_seen (fds i j)"
  shows "views_inv n m f ms fds' subs"
  using assms by (simp add: views_inv_def view_inv_def)

lemma views_inv_observe:
  assumes "views_inv n m f ms fds subs" and "view_inv n f ms ((\<lambda>i. fds i j)(i := fd)) s h"
  shows "views_inv n m f ms (fds(i := (fds i)(j := fd))) (subs(j := s))"
  unfolding views_inv_def
proof (intro allI impI)
  fix j' assume "j' < m"
  show "\<exists>h. view_inv n f ms (\<lambda>k. (fds(i := (fds i)(j := fd))) k j') ((subs(j := s)) j') h"
  proof (cases "j' = j")
    case True
    then have "(\<lambda>k. (fds(i := (fds i)(j := fd))) k j') = (\<lambda>i. fds i j)(i := fd)"
      by (simp add: fun_eq_iff)
    with assms(2) True show ?thesis by (metis fun_upd_same)
  next
    case False
    then have "(\<lambda>k. (fds(i := (fds i)(j := fd))) k j') = (\<lambda>i. fds i j')"
      by (simp add: fun_eq_iff)
    with assms(1) False \<open>j' < m\<close> show ?thesis by (simp add: views_inv_def)
  qed
qed

lemma inv_answer:
  assumes "cluster_inv n m f c" and "cl_phase c = Awaiting r t" and "ok \<longrightarrow> enough (length (cl_batches c) - 1) (cl_replicator c)"
  shows "cluster_inv n m f (answer_batch ok r c)"
proof -
  have p: "proxy_inv n f (cl_batches c) (Awaiting r t) (cl_due c) (cl_proxy c)"
    using assms(1,2) by (simp add: cluster_inv_def)
  then have "rp_inv (cl_replicator c)" "rp_quorum (cl_replicator c) = f + 1" "cl_batches c \<noteq> []"
    by (simp_all add: proxy_inv_def)
  then have "ok \<longrightarrow> f + 1 \<le> card (ackers (length (cl_batches c) - 1) (cl_replicator c))"
    "length (cl_batches c) - 1 < length (cl_batches c)"
    using assms(3) by (auto simp: enough_def rp_inv_def)
  then show ?thesis
    using assms(1) proxy_inv_turn(2) [OF p] by (auto simp: cluster_inv_def answer_batch_def answers_inv_def)
qed

lemma inv_submit:
  assumes "cluster_inv n m f c" and "cl_phase c = Released r wire e"
  shows "cluster_inv n m f (c\<lparr>cl_proxy := (cl_proxy c)\<lparr>px_replicator := enqueue_all wire (cl_replicator c)\<rparr>,
      cl_batches := cl_batches c @ [e], cl_phase := Awaiting r False\<rparr>)"
proof -
  have p: "proxy_inv n f (cl_batches c) (Released r wire e) (cl_due c) (cl_proxy c)"
    using assms by (simp add: cluster_inv_def)
  then have "length (rp_workers (cl_replicator c)) = n"
    by (simp add: proxy_inv_def)
  then show ?thesis
    using assms(1) proxy_inv_submit [OF p] answers_inv_submit links_inv_submit servers_inv_submit
      feeds_inv_submit [of n m "cl_batches c" "cl_servers c" "cl_feeds c" "cl_subs c" "cl_links c"]
      views_inv_submit [of n m f "cl_batches c" "cl_feeds c" "cl_subs c" "cl_links c" "cl_servers c"]
    unfolding cluster_inv_def by simp
qed

text \<open>A step of the timer thread or of a client that leaves the replicator alone.\<close>

lemma inv_proxy:
  assumes "cluster_inv n m f c" and "proxy_inv n f (cl_batches c) ph due px" and "px_replicator px = cl_replicator c"
  shows "cluster_inv n m f (c\<lparr>cl_proxy := px, cl_due := due, cl_phase := ph\<rparr>)"
  using assms by (simp add: cluster_inv_def)

lemma inv_worker_step:
  assumes "cluster_inv n m f c" and "worker_step (cl_replicator c) rp"
    and "links_inv n (cl_batches c) (rp_workers rp) (lks) (cl_servers c)"
    and "\<And>k. lk_handled (lks k) = lk_handled (cl_links c k)"
  shows "cluster_inv n m f (c\<lparr>cl_proxy := (cl_proxy c)\<lparr>px_replicator := rp\<rparr>, cl_links := lks\<rparr>)"
proof -
  have "servers_inv n m (cl_batches c) lks (cl_servers c) (cl_feeds c)"
    by (rule servers_inv_links [where lks = "cl_links c"]) (use assms(1,4) in \<open>simp_all add: cluster_inv_def\<close>)
  then show ?thesis
    using assms(1,3) proxy_inv_work [OF _ assms(2)] answers_inv_work [OF _ assms(2)] by (simp add: cluster_inv_def)
qed

lemma inv_links:
  assumes "cluster_inv n m f c" and "i < n"
  shows "link_sent (cl_batches c) (rp_workers (cl_replicator c) ! i) (cl_links c i)"
    and "link_handled (cl_batches c) (cl_links c i) (cl_servers c i)"
    and "link_back (rp_workers (cl_replicator c) ! i) (cl_links c i)"
    and "i < length (rp_workers (cl_replicator c))"
    and "worker_inv (map (frame \<circ> log_body) (cl_batches c)) (rp_workers (cl_replicator c) ! i)"
proof -
  have p: "proxy_inv n f (cl_batches c) (cl_phase c) (cl_due c) (cl_proxy c)"
    and l: "links_inv n (cl_batches c) (rp_workers (cl_replicator c)) (cl_links c) (cl_servers c)"
    using assms(1) by (simp_all add: cluster_inv_def)
  show "i < length (rp_workers (cl_replicator c))"
    using p assms(2) by (simp add: proxy_inv_def)
  show "worker_inv (map (frame \<circ> log_body) (cl_batches c)) (rp_workers (cl_replicator c) ! i)"
    by (rule proxy_inv_worker [OF p assms(2)])
  show "link_sent (cl_batches c) (rp_workers (cl_replicator c) ! i) (cl_links c i)"
    "link_handled (cl_batches c) (cl_links c i) (cl_servers c i)"
    "link_back (rp_workers (cl_replicator c) ! i) (cl_links c i)"
    using l assms(2) by (simp_all add: links_inv_def)
qed

lemma inv_connect:
  assumes "cluster_inv n m f c" and "i < n" and "w = rp_workers (cl_replicator c) ! i"
    and "\<not> w_connected w" and "\<not> w_exited w" and "\<not> w_shutdown w"
  shows "cluster_inv n m f (c\<lparr>cl_proxy := (cl_proxy c)\<lparr>px_replicator := connect_worker i (cl_replicator c)\<rparr>\<rparr>)"
proof -
  have "worker_step (cl_replicator c) (connect_worker i (cl_replicator c))"
    using assms inv_links(4) by (intro w_connect) simp_all
  moreover have "links_inv n (cl_batches c) (rp_workers (connect_worker i (cl_replicator c))) (cl_links c) (cl_servers c)"
    using assms(1,2) inv_links(4) [OF assms(1,2)] unfolding connect_worker_def
    by (auto simp: cluster_inv_def intro!: links_inv_worker)
  ultimately show ?thesis
    using inv_worker_step [OF assms(1)] by fastforce
qed

lemma inv_take:
  assumes "cluster_inv n m f c" and "i < n" and "w = rp_workers (cl_replicator c) ! i"
    and "w_connected w" and "\<not> w_exited w" and "\<not> w_shutdown w" and "\<not> w_busy w" and "w_queue w \<noteq> []"
  shows "cluster_inv n m f (c\<lparr>cl_proxy := (cl_proxy c)\<lparr>px_replicator := take_item i (cl_replicator c)\<rparr>\<rparr>)"
proof -
  have "worker_step (cl_replicator c) (take_item i (cl_replicator c))"
    using assms inv_links(4) by (intro w_take) simp_all
  moreover have "links_inv n (cl_batches c) (rp_workers (take_item i (cl_replicator c))) (cl_links c) (cl_servers c)"
    using assms(1,2) inv_links(4) [OF assms(1,2)] unfolding take_item_def
    by (auto simp: cluster_inv_def intro!: links_inv_worker)
  ultimately show ?thesis
    using inv_worker_step [OF assms(1)] by fastforce
qed

lemma inv_send:
  assumes "cluster_inv n m f c" and "i < n" and "w = rp_workers (cl_replicator c) ! i"
    and "w_busy w" and "\<not> w_exited w" and "w_queue w \<noteq> []" and "lk_sending (cl_links c i) = None"
  shows "cluster_inv n m f (send_image i a c)"
proof -
  let ?lk = "cl_links c i"
  let ?lk' = "?lk\<lparr>lk_sending := Some a, lk_wire := lk_wire ?lk @ fst (send_bytes_raw a (fst (hd (w_queue w))))\<rparr>"
  note l = inv_links [OF assms(1,2), folded assms(3)]
  have "link_sent (cl_batches c) w ?lk'"
    by (rule link_send [OF l(1,5) assms(4-7)])
  moreover have "link_handled (cl_batches c) ?lk' (cl_servers c i)" "link_back w ?lk'"
    using l(2,3) by (auto simp: link_handled_def link_back_def)
  moreover have "links_inv n (cl_batches c) (rp_workers (cl_replicator c)) (cl_links c) (cl_servers c)"
    using assms(1) by (simp add: cluster_inv_def)
  ultimately have "links_inv n (cl_batches c) ((rp_workers (cl_replicator c))[i := w]) ((cl_links c)(i := ?lk')) (cl_servers c)"
    by (intro links_inv_update l(4))
  then have "links_inv n (cl_batches c) (rp_workers (cl_replicator c)) ((cl_links c)(i := ?lk')) (cl_servers c)"
    by (simp add: assms(3) del: fun_upd_apply)
  moreover have "servers_inv n m (cl_batches c) ((cl_links c)(i := ?lk')) (cl_servers c) (cl_feeds c)"
    by (rule servers_inv_links [where lks = "cl_links c"]) (use assms(1) in \<open>simp_all add: cluster_inv_def\<close>)
  ultimately show ?thesis
    using assms(1,3) by (simp add: cluster_inv_def send_image_def Let_def del: fun_upd_apply)
qed

lemma inv_answered:
  assumes "cluster_inv n m f c" and "i < n" and "w = rp_workers (cl_replicator c) ! i"
    and "lk_sending (cl_links c i) = Some a"
    and "prefix (stream (w_rb w) evs) (concat (drop (w_acked w) (lk_answers (cl_links c i))))"
    and "exchange a (fst (hd (w_queue w))) (w_rb w) evs = Some (Inr (ok, out, rb))"
  shows "cluster_inv n m f (finish_image i ok out rb c)"
proof -
  note l = inv_links [OF assms(1,2), folded assms(3)]
  note l' = link_answered [OF l(1-3) assms(4-6)]
  have "w_busy w" "\<not> w_exited w" "w_queue w \<noteq> []"
    using l(1) assms(4) by (auto simp: link_sent_def)
  then have "worker_step (cl_replicator c) (serve i ok out rb (cl_replicator c))"
    using l(4) assms(3,6) by (intro w_serve) simp_all
  moreover have "rp_workers (serve i ok out rb (cl_replicator c)) = (rp_workers (cl_replicator c))[i := finish_item ok out rb w]"
    by (simp add: serve_def assms(3) Let_def)
  moreover have "links_inv n (cl_batches c) (rp_workers (cl_replicator c)) (cl_links c) (cl_servers c)"
    using assms(1) by (simp add: cluster_inv_def)
  ultimately show ?thesis
    unfolding finish_image_def using links_inv_update [where svs = "cl_servers c" and i = i, OF _ l(4) l'] by (intro inv_worker_step [OF assms(1)]) auto
qed

lemma inv_servers:
  assumes "cluster_inv n m f c" and "i < n"
  shows "server_inv (cl_batches c) (handled (cl_links c) i) i (cl_servers c i)"
    and "handled (cl_links c) i \<le> length (cl_batches c)"
    and "j < m \<Longrightarrow> sv_workers (cl_servers c i) j = Some w \<Longrightarrow>
      feed_inv (cl_batches c) (handled (cl_links c) i) (of_nat i) w (cl_feeds c i j)"
proof -
  have s: "servers_inv n m (cl_batches c) (cl_links c) (cl_servers c) (cl_feeds c)"
    using assms(1) by (simp add: cluster_inv_def)
  then show "server_inv (cl_batches c) (handled (cl_links c) i) i (cl_servers c i)"
    "handled (cl_links c) i \<le> length (cl_batches c)"
    using assms(2) by (simp_all add: servers_inv_def)
  show "feed_inv (cl_batches c) (handled (cl_links c) i) (of_nat i) w (cl_feeds c i j)"
    if "j < m" "sv_workers (cl_servers c i) j = Some w"
    using s assms(2) that unfolding servers_inv_def by (metis option.inject)
qed

lemma typed_batches: "cluster_inv n m f c \<Longrightarrow> e \<in> set (cl_batches c) \<Longrightarrow> typed e"
  by (simp add: cluster_inv_def proxy_inv_def)

lemma inv_store_facts:
  assumes "cluster_inv n m f c" and "admissible c" and "i < n"
    and "next_body (lk_handled (cl_links c i)) (lk_wire (cl_links c i)) body" and "framed_at mem p body"
    and "server_handle (cl_servers c i) mem (p + 2) (length body) = Inr (out, sv, True)"
  shows "handled (cl_links c) i < length (cl_batches c)" and "cluster_inv n m f (server_takes i body out sv c)"
proof -
  let ?ms = "cl_batches c" and ?lk = "cl_links c i" and ?h = "handled (cl_links c) i"
  let ?lk' = "?lk\<lparr>lk_handled := lk_handled ?lk @ [body], lk_answers := lk_answers ?lk @ out\<rparr>"
  note l = inv_links [OF assms(1,3)]
  have sized: "\<forall>e \<in> set ?ms. sized e"
    using assms(2) by (simp add: admissible_def)
  have wire: "prefix (lk_wire ?lk) (framed (map log_body ?ms))"
    using l(1) by (simp add: link_sent_def)
  note s = link_store [OF l(2) wire sized assms(4)]
  show h: "?h < length ?ms" using s(1) by (simp add: handled_def)
  have body: "body = log_body (?ms ! ?h)"
    using s(2) by (simp add: handled_def)
  have e: "sized (?ms ! ?h)" "typed (?ms ! ?h)"
    using sized typed_batches [OF assms(1)] h by simp_all
  note sv = server_takes_entry [OF inv_servers(1) [OF assms(1,3)] h e assms(5,6) [unfolded body]]
  have "link_handled ?ms ?lk' sv"
    using s(3) [OF sv(3)] sv(1) by (simp add: handled_def)
  moreover have "link_sent ?ms (rp_workers (cl_replicator c) ! i) ?lk'"
    using l(1) by (simp add: link_sent_def)
  moreover have "link_back (rp_workers (cl_replicator c) ! i) ?lk'"
    using link_back_grows [OF l(3)] sv(1) by simp
  moreover have "links_inv n ?ms (rp_workers (cl_replicator c)) (cl_links c) (cl_servers c)"
    using assms(1) by (simp add: cluster_inv_def)
  then have "links_inv n ?ms (rp_workers (cl_replicator c)) (cl_links c) ((cl_servers c)(i := sv))"
    by (rule links_inv_servers) (rule sv(3))
  ultimately have "links_inv n ?ms ((rp_workers (cl_replicator c))[i := rp_workers (cl_replicator c) ! i])
      ((cl_links c)(i := ?lk')) ((cl_servers c)(i := sv))"
    by (intro links_inv_update l(4)) simp_all
  then have 1: "links_inv n ?ms (rp_workers (cl_replicator c)) ((cl_links c)(i := ?lk')) ((cl_servers c)(i := sv))"
    by (simp del: fun_upd_apply)
  have id: "sv_id (cl_servers c i) = of_nat i"
    using inv_servers(1) [OF assms(1,3)] by (simp add: server_inv_def)
  have "\<exists>w. sv_workers sv j = Some w \<and> feed_inv ?ms (Suc ?h) (of_nat i) w (cl_feeds c i j)" if j: "j < m" for j
  proof -
    obtain w where "sv_workers (cl_servers c i) j = Some w"
      "feed_inv ?ms ?h (of_nat i) w (cl_feeds c i j)"
      using assms(1,3) j unfolding cluster_inv_def servers_inv_def by blast
    with feed_inv_take [OF _ h] sv(4) [of j] show ?thesis
      by (simp add: forwarded_def id)
  qed
  then have 2: "servers_inv n m ?ms ((cl_links c)(i := ?lk')) ((cl_servers c)(i := sv)) (cl_feeds c)"
    using assms(1) h sv(2) by (auto simp: cluster_inv_def servers_inv_def handled_def)
  have "feeds_inv n m ?ms ((cl_servers c)(i := sv)) (cl_feeds c) (cl_subs c)"
    using assms(1) sv(4) by (intro feeds_inv_push) (simp_all add: cluster_inv_def)
  then show "cluster_inv n m f (server_takes i body out sv c)"
    using assms(1) 1 2 by (simp add: cluster_inv_def server_takes_def Let_def del: fun_upd_apply)
qed

lemma inv_feeds:
  assumes "cluster_inv n m f c" and "i < n" and "j < m" and "sv_workers (cl_servers c i) j = Some w"
  shows "feed_back (cl_batches c) w (cl_feeds c i j) (subscriber_ack (cl_subs c j))"
  using assms by (simp add: cluster_inv_def feeds_inv_def)

lemma inv_feed:
  assumes "cluster_inv n m f c" and "i < n" and "sv_workers (cl_servers c i) j = Some w"
    and "feed_inv (cl_batches c) (handled (cl_links c) i) (of_nat i) w fd" and "fd_seen fd = fd_seen (cl_feeds c i j)"
    and "feed_back (cl_batches c) w fd (subscriber_ack (cl_subs c j))"
  shows "cluster_inv n m f (c\<lparr>cl_feeds := (cl_feeds c)(i := (cl_feeds c i)(j := fd))\<rparr>)"
proof -
  have "servers_inv n m (cl_batches c) (cl_links c) (cl_servers c) ((cl_feeds c)(i := (cl_feeds c i)(j := fd)))"
    by (rule servers_inv_feed_only [where svs = "cl_servers c" and i = i and j = j, OF _ assms(3,4)])
      (use assms(1) in \<open>simp add: cluster_inv_def\<close>)
  moreover have "feeds_inv n m (cl_batches c) (cl_servers c) ((cl_feeds c)(i := (cl_feeds c i)(j := fd))) (cl_subs c)"
    by (rule feeds_inv_feed [where svs = "cl_servers c" and subs = "cl_subs c" and i = i and j = j, OF _ assms(3,6)])
      (use assms(1) in \<open>simp add: cluster_inv_def\<close>)
  moreover have "views_inv n m f (cl_batches c) ((cl_feeds c)(i := (cl_feeds c i)(j := fd))) (cl_subs c)"
    by (rule views_inv_feeds [where fds = "cl_feeds c"]) (use assms(1,5) in \<open>simp_all add: cluster_inv_def\<close>)
  ultimately show ?thesis
    using assms(1) by (simp add: cluster_inv_def del: fun_upd_apply)
qed

lemma inv_forward:
  assumes "cluster_inv n m f c" and "i < n" and "j < m" and "sv_workers (cl_servers c i) j = Some w"
    and "\<not> bw_shutdown w" and "bw_queue w = wire # q" and "fd_sending (cl_feeds c i j) = None" and "0 \<le> sock"
  shows "cluster_inv n m f (forward_image i j sock a wire c)"
  unfolding forward_image_def Let_def
  by (rule inv_feed [OF assms(1,2,4) feed_forward [OF inv_servers(3) [OF assms(1-4)] assms(5-7)] _
      feed_back_forward [OF inv_feeds [OF assms(1-4)] assms(8)]]) simp

lemma inv_finish_forward:
  assumes "cluster_inv n m f c" and "i < n"
    and "feed_inv (cl_batches c) (handled (cl_links c) i) (of_nat i) w' ((cl_feeds c i j)\<lparr>fd_sending := None\<rparr>)"
    and "feed_back (cl_batches c) w' ((cl_feeds c i j)\<lparr>fd_sending := None\<rparr>) (subscriber_ack (cl_subs c j))"
  shows "cluster_inv n m f (finish_forward i j w' c)"
proof -
  let ?sv = "(cl_servers c i)\<lparr>sv_workers := (sv_workers (cl_servers c i))(j \<mapsto> w')\<rparr>"
  let ?fds = "(cl_feeds c)(i := (cl_feeds c i)(j := (cl_feeds c i j)\<lparr>fd_sending := None\<rparr>))"
  have "links_inv n (cl_batches c) (rp_workers (cl_replicator c)) (cl_links c) ((cl_servers c)(i := ?sv))"
    by (rule links_inv_servers) (use assms(1) in \<open>simp_all add: cluster_inv_def server_ack_def fun_eq_iff\<close>)
  moreover have "servers_inv n m (cl_batches c) (cl_links c) ((cl_servers c)(i := ?sv)) ?fds"
    by (rule servers_inv_feed) (use assms in \<open>simp_all add: cluster_inv_def\<close>)
  moreover have "feeds_inv n m (cl_batches c) ((cl_servers c)(i := ?sv)) ?fds (cl_subs c)"
    by (rule feeds_inv_update) (use assms in \<open>simp_all add: cluster_inv_def\<close>)
  moreover have "views_inv n m f (cl_batches c) ?fds (cl_subs c)"
    by (rule views_inv_feeds [where fds = "cl_feeds c"]) (use assms(1) in \<open>simp_all add: cluster_inv_def\<close>)
  ultimately show ?thesis
    using assms(1) by (simp add: cluster_inv_def finish_forward_def del: fun_upd_apply)
qed

lemma inv_forwarded:
  assumes "cluster_inv n m f c" and "i < n" and "j < m" and "sv_workers (cl_servers c i) j = Some w"
    and "fd_sending (cl_feeds c i j) = Some (sock, a)"
    and "prefix (stream (round_buffer sock w) evs) (concat (drop (length (bw_sent w)) (fd_answers (cl_feeds c i j))))"
    and "worker_round sock a evs w = Some w'"
  shows "cluster_inv n m f (finish_forward i j w' c)"
proof -
  note fd = inv_servers(3) [OF assms(1-4)]
  have run: "\<not> bw_shutdown w" "bw_queue w \<noteq> []"
    using fd assms(5) by (auto simp: feed_inv_def)
  then obtain wire q where q: "bw_queue w = wire # q" by (cases "bw_queue w") auto
  have ack: "\<exists>body. subscriber_ack s k = frame body \<and> length body \<le> MAX_MESSAGE_SIZE" for s k
    by (rule exI [of _ "plain (code ACK) (sub_shard s) (sub_id s) k []"])
      (simp add: subscriber_ack_def build_wire_plain_null MAX_MESSAGE_SIZE_def)
  show ?thesis
    by (rule inv_finish_forward [OF assms(1,2) feed_forwarded [OF fd assms(5,7)]
        feed_back_forwarded [OF inv_feeds [OF assms(1-4)] run(1) q ack assms(6,7)]])
qed

lemma inv_unreachable:
  assumes "cluster_inv n m f c" and "i < n" and "j < m" and "sv_workers (cl_servers c i) j = Some w"
    and "sock < 0" and "worker_round sock a evs w = Some w'"
  shows "cluster_inv n m f (finish_forward i j w' c)"
  by (rule inv_finish_forward [OF assms(1,2) feed_unreachable [OF inv_servers(3) [OF assms(1-4)] assms(5,6)]
      feed_back_stopped [OF inv_feeds [OF assms(1-4)] unreachable_stops [OF assms(5,6)]]])

text \<open>What a subscriber's turn needs, from the invariant.\<close>

lemma inv_next_observation:
  assumes "cluster_inv n m f c" and "admissible c" and "i < n" and "j < m" and "sv_workers (cl_servers c i) j = Some w"
    and "next_body (fd_seen (cl_feeds c i j)) (fd_wire (cl_feeds c i j)) body"
  shows "body = log_body (resend (of_nat i) (cl_batches c ! length (fd_seen (cl_feeds c i j))))"
    and "length (fd_seen (cl_feeds c i j)) < length (cl_batches c)"
    and "sound_message (resend (of_nat i) (cl_batches c ! length (fd_seen (cl_feeds c i j))))"
    and "feed_inv (cl_batches c) (handled (cl_links c) i) (of_nat i) w
      ((cl_feeds c i j)\<lparr>fd_seen := fd_seen (cl_feeds c i j) @ [body], fd_answers := as\<rparr>)"
proof -
  let ?ms = "cl_batches c" and ?k = "length (fd_seen (cl_feeds c i j))"
  note h = inv_servers(2) [OF assms(1,3)]
  have sized: "\<forall>e \<in> set ?ms. sized e"
    using assms(2) by (simp add: admissible_def)
  note o = feed_observe [OF inv_servers(3) [OF assms(1,3-5)] h sized assms(6)]
  show k: "?k < length ?ms" using o(1) h by simp
  show "body = log_body (resend (of_nat i) (?ms ! ?k))" by (rule o(2))
  show "feed_inv ?ms (handled (cl_links c) i) (of_nat i) w
      ((cl_feeds c i j)\<lparr>fd_seen := fd_seen (cl_feeds c i j) @ [body], fd_answers := as\<rparr>)" by (rule o(3))
  have "consecutive ?ms"
    using assms(1) proxy_inv_consecutive by (auto simp: cluster_inv_def)
  then have "number (?ms ! ?k) \<noteq> 0"
    using consecutive_nth numbers_distinct(2) k assms(2) by (metis admissible_def)
  then show "sound_message (resend (of_nat i) (?ms ! ?k))"
    using k assms(2) typed_batches [OF assms(1)] by (intro sound_forwarded) (simp_all add: admissible_def)
qed

lemma inv_observe:
  assumes "cluster_inv n m f c" and "admissible c" and "n \<le> 2 ^ 32" and "i < n" and "j < m"
    and "next_body (fd_seen (cl_feeds c i j)) (fd_wire (cl_feeds c i j)) body" and "framed_at mem p body"
    and "subscriber_handle (cl_subs c j) mem (p + 2) (length body) = Inr (out, s, True)"
  shows "cluster_inv n m f (subscriber_takes i j body out s c)"
proof -
  let ?ms = "cl_batches c" and ?fd = "cl_feeds c i j"
  let ?fd' = "?fd\<lparr>fd_seen := fd_seen ?fd @ [body], fd_answers := fd_answers ?fd @ out\<rparr>" and ?k = "length (fd_seen ?fd)"
  let ?fds = "(cl_feeds c)(i := (cl_feeds c i)(j := ?fd'))"
  obtain w where w: "sv_workers (cl_servers c i) j = Some w"
    using assms(1,4,5) unfolding cluster_inv_def servers_inv_def by blast
  note o = inv_next_observation [OF assms(1,2,4,5) w assms(6)]
  obtain hist where "view_inv n f ?ms (\<lambda>i. cl_feeds c i j) (cl_subs c j) hist"
    using assms(1,5) by (auto simp: cluster_inv_def views_inv_def)
  note v = view_observe [OF this assms(4,3) refl o(2,3) assms(7,8) [unfolded o(1)]]
  obtain hist' where "view_inv n f ?ms ((\<lambda>i. cl_feeds c i j)(i := ?fd')) s hist'"
    using v(1) by blast
  then have "views_inv n m f ?ms ?fds ((cl_subs c)(j := s))"
    by (rule views_inv_observe [rotated]) (use assms(1) in \<open>simp add: cluster_inv_def\<close>)
  moreover have "servers_inv n m ?ms (cl_links c) (cl_servers c) ?fds"
    by (rule servers_inv_feed_only [where svs = "cl_servers c" and i = i and j = j, OF _ w o(4)])
      (use assms(1) in \<open>simp add: cluster_inv_def\<close>)
  moreover have "feed_back ?ms w ?fd' (subscriber_ack (cl_subs c j))"
    using feed_back_observe [OF inv_feeds [OF assms(1,4,5) w] o(2)] by (simp add: v(3))
  then have "feeds_inv n m ?ms (cl_servers c) ?fds (cl_subs c)"
    by (rule feeds_inv_feed [where svs = "cl_servers c" and subs = "cl_subs c" and i = i and j = j, OF _ w, rotated])
      (use assms(1) in \<open>simp add: cluster_inv_def\<close>)
  then have "feeds_inv n m ?ms (cl_servers c) ?fds ((cl_subs c)(j := s))"
    by (rule feeds_inv_subs) (rule v(2))
  ultimately show ?thesis
    using assms(1) by (simp add: cluster_inv_def subscriber_takes_def Let_def del: fun_upd_apply)
qed

lemma inv_step:
  assumes "cluster_step n m c c'" and "cluster_inv n m f c" and "admissible c" and "n \<le> 2 ^ 32"
  shows "cluster_inv n m f c'"
  using assms
proof (induction rule: cluster_step.induct)
  case (cs_epoch c ts e sent px)
  then have "proxy_inv n f (cl_batches c) Resting sent px \<and> px_replicator px = cl_replicator c"
    using proxy_inv_epoch [OF _ cs_epoch.hyps(3)] by (auto simp: cluster_inv_def)
  with cs_epoch show ?case by (simp add: cluster_inv_def)
next
  case (cs_drain c k ks r b)
  then have "proxy_inv n f (cl_batches c) (Drained k r) ks ((cl_proxy c)\<lparr>px_buffer := b\<rparr>)"
    using proxy_inv_drain by (auto simp: cluster_inv_def)
  with cs_drain show ?case by (intro inv_proxy) simp_all
next
  case (cs_build c k r)
  then have "proxy_inv n f (cl_batches c) (Built r (batch_image (cl_proxy c) k r (px_buffer (cl_proxy c)))
      (next_batch (cl_proxy c) k r (px_buffer (cl_proxy c)))) (cl_due c) (cl_proxy c)"
    using proxy_inv_build by (auto simp: cluster_inv_def)
  with cs_build show ?case using inv_proxy by fastforce
next
  case (cs_release c r wire e)
  then have "proxy_inv n f (cl_batches c) (Released r wire e) (cl_due c)
      ((cl_proxy c)\<lparr>px_buffer := release (sent_length r) (px_buffer (cl_proxy c))\<rparr>)"
    using proxy_inv_release by (auto simp: cluster_inv_def)
  with cs_release show ?case using inv_proxy by fastforce
next
  case (cs_client client z u c mem base msg_len out px go)
  then have "proxy_inv n f (cl_batches c) (cl_phase c) (cl_due c) px \<and> px_replicator px = cl_replicator c"
    using proxy_inv_client [OF _ cs_client.hyps] by (auto simp: cluster_inv_def)
  with cs_client show ?case using inv_proxy by fastforce
next
  case (cs_leave c client)
  then have "proxy_inv n f (cl_batches c) (cl_phase c) (cl_due c) (close_client client (cl_proxy c))"
    using proxy_inv_leave by (simp add: cluster_inv_def)
  with cs_leave show ?case by (simp add: cluster_inv_def close_client_def)
next
  case (cs_enough c r)
  then show ?case by (intro inv_answer [OF _ cs_enough.hyps(1)]) simp_all
next
  case (cs_gone c r)
  then show ?case by (intro inv_answer [OF _ cs_gone.hyps(1)]) simp_all
next
  case (cs_short c r)
  then have "proxy_inv n f (cl_batches c) (Awaiting r True) (cl_due c) (cl_proxy c)"
    using proxy_inv_turn(1) by (fastforce simp: cluster_inv_def)
  with cs_short show ?case using inv_proxy by fastforce
next
  case (cs_again c r)
  then have "proxy_inv n f (cl_batches c) (Awaiting r False) (cl_due c) (cl_proxy c)"
    using proxy_inv_turn(1) by (fastforce simp: cluster_inv_def)
  with cs_again show ?case using inv_proxy by fastforce
next
  case (cs_store i c body mem p out sv)
  then show ?case using inv_store_facts(2) by blast
next
  case (cs_forwarded i j c w sock a evs w')
  then show ?case using inv_forwarded by blast
next
  case (cs_unreachable i j c w sock a evs w')
  then show ?case using inv_unreachable by blast
next
  case (cs_observe i j c body mem p out s)
  then show ?case using inv_observe by blast
qed (auto simp: inv_submit inv_connect inv_take inv_send inv_answered inv_forward; simp add: cluster_inv_def)+

end
