(* ===== verification/Cluster_Progress.thy ===== *)
theory Cluster_Progress
  imports Cluster_Invariant
begin

text \<open>
  The refinement of the abstract log by the cluster, and that it is not blocked: a quorum of servers whose
  connections work can finish any batch and show it to a subscriber.
\<close>

section \<open>Reachable clusters\<close>

lemma start_from_workers:
  "start_from i k junk b = Inr b' \<Longrightarrow> b' j = (if i \<le> j \<and> j < i + k then Some (new_bworker junk) else b j)"
proof (induction k arbitrary: i b)
  case (Suc k)
  then obtain b1 where "add_subscriber i junk b = Inr b1" "start_from (i + 1) k junk b1 = Inr b'"
    by (auto simp: bind_res_eq_Inr)
  moreover from this(1) have "b1 = b(i \<mapsto> new_bworker junk)"
    by (auto simp: add_subscriber_def require_eq_Inr)
  ultimately have "b' j = (if i + 1 \<le> j \<and> j < i + 1 + k then Some (new_bworker junk) else (b(i \<mapsto> new_bworker junk)) j)"
    using Suc.IH by blast
  then show ?case by auto
qed auto

lemma new_server_inv:
  assumes "new_server sh (of_nat i) duration proxies m junk = Inr sv"
  shows "server_inv [] 0 i sv" and "j < m \<Longrightarrow> sv_workers sv j = Some (new_bworker junk)"
proof -
  obtain w where w: "start_broadcaster m junk = Inr w"
    "sv = \<lparr>sv_shard = sh, sv_id = of_nat i, sv_store = Map.empty, sv_liveness = new_liveness (duration * 5) proxies 0,
       sv_workers = w\<rparr>"
    using assms by (auto simp: new_server_def map_res_def bind_res_eq_Inr)
  then show "server_inv [] 0 i sv"
    by (simp add: server_inv_def server_ok_def is_blocked_def new_liveness_def even_timeouts_def)
  show "j < m \<Longrightarrow> sv_workers sv j = Some (new_bworker junk)"
    using start_from_workers [of 0 m junk Map.empty w j] w by (simp add: start_broadcaster_def)
qed

lemma inv_start:
  assumes px: "construct_known (new_proxy sh i addr history duration n f junk) = Inr px" and junk: "length junk = CAPACITY"
    and svs: "\<forall>k < n. new_server sh (of_nat k) duration proxies m junk = Inr (svs k)"
    and subs: "\<forall>j < m. \<exists>clock. subs j = new_subscriber sh (of_nat j) f clock \<and> (\<forall>t \<in> set clock. unat t < 2 ^ 63)"
  shows "cluster_inv n m f (start_cluster px svs subs)"
proof -
  obtain tm where tm: "px = (new_proxy sh i addr history duration n f junk)\<lparr>px_timer := tm\<rparr>"
    using px by (auto simp: construct_known_def map_res_def bind_res_eq_Inr)
  have rp: "px_replicator px = start_replicator n (f + 1) junk"
    by (simp add: tm new_proxy_def)
  have "proxy_inv n f [] Resting [] px"
    using rp_inv_start [of n "f + 1" junk]
    by (simp add: proxy_inv_def rp) (simp add: tm new_proxy_def start_replicator_def exI [of _ 0])
  moreover have "links_inv n [] (rp_workers (px_replicator px)) (cl_links (start_cluster px svs subs)) svs"
    using rb_inv_fresh [OF junk]
    by (simp add: links_inv_def rp start_replicator_def new_worker_def start_cluster_def link_sent_def link_handled_def
        link_back_def pending_def available_def fresh_buffer_def)
  moreover have "servers_inv n m [] (cl_links (start_cluster px svs subs)) svs (cl_feeds (start_cluster px svs subs))"
    using svs new_server_inv
    by (auto simp: servers_inv_def start_cluster_def handled_def feed_inv_def new_bworker_def)
  moreover have "feeds_inv n m [] svs (cl_feeds (start_cluster px svs subs)) subs"
  proof -
    have "feed_back [] (new_bworker junk) (cl_feeds (start_cluster px svs subs) i j) ack" for i j ack
      using rb_inv_fresh [OF junk]
      by (simp add: start_cluster_def feed_back_def new_bworker_def pending_def available_def fresh_buffer_def)
    then show ?thesis
      using svs new_server_inv(2) unfolding feeds_inv_def by (metis option.inject)
  qed
  moreover have "views_inv n m f [] (cl_feeds (start_cluster px svs subs)) subs"
  proof -
    have "view_inv n f [] (\<lambda>i. cl_feeds (start_cluster px svs subs) i j) (subs j) []" if "j < m" for j
      using subs that by (auto simp: view_inv_def subscriber_inv_def new_subscriber_def numbered_def sane_def received_def)
    then show ?thesis by (auto simp: views_inv_def)
  qed
  ultimately show ?thesis
    by (simp add: cluster_inv_def start_cluster_def answers_inv_def)
qed

lemma batches_grow: "cluster_step n m c c' \<Longrightarrow> prefix (cl_batches c) (cl_batches c')"
  by (induction rule: cluster_step.induct)
    (auto simp: answer_batch_def send_image_def finish_image_def server_takes_def forward_image_def finish_forward_def
      subscriber_takes_def Let_def)

lemma admissible_before: "cluster_step n m c c' \<Longrightarrow> admissible c' \<Longrightarrow> admissible c"
  using batches_grow [of n m c c'] by (auto simp: admissible_def prefix_def)

lemma inv_reachable: "cluster_reachable n m f c \<Longrightarrow> admissible c \<Longrightarrow> n \<le> 2 ^ 32 \<Longrightarrow> cluster_inv n m f c"
proof (induction rule: cluster_reachable.induct)
  case (cr_start sh i addr history duration junk px proxies svs subs)
  then show ?case by (intro inv_start)
next
  case (cr_step c c')
  then show ?case using inv_step admissible_before by blast
qed

section \<open>The refinement\<close>

lemma ackers_hold:
  assumes "cluster_inv n m f c"
  shows "ackers k (cl_replicator c) \<subseteq> holders n k (abstract_log c)"
proof
  fix i assume i: "i \<in> ackers k (cl_replicator c)"
  have "length (rp_workers (cl_replicator c)) = n"
    using assms by (simp add: cluster_inv_def proxy_inv_def)
  with i have "i < n" "k < w_acked (rp_workers (cl_replicator c) ! i)"
    by (simp_all add: ackers_def)
  with inv_links(3) [OF assms, of i] show "i \<in> holders n k (abstract_log c)"
    by (simp add: link_back_def holders_def abstract_log_def)
qed

lemma finite_holders [simp]: "finite (holders n k rl)"
  by (simp add: holders_def)

lemma answers_held:
  assumes "cluster_inv n m f c" and "(k, True, resp) \<in> set (cl_answers c)"
  shows "k < length (cl_batches c)" and "f + 1 \<le> card (holders n k (abstract_log c))"
proof -
  have a: "k < length (cl_batches c) \<and> f + 1 \<le> card (ackers k (cl_replicator c))"
    using assms by (auto simp: cluster_inv_def answers_inv_def)
  then show "k < length (cl_batches c)" by simp
  have "card (ackers k (cl_replicator c)) \<le> card (holders n k (abstract_log c))"
    by (intro card_mono ackers_hold [OF assms(1)]) simp
  with a show "f + 1 \<le> card (holders n k (abstract_log c))" by simp
qed

text \<open>A subscriber's log in a state of the invariant.\<close>

lemma inv_views:
  assumes "cluster_inv n m f c" and "admissible c" and "n \<le> 2 ^ 32" and "j < m"
  obtains h where "view_inv n f (cl_batches c) (\<lambda>i. cl_feeds c i j) (cl_subs c j) h"
    "consecutive (cl_batches c)" "length (cl_batches c) < 2 ^ 64"
    "\<forall>i < n. length (fd_seen (cl_feeds c i j)) \<le> length (cl_batches c)"
proof -
  have "consecutive (cl_batches c)" "length (cl_batches c) < 2 ^ 64"
    using assms(1,2) proxy_inv_consecutive by (auto simp: cluster_inv_def admissible_def)
  moreover have "servers_inv n m (cl_batches c) (cl_links c) (cl_servers c) (cl_feeds c)"
    using assms(1) by (simp add: cluster_inv_def)
  then have "\<forall>i < n. length (fd_seen (cl_feeds c i j)) \<le> length (cl_batches c)"
    using servers_inv_seen assms(4) le_trans by blast
  moreover obtain h where "view_inv n f (cl_batches c) (\<lambda>i. cl_feeds c i j) (cl_subs c j) h"
    using assms(1,4) by (auto simp: cluster_inv_def views_inv_def)
  ultimately show thesis using that by blast
qed

lemma seen_held:
  assumes "cluster_inv n m f c" and "j < m"
  shows "{i. i < n \<and> k < length (fd_seen (cl_feeds c i j))} \<subseteq> holders n k (abstract_log c)"
proof -
  have "servers_inv n m (cl_batches c) (cl_links c) (cl_servers c) (cl_feeds c)"
    using assms(1) by (simp add: cluster_inv_def)
  then show ?thesis
    using servers_inv_seen assms(2) by (fastforce simp: holders_def abstract_log_def handled_def)
qed

lemma shown_held:
  assumes "cluster_inv n m f c" and "admissible c" and "n \<le> 2 ^ 32" and "j < m"
  shows "log_entries (sub_log (cl_subs c j)) = [] # take (shown j c) (rl_log (abstract_log c))"
    and "shown j c \<le> length (cl_batches c)"
    and "k < shown j c \<Longrightarrow> f + 1 \<le> card (holders n k (abstract_log c))"
proof -
  obtain h where v: "view_inv n f (cl_batches c) (\<lambda>i. cl_feeds c i j) (cl_subs c j) h"
    "consecutive (cl_batches c)" "length (cl_batches c) < 2 ^ 64"
    "\<forall>i < n. length (fd_seen (cl_feeds c i j)) \<le> length (cl_batches c)"
    using inv_views [OF assms] by blast
  note log = view_log [OF v(1-3) assms(3) v(4)]
  show "log_entries (sub_log (cl_subs c j)) = [] # take (shown j c) (rl_log (abstract_log c))"
    using log(1) by (simp add: abstract_log_def shown_def)
  show "shown j c \<le> length (cl_batches c)"
    using log(2) by (simp add: shown_def)
  assume "k < shown j c"
  then have "f + 1 \<le> card {i. i < n \<and> k < length (fd_seen (cl_feeds c i j))}"
    using log(3) by (simp add: shown_def)
  also have "\<dots> \<le> card (holders n k (abstract_log c))"
    by (intro card_mono seen_held [OF assms(1,4)]) simp
  finally show "f + 1 \<le> card (holders n k (abstract_log c))" .
qed

lemma abstract_log_eq:
  assumes "cl_batches c' = cl_batches c" and "\<And>i. lk_handled (cl_links c' i) = lk_handled (cl_links c i)"
    and "cl_subs c' = cl_subs c" and "cl_answers c' = cl_answers c"
  shows "log_step n m q (abstract_log c) (abstract_log c')"
proof -
  have "abstract_log c' = abstract_log c"
    using assms by (simp add: abstract_log_def shown_def)
  then show ?thesis by (simp add: ls_stutter)
qed

lemma refine_answer:
  assumes "cluster_inv n m f c" and "cl_phase c = Awaiting r t" and "cluster_inv n m f (answer_batch ok r c)"
  shows "log_step n m (f + 1) (abstract_log c) (abstract_log (answer_batch ok r c))"
proof -
  let ?k = "length (cl_batches c) - 1"
  have k: "?k < length (rl_log (abstract_log c))"
    using assms(1,2) by (simp add: cluster_inv_def proxy_inv_def abstract_log_def)
  have "(?k, ok, batch_responses ok r (cl_proxy c)) \<in> set (cl_answers (answer_batch ok r c))"
    by (simp add: answer_batch_def)
  moreover have "abstract_log (answer_batch ok r c) = (abstract_log c)\<lparr>rl_answers := rl_answers (abstract_log c) @ [(?k, ok)]\<rparr>"
    by (simp add: abstract_log_def answer_batch_def shown_def)
  moreover from this have "holders n ?k (abstract_log (answer_batch ok r c)) = holders n ?k (abstract_log c)"
    by (simp add: holders_def)
  ultimately show ?thesis
    using ls_answer [OF k] answers_held(2) [OF assms(3)] by (metis (full_types))
qed

lemma refine_store:
  assumes "handled (cl_links c) i < length (cl_batches c)" and "i < n"
  shows "log_step n m q (abstract_log c) (abstract_log (server_takes i body out sv c))"
proof -
  have "abstract_log (server_takes i body out sv c) =
      (abstract_log c)\<lparr>rl_copies := (rl_copies (abstract_log c))(i := rl_copies (abstract_log c) i + 1)\<rparr>"
    by (auto simp: abstract_log_def server_takes_def shown_def Let_def fun_eq_iff)
  moreover have "rl_copies (abstract_log c) i < length (rl_log (abstract_log c))"
    using assms(1) by (simp add: abstract_log_def handled_def)
  ultimately show ?thesis using ls_copy [OF assms(2)] by simp
qed

lemma refine_observe:
  assumes "cluster_inv n m f c" and "cluster_inv n m f (subscriber_takes i j body out s c)" and "admissible c"
    and "n \<le> 2 ^ 32" and "i < n" and "j < m"
  shows "log_step n m (f + 1) (abstract_log c) (abstract_log (subscriber_takes i j body out s c))"
proof -
  let ?c = "subscriber_takes i j body out s c"
  have same: "cl_batches ?c = cl_batches c" "cl_links ?c = cl_links c" "cl_answers ?c = cl_answers c"
    by (simp_all add: subscriber_takes_def Let_def)
  have adm: "admissible ?c" using assms(3) by (simp add: admissible_def same)
  obtain h where v: "view_inv n f (cl_batches c) (\<lambda>i. cl_feeds c i j) (cl_subs c j) h"
    "consecutive (cl_batches c)" "length (cl_batches c) < 2 ^ 64"
    using inv_views [OF assms(1,3,4,6)] by blast
  obtain h' where v': "view_inv n f (cl_batches c) (\<lambda>i. cl_feeds ?c i j) (cl_subs ?c j) h'"
    "\<forall>i < n. length (fd_seen (cl_feeds ?c i j)) \<le> length (cl_batches c)"
    using inv_views [OF assms(2) adm assms(4,6)] same(1) by metis
  have "length (fd_seen (cl_feeds c k j)) \<le> length (fd_seen (cl_feeds ?c k j))" for k
    by (simp add: subscriber_takes_def Let_def)
  then have mono: "shown j c \<le> shown j ?c"
    using view_monotone [OF v(1) v'(1) v(2,3) assms(4) _ v'(2)] by (simp add: shown_def)
  note s = shown_held [OF assms(2) adm assms(4,6)]
  have hold: "holders n k (abstract_log ?c) = holders n k (abstract_log c)" for k
    by (simp add: holders_def abstract_log_def same)
  have "abstract_log ?c = (abstract_log c)\<lparr>rl_views := (rl_views (abstract_log c))(j := shown j ?c)\<rparr>"
    by (auto simp: abstract_log_def same fun_eq_iff) (simp add: shown_def subscriber_takes_def Let_def)
  moreover have "rl_views (abstract_log c) j \<le> shown j ?c" "shown j ?c \<le> length (rl_log (abstract_log c))"
    using mono s(2) by (simp_all add: abstract_log_def same)
  moreover have "\<forall>k < shown j ?c. f + 1 \<le> card (holders n k (abstract_log c))"
    using s(3) unfolding hold by blast
  ultimately show ?thesis using ls_learn [OF assms(6)] by metis
qed

lemma step_refines:
  assumes "cluster_step n m c c'" and "cluster_inv n m f c" and "cluster_inv n m f c'" and "admissible c" and "n \<le> 2 ^ 32"
  shows "log_step n m (f + 1) (abstract_log c) (abstract_log c')"
  using assms
proof (induction rule: cluster_step.induct)
  case (cs_submit c r wire e)
  then show ?case
    using ls_append [of n m "f + 1" "abstract_log c" "payload (log_data e)"]
    by (simp add: abstract_log_def shown_def)
next
  case (cs_enough c r)
  then show ?case by (intro refine_answer [OF _ cs_enough.hyps(1)]) simp_all
next
  case (cs_gone c r)
  then show ?case by (intro refine_answer [OF _ cs_gone.hyps(1)]) simp_all
next
  case (cs_store i c body mem p out sv)
  then show ?case using inv_store_facts(1) refine_store by blast
next
  case (cs_observe i j c body mem p out s)
  then show ?case using refine_observe by blast
qed (rule abstract_log_eq; simp add: send_image_def finish_image_def forward_image_def finish_forward_def Let_def)+

section \<open>What the cluster can do\<close>

lemma inv_steps:
  "(cluster_step n m)\<^sup>*\<^sup>* c c' \<Longrightarrow> cluster_inv n m f c \<Longrightarrow> admissible c' \<Longrightarrow> n \<le> 2 ^ 32 \<Longrightarrow> cluster_inv n m f c'"
proof (induction rule: rtranclp_induct)
  case (step y z)
  then show ?case using inv_step admissible_before by blast
qed simp

text \<open>A worker of a server that runs, with no send under way that will be cut short.\<close>

definition feeding :: "nat \<Rightarrow> nat \<Rightarrow> cluster \<Rightarrow> bool" where
  "feeding i j c \<longleftrightarrow> (\<exists>w. sv_workers (cl_servers c i) j = Some w \<and> \<not> bw_shutdown w \<and>
    (\<forall>sock a. fd_sending (cl_feeds c i j) = Some (sock, a) \<longrightarrow> a = int (length (hd (bw_queue w)))))"

text \<open>Steps that concern the links of \<open>S\<close> alone.\<close>

definition links_run :: "nat \<Rightarrow> nat \<Rightarrow> nat set \<Rightarrow> cluster \<Rightarrow> cluster \<Rightarrow> bool" where
  "links_run n m S c c' \<longleftrightarrow> (cluster_step n m)\<^sup>*\<^sup>* c c' \<and>
    (\<exists>rp. cl_proxy c' = (cl_proxy c)\<lparr>px_replicator := rp\<rparr>) \<and>
    cl_batches c' = cl_batches c \<and> cl_due c' = cl_due c \<and> cl_phase c' = cl_phase c \<and>
    cl_answers c' = cl_answers c \<and> cl_feeds c' = cl_feeds c \<and> cl_subs c' = cl_subs c \<and>
    (\<forall>k. k \<notin> S \<longrightarrow> rp_workers (cl_replicator c') ! k = rp_workers (cl_replicator c) ! k \<and>
      cl_links c' k = cl_links c k \<and> cl_servers c' k = cl_servers c k) \<and>
    (\<forall>k < n. \<forall>j < m. feeding k j c \<longrightarrow> feeding k j c')"

lemma links_run_refl: "links_run n m S c c"
  by (auto simp: links_run_def intro!: exI [of _ "cl_replicator c"])

lemma links_run_trans: "links_run n m S c c' \<Longrightarrow> links_run n m S c' c'' \<Longrightarrow> links_run n m S c c''"
  by (auto simp: links_run_def)

lemma links_run_inv:
  assumes "links_run n m S c c'" and "cluster_inv n m f c" and "admissible c" and "n \<le> 2 ^ 32"
  shows "cluster_inv n m f c'" and "admissible c'"
proof -
  show "admissible c'" using assms(1,3) by (simp add: admissible_def links_run_def)
  then show "cluster_inv n m f c'" using assms inv_steps unfolding links_run_def by blast
qed

abbreviation worker_of :: "cluster \<Rightarrow> nat \<Rightarrow> worker" where
  "worker_of c i \<equiv> rp_workers (cl_replicator c) ! i"

text \<open>A worker that runs, with no send under way that will be cut short.\<close>

definition healthy :: "nat \<Rightarrow> cluster \<Rightarrow> bool" where
  "healthy i c \<longleftrightarrow> \<not> w_exited (worker_of c i) \<and> \<not> w_shutdown (worker_of c i) \<and>
    (\<forall>a. lk_sending (cl_links c i) = Some a \<longrightarrow> a = int (length (fst (hd (w_queue (worker_of c i))))))"

lemma queue_of:
  assumes "cluster_inv n m f c" and "i < n" and "healthy i c" and "w_acked (worker_of c i) < length (cl_batches c)"
  shows "w_queue (worker_of c i) \<noteq> []"
    and "fst (hd (w_queue (worker_of c i))) = frame (log_body (cl_batches c ! w_acked (worker_of c i)))"
proof -
  let ?w = "worker_of c i"
  note q = worker_queue [OF inv_links(5) [OF assms(1,2)]]
  have q: "map fst (w_queue ?w) = drop (w_acked ?w) (map (frame \<circ> log_body) (cl_batches c))"
    using q(1) assms(3) by (simp add: healthy_def)
  with assms(4) show ne: "w_queue ?w \<noteq> []" by auto
  have "fst (hd (w_queue ?w)) = hd (map fst (w_queue ?w))" using ne by (simp add: hd_map)
  also have "\<dots> = frame (log_body (cl_batches c ! w_acked ?w))"
    using assms(4) by (simp add: q hd_drop_conv_nth)
  finally show "fst (hd (w_queue ?w)) = frame (log_body (cl_batches c ! w_acked ?w))" .
qed

lemma run_busy:
  assumes "cluster_inv n m f c" and "i < n" and "healthy i c" and "w_queue (worker_of c i) \<noteq> []"
  shows "\<exists>c'. links_run n m {i} c c' \<and> healthy i c' \<and> w_acked (worker_of c' i) = w_acked (worker_of c i) \<and> w_busy (worker_of c' i)"
proof (cases "w_busy (worker_of c i)")
  case True
  with assms links_run_refl show ?thesis by blast
next
  case False
  let ?connect = "\<lambda>c. c\<lparr>cl_proxy := (cl_proxy c)\<lparr>px_replicator := connect_worker i (cl_replicator c)\<rparr>\<rparr>"
  let ?take = "\<lambda>c. c\<lparr>cl_proxy := (cl_proxy c)\<lparr>px_replicator := take_item i (cl_replicator c)\<rparr>\<rparr>"
  note len = inv_links(4) [OF assms(1,2)]
  define c1 where "c1 = (if w_connected (worker_of c i) then c else ?connect c)"
  have up: "\<not> w_exited (worker_of c i)" "\<not> w_shutdown (worker_of c i)"
    using assms(3) by (simp_all add: healthy_def)
  have "(cluster_step n m)\<^sup>*\<^sup>* c c1"
    using cs_connect [OF assms(2) refl _ up, of m] by (simp add: c1_def r_into_rtranclp)
  moreover have c1: "w_connected (worker_of c1 i)" "\<not> w_exited (worker_of c1 i)" "\<not> w_shutdown (worker_of c1 i)"
    "\<not> w_busy (worker_of c1 i)" "w_queue (worker_of c1 i) \<noteq> []"
    using len up False assms(4) by (simp_all add: c1_def connect_worker_def)
  then have "cluster_step n m c1 (?take c1)"
    by (rule cs_take [OF assms(2) refl])
  ultimately have "(cluster_step n m)\<^sup>*\<^sup>* c (?take c1)"
    by (rule rtranclp.rtrancl_into_rtrancl)
  then have "links_run n m {i} c (?take c1)"
    by (auto simp: links_run_def feeding_def c1_def take_item_def connect_worker_def)
  moreover have "healthy i (?take c1) \<and> w_acked (worker_of (?take c1) i) = w_acked (worker_of c i) \<and> w_busy (worker_of (?take c1) i)"
    using len assms(3) by (simp add: healthy_def c1_def take_item_def connect_worker_def)
  ultimately show ?thesis by blast
qed

lemma run_sending:
  assumes "cluster_inv n m f c" and "i < n" and "healthy i c" and "w_queue (worker_of c i) \<noteq> []" and "w_busy (worker_of c i)"
  shows "\<exists>c'. links_run n m {i} c c' \<and> healthy i c' \<and> w_acked (worker_of c' i) = w_acked (worker_of c i) \<and>
    lk_sending (cl_links c' i) = Some (int (length (fst (hd (w_queue (worker_of c' i))))))"
proof (cases "lk_sending (cl_links c i)")
  case (Some a)
  then have "lk_sending (cl_links c i) = Some (int (length (fst (hd (w_queue (worker_of c i))))))"
    using assms(3) by (simp add: healthy_def)
  with assms(3) links_run_refl show ?thesis by blast
next
  case None
  let ?c = "send_image i (int (length (fst (hd (w_queue (worker_of c i)))))) c"
  have "cluster_step n m c ?c"
    using assms None by (intro cs_send [OF assms(2) refl]) (simp_all add: healthy_def)
  then have "links_run n m {i} c ?c"
    by (auto simp: links_run_def feeding_def send_image_def Let_def intro!: exI [of _ "cl_replicator c"])
  moreover have "healthy i ?c \<and> w_acked (worker_of ?c i) = w_acked (worker_of c i) \<and>
    lk_sending (cl_links ?c i) = Some (int (length (fst (hd (w_queue (worker_of ?c i))))))"
    using assms(3) by (simp add: healthy_def send_image_def Let_def)
  ultimately show ?thesis by blast
qed

lemma framed_at_self: "framed_at (frame body) 0 body"
  by (simp add: framed_at_def chunk_def)

lemma run_stored:
  assumes inv: "cluster_inv n m f c" and adm: "admissible c" and i: "i < n" and "healthy i c"
    and k: "w_acked (worker_of c i) < length (cl_batches c)"
    and sending: "lk_sending (cl_links c i) = Some (int (length (fst (hd (w_queue (worker_of c i))))))"
  shows "\<exists>c'. links_run n m {i} c c' \<and> healthy i c' \<and> worker_of c' i = worker_of c i \<and>
    lk_sending (cl_links c' i) = lk_sending (cl_links c i) \<and> w_acked (worker_of c i) < handled (cl_links c') i"
proof (cases "w_acked (worker_of c i) < handled (cl_links c) i")
  case True
  with assms(4) links_run_refl show ?thesis by blast
next
  case False
  let ?w = "worker_of c i" and ?lk = "cl_links c i" and ?ms = "cl_batches c"
  define e where "e = ?ms ! w_acked ?w"
  note l = inv_links [OF inv i]
  have h: "handled (cl_links c) i = w_acked ?w"
    using False l(3) by (simp add: link_back_def handled_def)
  have ok: "sized e" "typed e"
    using k adm typed_batches [OF inv] by (simp_all add: e_def admissible_def)
  have img: "fst (hd (w_queue ?w)) = frame (log_body e)"
    using queue_of(2) [OF inv i assms(4) k] by (simp add: e_def)
  have "hd (map fst (w_queue ?w)) = frame (log_body e)"
    using queue_of(1) [OF inv i assms(4) k] img by (simp add: hd_map)
  then have "lk_wire ?lk = w_out ?w @ frame (log_body e)"
    using l(1) assms(4) sending img by (simp add: link_sent_def healthy_def in_flight_def send_bytes_raw_def)
  moreover have "w_out ?w = framed (lk_handled ?lk)"
    using worker_queue(2) [OF l(5)] assms(4) l(2) h by (simp add: healthy_def link_handled_def handled_def)
  ultimately have body: "next_body (lk_handled ?lk) (lk_wire ?lk) (log_body e)"
    using sized_body [OF ok(1)] by (simp add: next_body_def)
  obtain t sh sd q d where e': "e = (t, sh, sd, q, d)" by (rule prod_cases5)
  have "server_ok (cl_servers c i)"
    using inv_servers(1) [OF inv i] by (simp add: server_inv_def)
  then obtain out sv where sv: "server_handle (cl_servers c i) (frame (log_body e)) (0 + 2) (length (log_body e)) = Inr (out, sv, True)"
    using server_handle_body [of 0 t sh sd q d "frame (log_body e)"] entry_ok_sized [OF ok] framed_at_self [of "log_body e"]
    by (cases "server_entry e (cl_servers c i)") (auto simp: e' framed_at_def)
  let ?c = "server_takes i (log_body e) out sv c"
  have "cluster_step n m c ?c"
    by (rule cs_store [OF i body framed_at_self sv])
  moreover have "feeding k j c \<Longrightarrow> feeding k j ?c" if "j < m" for k j
  proof (cases "k = i")
    case True
    assume f: "feeding k j c"
    then obtain w where w: "sv_workers (cl_servers c i) j = Some w" "\<not> bw_shutdown w"
      "\<forall>sock a. fd_sending (cl_feeds c i j) = Some (sock, a) \<longrightarrow> a = int (length (hd (bw_queue w)))"
      by (auto simp: feeding_def True)
    have "fd_sending (cl_feeds c i j) \<noteq> None \<longrightarrow> bw_queue w \<noteq> []"
      using inv_servers(3) [OF inv i that w(1)] by (simp add: feed_inv_def)
    moreover have "sv_workers sv j = Some (w\<lparr>bw_queue := bw_queue w @ [forwarded (cl_servers c i) e]\<rparr>)"
      using server_takes_entry(4) [OF inv_servers(1) [OF inv i], of "frame (log_body e)" 0 out sv j] sv ok k h w(1) framed_at_self [of "log_body e"]
      by (simp add: e_def)
    ultimately show ?thesis
      using w(2,3) by (auto simp: True feeding_def server_takes_def Let_def)
  qed (simp add: feeding_def server_takes_def Let_def)
  ultimately have "links_run n m {i} c ?c"
    by (auto simp: links_run_def server_takes_def Let_def intro!: exI [of _ "cl_replicator c"])
  moreover have "healthy i ?c \<and> worker_of ?c i = ?w \<and> lk_sending (cl_links ?c i) = lk_sending ?lk \<and>
      w_acked ?w < handled (cl_links ?c) i"
    using assms(4) h by (simp add: healthy_def server_takes_def Let_def handled_def)
  ultimately show ?thesis by blast
qed

lemma events_for: "prefix (pending rb) xs \<Longrightarrow> \<exists>evs. proper evs \<and> stream rb evs = xs"
  by (auto simp: prefix_def stream_def intro!: exI [of _ "unread_event _ []"]) (simp add: proper_def)

lemma run_answered:
  assumes inv: "cluster_inv n m f c" and i: "i < n" and "healthy i c"
    and k: "w_acked (worker_of c i) < handled (cl_links c) i"
    and sending: "lk_sending (cl_links c i) = Some (int (length (fst (hd (w_queue (worker_of c i))))))"
  shows "\<exists>c'. links_run n m {i} c c' \<and> healthy i c' \<and> w_acked (worker_of c' i) = Suc (w_acked (worker_of c i))"
proof -
  let ?w = "worker_of c i" and ?lk = "cl_links c i" and ?sv = "cl_servers c i"
  let ?as = "drop (w_acked ?w) (lk_answers ?lk)" and ?wire = "fst (hd (w_queue ?w))"
  note l = inv_links [OF inv i]
  have up: "\<not> w_exited ?w" "\<not> w_shutdown ?w" using assms(3) by (simp_all add: healthy_def)
  then have rb: "rb_inv (w_rb ?w)" "prefix (pending (w_rb ?w)) (concat ?as)"
    using l(3) by (simp_all add: link_back_def)
  then obtain evs where evs: "proper evs" "stream (w_rb ?w) evs = concat ?as"
    using events_for by blast
  define b where "b = cl_batches c ! w_acked ?w"
  define m' where "m' = build_message (code ACK) (sv_shard ?sv) (sv_id ?sv) (number b) [] []"
  have fit: "28 + length ([] :: byte list) \<le> MAX_MESSAGE_SIZE" "28 \<le> safe_body"
    by (simp_all add: MAX_MESSAGE_SIZE_def safe_body_eq)
  have m': "fits m'" "serialize m' = plain (code ACK) (sv_shard ?sv) (sv_id ?sv) (number b) []"
    using fit(1) serialize_is_plain [of "[]"] by (simp_all add: m'_def fits_def build_message_def)
  have "?as = server_ack ?sv (number b) # drop (Suc (w_acked ?w)) (lk_answers ?lk)"
    using l(2) k Cons_nth_drop_Suc [of "w_acked ?w" "lk_answers ?lk"] by (simp add: link_handled_def handled_def b_def)
  then have "stream (w_rb ?w) evs = frame (serialize m') @ concat (drop (Suc (w_acked ?w)) (lk_answers ?lk))"
    using evs(2) by (simp add: server_ack_frame m'(2))
  then obtain rb' evs' where "recv_message_buffered (w_rb ?w) evs = Some (Inr (Some m', rb', evs'))"
    using receive_message [OF rb(1) evs(1) _ m'(1)] m'(2) fit(2) by auto
  then have ex: "exchange (int (length ?wire)) ?wire (w_rb ?w) evs = Some (Inr (True, ?wire, rb'))"
    by (simp add: exchange_def send_bytes_raw_def)
  let ?c = "finish_image i True ?wire rb' c"
  have "cluster_step n m c ?c"
    by (rule cs_answered [OF i refl sending _ ex]) (simp add: evs(2))
  then have "links_run n m {i} c ?c"
    by (auto simp: links_run_def feeding_def finish_image_def serve_def Let_def)
  moreover have "healthy i ?c \<and> w_acked (worker_of ?c i) = Suc (w_acked ?w)"
    using up l(4) by (simp add: healthy_def finish_image_def serve_def finish_item_def Let_def)
  ultimately show ?thesis by blast
qed

lemma run_item:
  assumes "cluster_inv n m f c" and "admissible c" and "n \<le> 2 ^ 32" and "i < n" and "healthy i c"
    and "w_acked (worker_of c i) < length (cl_batches c)"
  shows "\<exists>c'. links_run n m {i} c c' \<and> healthy i c' \<and> w_acked (worker_of c' i) = Suc (w_acked (worker_of c i))"
proof -
  note inv = links_run_inv [OF _ _ _ assms(3)]
  obtain c1 where 1: "links_run n m {i} c c1" "healthy i c1" "w_acked (worker_of c1 i) = w_acked (worker_of c i)" "w_busy (worker_of c1 i)"
    using run_busy [OF assms(1,4,5) queue_of(1) [OF assms(1,4-6)]] by blast
  note i1 = inv [OF 1(1) assms(1,2)]
  have b1: "w_acked (worker_of c1 i) < length (cl_batches c1)"
    using 1(1,3) assms(6) by (simp add: links_run_def)
  obtain c2 where 2: "links_run n m {i} c1 c2" "healthy i c2" "w_acked (worker_of c2 i) = w_acked (worker_of c1 i)"
    "lk_sending (cl_links c2 i) = Some (int (length (fst (hd (w_queue (worker_of c2 i))))))"
    using run_sending [OF i1(1) assms(4) 1(2) queue_of(1) [OF i1(1) assms(4) 1(2) b1] 1(4)] by blast
  note i2 = inv [OF 2(1) i1]
  have b2: "w_acked (worker_of c2 i) < length (cl_batches c2)"
    using 2(1,3) b1 by (simp add: links_run_def)
  obtain c3 where 3: "links_run n m {i} c2 c3" "healthy i c3" "worker_of c3 i = worker_of c2 i"
    "lk_sending (cl_links c3 i) = lk_sending (cl_links c2 i)" "w_acked (worker_of c2 i) < handled (cl_links c3) i"
    using run_stored [OF i2 assms(4) 2(2) b2 2(4)] by blast
  note i3 = inv [OF 3(1) i2]
  obtain c4 where "links_run n m {i} c3 c4" "healthy i c4" "w_acked (worker_of c4 i) = Suc (w_acked (worker_of c3 i))"
    using run_answered [OF i3(1) assms(4) 3(2)] 2(4) 3(3-5) by auto
  then show ?thesis
    using links_run_trans 1(1,3) 2(1,3) 3(1,3) by metis
qed

lemma run_all_items:
  assumes "cluster_inv n m f c" and "admissible c" and "n \<le> 2 ^ 32" and "i < n" and "healthy i c"
  shows "\<exists>c'. links_run n m {i} c c' \<and> healthy i c' \<and> w_acked (worker_of c' i) = length (cl_batches c)"
  using assms
proof (induction "length (cl_batches c) - w_acked (worker_of c i)" arbitrary: c)
  case 0
  have "w_acked (worker_of c i) \<le> length (cl_batches c)"
    using inv_links(5) [OF "0.prems"(1,4)] by (simp add: worker_inv_def)
  with 0 links_run_refl show ?case by (metis diff_is_0_eq le_antisym)
next
  case (Suc x)
  then have "w_acked (worker_of c i) < length (cl_batches c)" by simp
  then obtain c1 where c1: "links_run n m {i} c c1" "healthy i c1" "w_acked (worker_of c1 i) = Suc (w_acked (worker_of c i))"
    using run_item [OF Suc.prems] by blast
  have same: "cl_batches c1 = cl_batches c" using c1(1) by (simp add: links_run_def)
  have "x = length (cl_batches c1) - w_acked (worker_of c1 i)"
    using Suc.hyps(2) c1(3) same by simp
  from Suc.hyps(1) [OF this links_run_inv [OF c1(1) Suc.prems(1-3)] Suc.prems(3,4) c1(2)] same obtain c2 where
    "links_run n m {i} c1 c2" "healthy i c2" "w_acked (worker_of c2 i) = length (cl_batches c)" by auto
  with c1(1) links_run_trans show ?case by blast
qed

text \<open>Every server of a set in turn.\<close>

lemma run_quorum:
  assumes "finite S" and "S \<subseteq> {..<n}" and "cluster_inv n m f c" and "admissible c" and "n \<le> 2 ^ 32" and "\<forall>i \<in> S. healthy i c"
  shows "\<exists>c'. links_run n m S c c' \<and> (\<forall>i \<in> S. w_acked (worker_of c' i) = length (cl_batches c) \<and> healthy i c')"
  using assms
proof (induction S rule: finite_induct)
  case empty
  have "links_run n m {} c c"
    by (auto simp: links_run_def intro!: exI [of _ "cl_replicator c"])
  then show ?case by blast
next
  case (insert i S)
  then obtain c1 where c1: "links_run n m S c c1" "\<forall>i \<in> S. w_acked (worker_of c1 i) = length (cl_batches c) \<and> healthy i c1"
    by auto
  have same: "cl_batches c1 = cl_batches c" "worker_of c1 i = worker_of c i" "cl_links c1 i = cl_links c i"
    using c1(1) insert.hyps(2) by (simp_all add: links_run_def)
  have adm: "admissible c1" using same(1) insert.prems(3) by (simp add: admissible_def)
  have "cluster_inv n m f c1"
    using c1(1) insert.prems(2,4) adm inv_steps unfolding links_run_def by blast
  moreover have "healthy i c1"
    using insert.prems(5) same by (simp add: healthy_def)
  ultimately obtain c2 where c2: "links_run n m {i} c1 c2" "w_acked (worker_of c2 i) = length (cl_batches c1)" "healthy i c2"
    using run_all_items [OF _ adm insert.prems(4), of m f i] insert.prems(1) by auto
  have "links_run n m (insert i S) c c2"
    using c1(1) c2(1) by (auto simp: links_run_def links_run_def)
  moreover have "w_acked (worker_of c2 k) = length (cl_batches c) \<and> healthy k c2" if "k \<in> insert i S" for k
  proof (cases "k = i")
    case False
    then have "worker_of c2 k = worker_of c1 k" "cl_links c2 k = cl_links c1 k"
      using c2(1) by (simp_all add: links_run_def)
    with c1(2) that False show ?thesis by (simp add: healthy_def)
  qed (use c2 same(1) in simp)
  ultimately show ?case by blast
qed

lemma feeding_answer: "feeding i j (answer_batch ok r c) = feeding i j c"
  by (simp add: feeding_def answer_batch_def)

lemma answer_soon:
  assumes "cl_phase c = Awaiting r turn" and "enough (length (cl_batches c) - 1) (cl_replicator c)" and "\<not> none_left (cl_replicator c)"
  shows "(cluster_step n m)\<^sup>*\<^sup>* c (answer_batch True r c)"
proof (cases turn)
  case False
  with assms have "cluster_step n m c (answer_batch True r c)" by (intro cs_enough) simp_all
  then show ?thesis by blast
next
  case True
  let ?c = "c\<lparr>cl_phase := Awaiting r False\<rparr>"
  have "cluster_step n m c ?c"
    using assms True by (intro cs_again) simp_all
  moreover have "cluster_step n m ?c (answer_batch True r ?c)"
    using assms(2) by (intro cs_enough) simp_all
  moreover have "answer_batch True r ?c = answer_batch True r c"
    by (simp add: answer_batch_def)
  ultimately show ?thesis
    by (metis converse_rtranclp_into_rtranclp r_into_rtranclp)
qed

lemma batch_can_succeed:
  assumes "cluster_inv n m f c" and "admissible c" and "n \<le> 2 ^ 32"
    and "S \<subseteq> {..<n}" and "f + 1 \<le> card S" and "\<forall>i \<in> S. healthy i c" and "cl_phase c = Awaiting r turn"
  shows "\<exists>c'. (cluster_step n m)\<^sup>*\<^sup>* c c' \<and> cl_phase c' = Resting \<and> cl_batches c' = cl_batches c \<and>
    (\<forall>i \<in> S. handled (cl_links c') i = length (cl_batches c)) \<and> (\<forall>i < n. \<forall>j < m. feeding i j c \<longrightarrow> feeding i j c') \<and>
    cl_answers c' = cl_answers c @ [(length (cl_batches c) - 1, True, batch_responses True r (cl_proxy c))]"
proof -
  have "finite S" using assms(4) finite_subset by blast
  then obtain c1 where c1: "links_run n m S c c1" "\<forall>i \<in> S. w_acked (worker_of c1 i) = length (cl_batches c)"
    and alive: "\<forall>i \<in> S. healthy i c1"
    using run_quorum [OF _ assms(4,1-3,6)] by blast
  let ?k = "length (cl_batches c) - 1"
  have same: "cl_batches c1 = cl_batches c" "cl_phase c1 = Awaiting r turn"
    using c1(1) assms(7) by (simp_all add: links_run_def)
  have "admissible c1" using same(1) assms(2) by (simp add: admissible_def)
  then have inv: "cluster_inv n m f c1"
    using c1(1) assms(1,3) inv_steps unfolding links_run_def by blast
  then have p: "rp_inv (cl_replicator c1)" "length (rp_workers (cl_replicator c1)) = n" "rp_quorum (cl_replicator c1) = f + 1"
    by (simp_all add: cluster_inv_def proxy_inv_def)
  have "?k < length (cl_batches c)"
    using assms(1,7) by (simp add: cluster_inv_def proxy_inv_def)
  then have "S \<subseteq> ackers ?k (cl_replicator c1)"
    using c1(2) assms(4) p(2) by (auto simp: ackers_def)
  then have "f + 1 \<le> card (ackers ?k (cl_replicator c1))"
    using assms(5) card_mono [OF finite_ackers] le_trans by blast
  then have "enough (length (cl_batches c1) - 1) (cl_replicator c1)"
    using p(1,3) same(1) by (simp add: enough_def rp_inv_def)
  moreover have "\<not> none_left (cl_replicator c1)"
  proof -
    obtain i where "i \<in> S" using assms(5) by fastforce
    then have "i \<in> alive (cl_replicator c1)"
      using alive assms(4) p(2) by (auto simp: alive_def healthy_def)
    then show ?thesis
      using p(1) finite_alive by (auto simp: none_left_def rp_inv_def)
  qed
  ultimately have "(cluster_step n m)\<^sup>*\<^sup>* c1 (answer_batch True r c1)"
    using answer_soon [OF same(2)] by blast
  then have "(cluster_step n m)\<^sup>*\<^sup>* c (answer_batch True r c1)"
    using c1(1) unfolding links_run_def by (meson rtranclp_trans)
  moreover have "batch_responses True r (cl_proxy c1) = batch_responses True r (cl_proxy c)"
    using c1(1) by (auto simp: links_run_def batch_responses_def)
  moreover have "handled (cl_links c1) i = length (cl_batches c)" if "i \<in> S" for i
  proof -
    have "i < n" using that assms(4) by auto
    then show ?thesis
      using inv_links(3) [OF inv \<open>i < n\<close>] inv_servers(2) [OF inv \<open>i < n\<close>] c1(2) that same(1)
      by (simp add: link_back_def handled_def)
  qed
  ultimately show ?thesis
    using same c1(1) by (intro exI [of _ "answer_batch True r c1"])
      (simp add: feeding_answer, simp add: answer_batch_def links_run_def)
qed

section \<open>What a subscriber can be shown\<close>

definition feeds_run :: "nat \<Rightarrow> nat \<Rightarrow> nat \<Rightarrow> nat set \<Rightarrow> cluster \<Rightarrow> cluster \<Rightarrow> bool" where
  "feeds_run n m j S c c' \<longleftrightarrow> (cluster_step n m)\<^sup>*\<^sup>* c c' \<and>
    cl_proxy c' = cl_proxy c \<and> cl_batches c' = cl_batches c \<and> cl_due c' = cl_due c \<and> cl_phase c' = cl_phase c \<and>
    cl_answers c' = cl_answers c \<and> cl_links c' = cl_links c \<and>
    (\<forall>k. k \<notin> S \<longrightarrow> cl_feeds c' k = cl_feeds c k \<and> cl_servers c' k = cl_servers c k)"

lemma feeds_run_refl: "feeds_run n m j S c c"
  by (simp add: feeds_run_def)

lemma feeds_run_trans: "feeds_run n m j S c c' \<Longrightarrow> feeds_run n m j S c' c'' \<Longrightarrow> feeds_run n m j S c c''"
  by (auto simp: feeds_run_def)

lemma feeds_run_inv:
  assumes "feeds_run n m j S c c'" and "cluster_inv n m f c" and "admissible c" and "n \<le> 2 ^ 32"
  shows "cluster_inv n m f c'" and "admissible c'"
proof -
  show "admissible c'" using assms(1,3) by (simp add: admissible_def feeds_run_def)
  then show "cluster_inv n m f c'" using assms inv_steps unfolding feeds_run_def by blast
qed

lemma feed_sent:
  assumes "feed_inv ms h i w fd" and "\<not> bw_shutdown w" and "h \<le> length ms"
  shows "length (bw_sent w) \<le> h"
    and "concat (bw_sent w) = framed (map (log_body \<circ> resend i) (take (length (bw_sent w)) ms))"
proof -
  let ?f = "frame \<circ> (log_body \<circ> resend i)" and ?s = "length (bw_sent w)"
  have all: "map ?f (take h ms) = bw_sent w @ bw_queue w"
    using assms(1,2) by (simp add: feed_inv_def comp_assoc)
  show "?s \<le> h"
    using arg_cong [OF all, of length] assms(3) by simp
  have "bw_sent w = take ?s (map ?f (take h ms))"
    by (simp add: all)
  also have "\<dots> = map ?f (take ?s ms)"
    using \<open>?s \<le> h\<close> by (simp add: take_map min_def)
  finally show "concat (bw_sent w) = framed (map (log_body \<circ> resend i) (take ?s ms))"
    by (simp add: framed_concat)
qed

lemma feed_settled:
  assumes "feed_inv ms h i w fd" and "feed_back ms w fd ack" and "\<not> bw_shutdown w" and "fd_sending fd = None"
    and "h \<le> length ms" and "\<forall>e \<in> set ms. sized e"
  shows "length (bw_sent w) = length (fd_seen fd)"
proof -
  let ?f = "log_body \<circ> resend i" and ?s = "length (bw_sent w)"
  have "fd_wire fd = framed (map ?f (take ?s ms))"
    using assms(1,3,4) feed_sent(2) [OF assms(1,3,5)] by (simp add: feed_inv_def)
  then have "prefix (framed (fd_seen fd)) (framed (map ?f (take ?s ms)))"
    using assms(1) by (simp add: feed_inv_def)
  moreover have "\<forall>b \<in> set (fd_seen fd) \<union> set (map ?f (take ?s ms)). length b \<le> MAX_MESSAGE_SIZE"
  proof -
    have "length (?f e) \<le> MAX_MESSAGE_SIZE" if "e \<in> set ms" for e
      using assms(6) that sized_body [of e] by (simp add: resend_size)
    moreover have "set (fd_seen fd) \<subseteq> ?f ` set ms"
      using assms(1) unfolding feed_inv_def by (metis image_mono list.set_map set_take_subset)
    ultimately show ?thesis by (auto dest: in_set_takeD)
  qed
  ultimately have "length (fd_seen fd) \<le> length (map ?f (take ?s ms))"
    using framed_prefix_take by blast
  moreover have "?s \<le> length (fd_seen fd)"
    using assms(2,3) by (simp add: feed_back_def)
  ultimately show ?thesis by simp
qed

lemma run_settled:
  assumes inv: "cluster_inv n m f c" "admissible c" "n \<le> 2 ^ 32" and i: "i < n" "j < m" and "feeding i j c"
    and w: "sv_workers (cl_servers c i) j = Some w"
  shows "\<exists>c' w'. feeds_run n m j {i} c c' \<and> feeding i j c' \<and> fd_seen (cl_feeds c' i j) = fd_seen (cl_feeds c i j) \<and>
    sv_workers (cl_servers c' i) j = Some w' \<and> length (bw_sent w') = length (fd_seen (cl_feeds c' i j))"
proof -
  let ?ms = "cl_batches c" and ?fd = "cl_feeds c i j"
  have run: "\<not> bw_shutdown w" "\<And>sock a. fd_sending ?fd = Some (sock, a) \<Longrightarrow> a = int (length (hd (bw_queue w)))"
    using assms(6) w by (auto simp: feeding_def)
  have sized: "\<forall>e \<in> set ?ms. sized e" using inv(2) by (simp add: admissible_def)
  note fd = inv_servers(3) [OF inv(1) i w] and fb = inv_feeds [OF inv(1) i w]
  note settled = feed_settled [OF fd fb run(1) _ inv_servers(2) [OF inv(1) i(1)] sized]
  show ?thesis
  proof (cases "length (bw_sent w) = length (fd_seen ?fd)")
    case True
    with assms(6) w feeds_run_refl show ?thesis by blast
  next
    case False
    then obtain sock a where s: "fd_sending ?fd = Some (sock, a)"
      using settled by (cases "fd_sending ?fd") auto
    then obtain wire q where q: "bw_queue w = wire # q"
      using fd by (cases "bw_queue w") (auto simp: feed_inv_def)
    have a: "a = int (length wire)" using run(2) [OF s] q by simp
    have b: "length (bw_sent w) < length (fd_seen ?fd)" "rb_inv (bw_rb w)" "0 \<le> sock"
      "prefix (pending (bw_rb w)) (concat (drop (length (bw_sent w)) (fd_answers ?fd)))"
      "fd_answers ?fd = map (subscriber_ack (cl_subs c j) \<circ> number) (take (length (fd_seen ?fd)) ?ms)"
      using fb False run(1) s by (auto simp: feed_back_def)
    let ?as = "drop (length (bw_sent w)) (fd_answers ?fd)"
    have "prefix (pending (round_buffer sock w)) (concat ?as)"
      using round_buffer_pending(2) [OF b(2)] b(4) prefix_order.trans by blast
    then obtain evs where evs: "proper evs" "stream (round_buffer sock w) evs = concat ?as"
      using events_for by blast
    have "length (fd_seen ?fd) \<le> length ?ms"
      using fd inv_servers(2) [OF inv(1) i(1)] by (simp add: feed_inv_def)
    then have "length (bw_sent w) < length (fd_answers ?fd)"
      "fd_answers ?fd ! length (bw_sent w) = subscriber_ack (cl_subs c j) (number (?ms ! length (bw_sent w)))"
      using b(1) by (simp_all add: b(5))
    then have "?as = subscriber_ack (cl_subs c j) (number (?ms ! length (bw_sent w))) # drop (Suc (length (bw_sent w))) (fd_answers ?fd)"
      by (metis Cons_nth_drop_Suc)
    then have str: "stream (round_buffer sock w) evs = frame (plain (code ACK) (sub_shard (cl_subs c j)) (sub_id (cl_subs c j))
        (number (?ms ! length (bw_sent w))) []) @ concat (drop (Suc (length (bw_sent w))) (fd_answers ?fd))"
      by (simp add: evs(2) subscriber_ack_def build_wire_plain_null)
    obtain rb evs' where rb: "recv_raw_buffered (round_buffer sock w) evs = Some (Some 28, rb, evs')"
      using receive_frame [OF round_buffer_pending(1) [OF b(2)] evs(1) str] by (auto simp: safe_body_eq)
    obtain w' where round: "worker_round sock a evs w = Some w'" and run': "\<not> bw_shutdown w'"
      using rb run(1) q a b(3) by (cases "sock = bw_socket w")
        (auto simp: worker_round_def queue_pop_def send_bytes_raw_def Let_def round_buffer_def)
    let ?c = "finish_forward i j w' c"
    have step: "cluster_step n m c ?c"
      by (rule cs_forwarded [OF i w s _ round]) (simp add: evs(2))
    then have fr: "feeds_run n m j {i} c ?c"
      by (auto simp: feeds_run_def finish_forward_def)
    have f: "feeding i j ?c" and w': "sv_workers (cl_servers ?c i) j = Some w'"
      and seen: "fd_seen (cl_feeds ?c i j) = fd_seen ?fd" "fd_sending (cl_feeds ?c i j) = None"
      using run' by (auto simp: feeding_def finish_forward_def)
    note inv' = feeds_run_inv [OF fr inv]
    have "\<forall>e \<in> set (cl_batches ?c). sized e" using inv'(2) by (simp add: admissible_def)
    then have "length (bw_sent w') = length (fd_seen (cl_feeds ?c i j))"
      using feed_settled [OF inv_servers(3) [OF inv'(1) i w'] inv_feeds [OF inv'(1) i w'] run' seen(2)
        inv_servers(2) [OF inv'(1) i(1)]] by simp
    with fr f w' seen(1) show ?thesis by blast
  qed
qed

lemma run_forwarding:
  assumes inv: "cluster_inv n m f c" and i: "i < n" "j < m" and "feeding i j c"
    and w: "sv_workers (cl_servers c i) j = Some w" and "length (bw_sent w) < handled (cl_links c) i"
  shows "\<exists>c' sock. feeds_run n m j {i} c c' \<and> feeding i j c' \<and> fd_seen (cl_feeds c' i j) = fd_seen (cl_feeds c i j) \<and>
    sv_workers (cl_servers c' i) j = Some w \<and> fd_sending (cl_feeds c' i j) = Some (sock, int (length (hd (bw_queue w))))"
proof -
  let ?fd = "cl_feeds c i j"
  note fd = inv_servers(3) [OF inv i w] and fb = inv_feeds [OF inv i w]
  have run: "\<not> bw_shutdown w" "\<And>sock a. fd_sending ?fd = Some (sock, a) \<Longrightarrow> a = int (length (hd (bw_queue w)))"
    using assms(4) w by (auto simp: feeding_def)
  show ?thesis
  proof (cases "fd_sending ?fd")
    case (Some s)
    then obtain sock where "fd_sending ?fd = Some (sock, int (length (hd (bw_queue w))))"
      using run(2) by (cases s) auto
    with assms(4) w feeds_run_refl show ?thesis by blast
  next
    case None
    have "length (map (frame \<circ> log_body \<circ> resend (of_nat i)) (take (handled (cl_links c) i) (cl_batches c)))
        = length (bw_sent w @ bw_queue w)"
      using fd run(1) by (simp add: feed_inv_def del: length_map)
    then have "bw_queue w \<noteq> []"
      using assms(6) inv_servers(2) [OF inv i(1)] by auto
    then obtain wire q where q: "bw_queue w = wire # q" by (cases "bw_queue w") auto
    define sock where "sock = (if bw_socket w = - 1 then 0 else bw_socket w)"
    have sock: "0 \<le> sock" "bw_socket w \<in> {- 1, sock}"
      using fb run(1) by (auto simp: sock_def feed_back_def)
    let ?c = "forward_image i j sock (int (length wire)) wire c"
    have "cluster_step n m c ?c"
      by (rule cs_forward [OF i w run(1) q None sock])
    then have "feeds_run n m j {i} c ?c"
      by (auto simp: feeds_run_def forward_image_def Let_def)
    moreover have "feeding i j ?c \<and> fd_seen (cl_feeds ?c i j) = fd_seen ?fd \<and> sv_workers (cl_servers ?c i) j = Some w \<and>
        fd_sending (cl_feeds ?c i j) = Some (sock, int (length (hd (bw_queue w))))"
      using w run(1) q by (simp add: feeding_def forward_image_def Let_def)
    ultimately show ?thesis by blast
  qed
qed

lemma run_observed:
  assumes inv: "cluster_inv n m f c" "admissible c" and i: "i < n" "j < m" and "feeding i j c"
    and w: "sv_workers (cl_servers c i) j = Some w" and k: "length (bw_sent w) = length (fd_seen (cl_feeds c i j))"
    and s: "fd_sending (cl_feeds c i j) = Some (sock, int (length (hd (bw_queue w))))"
  shows "\<exists>c'. feeds_run n m j {i} c c' \<and> feeding i j c' \<and>
    length (fd_seen (cl_feeds c' i j)) = Suc (length (fd_seen (cl_feeds c i j)))"
proof -
  let ?fd = "cl_feeds c i j" and ?ms = "cl_batches c" and ?f = "log_body \<circ> resend (of_nat i)"
  let ?k = "length (fd_seen ?fd)" and ?h = "handled (cl_links c) i"
  note fd = inv_servers(3) [OF inv(1) i w]
  have run: "\<not> bw_shutdown w" using assms(5) w by (auto simp: feeding_def)
  obtain wire q where q: "bw_queue w = wire # q"
    using fd s by (cases "bw_queue w") (auto simp: feed_inv_def)
  have imgs: "map (frame \<circ> ?f) (take ?h ?ms) = bw_sent w @ wire # q"
    using fd run q by (simp add: feed_inv_def comp_assoc)
  have len: "?k < ?h" "?h \<le> length ?ms"
    using arg_cong [OF imgs, of length] k inv_servers(2) [OF inv(1) i(1)] by simp_all
  have wire: "wire = frame (?f (?ms ! ?k))"
    using arg_cong [OF imgs, of "\<lambda>xs. xs ! ?k"] len k by (simp add: nth_append)
  have seen: "fd_seen ?fd = map ?f (take ?k ?ms)"
    using fd by (simp add: feed_inv_def)
  have sent: "concat (bw_sent w) = framed (fd_seen ?fd)"
    using feed_sent(2) [OF fd run len(2)] by (simp only: k flip: seen)
  have "fd_wire ?fd = framed (fd_seen ?fd) @ frame (?f (?ms ! ?k))"
    using fd run s sent wire q by (simp add: feed_inv_def in_flight_def send_bytes_raw_def)
  moreover have "length (?f (?ms ! ?k)) \<le> MAX_MESSAGE_SIZE"
    using inv(2) len sized_body [of "?ms ! ?k"] by (simp add: admissible_def resend_size)
  ultimately have body: "next_body (fd_seen ?fd) (fd_wire ?fd) (?f (?ms ! ?k))"
    by (simp add: next_body_def)
  have sound: "sound_message (resend (of_nat i) (?ms ! ?k))"
    using inv_next_observation(3) [OF inv i w body] .
  obtain t sh sd n' d where e: "resend (of_nat i) (?ms ! ?k) = (t, sh, sd, n', d)" by (rule prod_cases5)
  obtain h where "subscriber_inv (cl_subs c j) h"
    using inv(1) i(2) by (auto simp: cluster_inv_def views_inv_def view_inv_def)
  then obtain s' where "subscriber_observe sd n' (log_data (t, sh, sd, n', d)) (cl_subs c j) = Inr s'"
    using subscriber_observe_ok sound_payload sound e by metis
  then have h: "subscriber_handle (cl_subs c j) (frame (?f (?ms ! ?k))) (0 + 2) (length (?f (?ms ! ?k))) =
      Inr ([subscriber_ack (cl_subs c j) n'], s', True)"
    using subscriber_handle_forwarded [of 0 t sh sd n' d "frame (?f (?ms ! ?k))"] sound framed_at_self [of "?f (?ms ! ?k)"] e
    by (simp add: framed_at_def)
  let ?c = "subscriber_takes i j (?f (?ms ! ?k)) [subscriber_ack (cl_subs c j) n'] s' c"
  have "cluster_step n m c ?c"
    by (rule cs_observe [OF i body framed_at_self h])
  then have "feeds_run n m j {i} c ?c"
    by (auto simp: feeds_run_def subscriber_takes_def Let_def)
  moreover have "feeding i j ?c \<and> length (fd_seen (cl_feeds ?c i j)) = Suc ?k"
    using assms(5) by (simp add: feeding_def subscriber_takes_def Let_def)
  ultimately show ?thesis by blast
qed

lemma run_feed_item:
  assumes "cluster_inv n m f c" "admissible c" "n \<le> 2 ^ 32" and i: "i < n" "j < m" and "feeding i j c"
    and "length (fd_seen (cl_feeds c i j)) < handled (cl_links c) i"
  shows "\<exists>c'. feeds_run n m j {i} c c' \<and> feeding i j c' \<and>
    length (fd_seen (cl_feeds c' i j)) = Suc (length (fd_seen (cl_feeds c i j)))"
proof -
  note inv = feeds_run_inv [OF _ _ _ assms(3)]
  obtain w where "sv_workers (cl_servers c i) j = Some w"
    using assms(6) by (auto simp: feeding_def)
  then obtain c1 w1 where 1: "feeds_run n m j {i} c c1" "feeding i j c1" "fd_seen (cl_feeds c1 i j) = fd_seen (cl_feeds c i j)"
    "sv_workers (cl_servers c1 i) j = Some w1" "length (bw_sent w1) = length (fd_seen (cl_feeds c1 i j))"
    using run_settled [OF assms(1-3) i assms(6)] by blast
  note i1 = inv [OF 1(1) assms(1,2)]
  have less: "length (bw_sent w1) < handled (cl_links c1) i"
    using 1 assms(7) by (simp add: feeds_run_def)
  obtain c2 sock where 2: "feeds_run n m j {i} c1 c2" "feeding i j c2" "fd_seen (cl_feeds c2 i j) = fd_seen (cl_feeds c1 i j)"
    "sv_workers (cl_servers c2 i) j = Some w1" "fd_sending (cl_feeds c2 i j) = Some (sock, int (length (hd (bw_queue w1))))"
    using run_forwarding [OF i1(1) i 1(2,4) less] by blast
  have "length (bw_sent w1) = length (fd_seen (cl_feeds c2 i j))"
    using 1(5) 2(3) by simp
  from run_observed [OF inv [OF 2(1) i1] i 2(2,4) this 2(5)] obtain c3 where
    "feeds_run n m j {i} c2 c3" "feeding i j c3" "length (fd_seen (cl_feeds c3 i j)) = Suc (length (fd_seen (cl_feeds c2 i j)))"
    by blast
  with 1(1,3) 2(1,3) show ?thesis
    using feeds_run_trans by metis
qed

lemma run_feed_all:
  assumes "cluster_inv n m f c" "admissible c" "n \<le> 2 ^ 32" and i: "i < n" "j < m" and "feeding i j c"
  shows "\<exists>c'. feeds_run n m j {i} c c' \<and> length (fd_seen (cl_feeds c' i j)) = handled (cl_links c) i"
  using assms
proof (induction "handled (cl_links c) i - length (fd_seen (cl_feeds c i j))" arbitrary: c)
  case 0
  obtain w where "sv_workers (cl_servers c i) j = Some w"
    using "0.prems"(6) by (auto simp: feeding_def)
  then have "length (fd_seen (cl_feeds c i j)) \<le> handled (cl_links c) i"
    using inv_servers(3) [OF "0.prems"(1,4,5)] by (simp add: feed_inv_def)
  with 0 feeds_run_refl show ?case by (metis diff_is_0_eq le_antisym)
next
  case (Suc x)
  then have "length (fd_seen (cl_feeds c i j)) < handled (cl_links c) i" by simp
  then obtain c1 where c1: "feeds_run n m j {i} c c1" "feeding i j c1"
    "length (fd_seen (cl_feeds c1 i j)) = Suc (length (fd_seen (cl_feeds c i j)))"
    using run_feed_item [OF Suc.prems] by blast
  have same: "cl_links c1 = cl_links c" using c1(1) by (simp add: feeds_run_def)
  have "x = handled (cl_links c1) i - length (fd_seen (cl_feeds c1 i j))"
    using Suc.hyps(2) c1(3) same by simp
  from Suc.hyps(1) [OF this feeds_run_inv [OF c1(1) Suc.prems(1-3)] Suc.prems(3-5) c1(2)] same obtain c2 where
    "feeds_run n m j {i} c1 c2" "length (fd_seen (cl_feeds c2 i j)) = handled (cl_links c) i" by auto
  with c1(1) feeds_run_trans show ?case by blast
qed

lemma run_feeds:
  assumes "finite S" and "S \<subseteq> {..<n}" and "cluster_inv n m f c" and "admissible c" and "n \<le> 2 ^ 32" and "j < m"
    and "\<forall>i \<in> S. feeding i j c"
  shows "\<exists>c'. feeds_run n m j S c c' \<and> (\<forall>i \<in> S. length (fd_seen (cl_feeds c' i j)) = handled (cl_links c) i)"
  using assms
proof (induction S rule: finite_induct)
  case empty
  show ?case using feeds_run_refl by blast
next
  case (insert i S)
  then obtain c1 where c1: "feeds_run n m j S c c1"
    "\<forall>i \<in> S. length (fd_seen (cl_feeds c1 i j)) = handled (cl_links c) i" by auto
  have same: "cl_links c1 = cl_links c" "cl_feeds c1 i = cl_feeds c i" "cl_servers c1 i = cl_servers c i"
    using c1(1) insert.hyps(2) by (simp_all add: feeds_run_def)
  have "feeding i j c1" using insert.prems(6) same by (simp add: feeding_def)
  then obtain c2 where c2: "feeds_run n m j {i} c1 c2" "length (fd_seen (cl_feeds c2 i j)) = handled (cl_links c1) i"
    using run_feed_all [OF feeds_run_inv [OF c1(1) insert.prems(2-4)] insert.prems(4) _ insert.prems(5)] insert.prems(1) by auto
  have "feeds_run n m j (insert i S) c c2"
    using c1(1) c2(1) by (auto simp: feeds_run_def)
  moreover have "length (fd_seen (cl_feeds c2 k j)) = handled (cl_links c) k" if "k \<in> insert i S" for k
    using that c1(2) c2 same(1) insert.hyps(2) by (cases "k = i") (auto simp: feeds_run_def)
  ultimately show ?case by blast
qed

lemma log_can_grow:
  assumes "cluster_inv n m f c" and "admissible c" and "n \<le> 2 ^ 32" and "j < m"
    and "S \<subseteq> {..<n}" and "f + 1 \<le> card S" and "\<forall>i \<in> S. feeding i j c \<and> handled (cl_links c) i = length (cl_batches c)"
  shows "\<exists>c'. (cluster_step n m)\<^sup>*\<^sup>* c c' \<and> cl_batches c' = cl_batches c \<and> cl_answers c' = cl_answers c \<and>
    shown j c' = length (cl_batches c')"
proof -
  have "finite S" using assms(5) finite_subset by blast
  then obtain c' where c': "feeds_run n m j S c c'"
    "\<forall>i \<in> S. length (fd_seen (cl_feeds c' i j)) = handled (cl_links c) i"
    using run_feeds [OF _ assms(5,1-4)] assms(7) by blast
  note inv = feeds_run_inv [OF c'(1) assms(1-3)]
  have same: "cl_batches c' = cl_batches c" using c'(1) by (simp add: feeds_run_def)
  obtain h where v: "view_inv n f (cl_batches c') (\<lambda>i. cl_feeds c' i j) (cl_subs c' j) h"
    "consecutive (cl_batches c')" "length (cl_batches c') < 2 ^ 64"
    "\<forall>i < n. length (fd_seen (cl_feeds c' i j)) \<le> length (cl_batches c')"
    using inv_views [OF inv assms(3,4)] by blast
  have "shown j c' = length (cl_batches c')"
  proof (rule ccontr)
    assume "shown j c' \<noteq> length (cl_batches c')"
    then have less: "shown j c' < length (cl_batches c')"
      using shown_held(2) [OF inv assms(3,4)] by simp
    then have "S \<subseteq> {i. i < n \<and> shown j c' < length (fd_seen (cl_feeds c' i j))}"
      using c'(2) assms(5,7) same by auto
    then have "f + 1 \<le> card {i. i < n \<and> shown j c' < length (fd_seen (cl_feeds c' i j))}"
      using assms(6) card_mono [of "{i. i < n \<and> shown j c' < length (fd_seen (cl_feeds c' i j))}" S] by simp
    with view_log(4) [OF v(1-3) assms(3) v(4)] show False
      by (simp add: shown_def)
  qed
  with c'(1) same show ?thesis unfolding feeds_run_def by blast
qed

lemma quorum_progress:
  assumes inv: "cluster_inv n m f c" and adm: "admissible c" and n: "n \<le> 2 ^ 32" and j: "j < m"
    and S: "S \<subseteq> {..<n}" "f + 1 \<le> card S" and up: "\<forall>i \<in> S. healthy i c \<and> feeding i j c"
    and wait: "cl_phase c = Awaiting r turn"
  shows "\<exists>c'. (cluster_step n m)\<^sup>*\<^sup>* c c' \<and> cl_batches c' = cl_batches c \<and>
    cl_answers c' = cl_answers c @ [(length (cl_batches c) - 1, True, batch_responses True r (cl_proxy c))] \<and>
    shown j c' = length (cl_batches c)"
proof -
  obtain c1 where c1: "(cluster_step n m)\<^sup>*\<^sup>* c c1" "cl_batches c1 = cl_batches c"
    "\<forall>i \<in> S. handled (cl_links c1) i = length (cl_batches c)" "\<forall>i < n. \<forall>j < m. feeding i j c \<longrightarrow> feeding i j c1"
    "cl_answers c1 = cl_answers c @ [(length (cl_batches c) - 1, True, batch_responses True r (cl_proxy c))]"
    using batch_can_succeed [OF inv adm n S _ wait] up by blast
  have adm1: "admissible c1" using adm c1(2) by (simp add: admissible_def)
  have inv1: "cluster_inv n m f c1"
    by (rule inv_steps [OF c1(1) inv adm1 n])
  have "\<forall>i \<in> S. feeding i j c1 \<and> handled (cl_links c1) i = length (cl_batches c1)"
    using c1(2-4) S(1) up j by auto
  then obtain c2 where "(cluster_step n m)\<^sup>*\<^sup>* c1 c2" "cl_batches c2 = cl_batches c1" "cl_answers c2 = cl_answers c1"
    "shown j c2 = length (cl_batches c2)"
    using log_can_grow [OF inv1 adm1 n j S] by blast
  with c1(1,2,5) show ?thesis by (metis rtranclp_trans)
qed

section \<open>A run\<close>

text \<open>
  One proxy, one server, one subscriber: a client sends a command, the epoch ends and the batch is
  handed to the replicator.
\<close>

definition run_proxy :: proxy where
  "run_proxy = (new_proxy 0 7 [] 3 1000 1 0 (replicate CAPACITY 0))
    \<lparr>px_timer := \<lparr>tm_running = True, tm_paused = False, tm_joinable = True\<rparr>\<rparr>"

definition run_asked :: proxy where
  "run_asked = run_proxy\<lparr>px_buffer := pushed 5 [65] new_client_buffer, px_sched := record_request (new_scheduler 3)\<rparr>"

lemma run_asked_buffer:
  "cb_inv (px_buffer run_asked)" "contents (px_buffer run_asked) = entry [65]" "cb_participating (px_buffer run_asked) = {5}"
proof -
  have "cb_write new_client_buffer + 4 + length [65 :: byte] \<le> CB_CAPACITY"
    by (simp add: new_client_buffer_def CB_CAPACITY_eq)
  from pushed_facts [OF cb_inv_new this, of 5] show "cb_inv (px_buffer run_asked)" "contents (px_buffer run_asked) = entry [65]"
    by (simp_all add: run_asked_def)
  show "cb_participating (px_buffer run_asked) = {5}"
    by (simp add: run_asked_def pushed_def new_client_buffer_def)
qed

lemma run_request:
  "\<exists>mem. proxy_handle 5 (- 1) (0, 0, 0) run_proxy mem (0 + 2) (length (plain (code APPEND) 0 0 0 [65])) = Inr ([], run_asked, True)"
proof -
  let ?mem = "frame (plain (code APPEND) 0 0 0 [65])"
  have room: "cb_write new_client_buffer + 4 + length [65 :: byte] \<le> CB_CAPACITY"
    by (simp add: new_client_buffer_def CB_CAPACITY_eq)
  have px: "px_registered run_proxy" "px_buffer run_proxy = new_client_buffer" "px_sched run_proxy = new_scheduler 3"
    by (simp_all add: run_proxy_def new_proxy_def)
  have "chunk 0 (2 + length (plain (code APPEND) 0 0 0 [65])) ?mem = ?mem"
    by (simp add: chunk_def)
  from registered_request [OF this _ _ px(1), of 5 "- 1" "(0, 0, 0)"]
  have "proxy_handle 5 (- 1) (0, 0, 0) run_proxy ?mem (0 + 2) (length (plain (code APPEND) 0 0 0 [65])) = Inr ([], run_asked, True)"
    unfolding px push_done [OF cb_inv_new room] by (simp add: run_asked_def px)
  then show ?thesis ..
qed

definition run_due :: proxy where
  "run_due = snd (case epoch_turn 1000 2000000 run_asked of Some (Inr r) \<Rightarrow> r | _ \<Rightarrow> ([], run_asked))"

lemma run_epoch:
  "epoch_turn 1000 2000000 run_asked = Some (Inr ([1], run_due))"
  "px_buffer run_due = px_buffer run_asked" "px_replicator run_due = px_replicator run_proxy"
  "px_shard run_due = 0" "px_id run_due = 7"
proof -
  have px: "px_sched run_asked = record_request (new_scheduler 3)" "px_epoch_duration run_asked = 1000" "px_next_seq run_asked = 1"
    "\<not> tm_paused (px_timer run_asked)"
    by (simp_all add: run_asked_def run_proxy_def new_proxy_def)
  have "\<exists>s. epoch_turn 1000 2000000 run_asked = Some (Inr ([1], run_asked\<lparr>px_next_seq := 2, px_sched := s\<rparr>))"
    by (simp add: px epoch_turn_def update_slot_estimate_def load_slots_def new_scheduler_def record_request_def
        drain_slots.simps pop_next_slot_def timestamp_to_tp_def Let_def) (rule exI, rule refl)
  then obtain s where "epoch_turn 1000 2000000 run_asked = Some (Inr ([1], run_asked\<lparr>px_next_seq := 2, px_sched := s\<rparr>))" ..
  then show "epoch_turn 1000 2000000 run_asked = Some (Inr ([1], run_due))"
    "px_buffer run_due = px_buffer run_asked" "px_replicator run_due = px_replicator run_proxy"
    "px_shard run_due = 0" "px_id run_due = 7"
    by (simp_all add: run_due_def) (simp_all add: run_asked_def run_proxy_def new_proxy_def)
qed

text \<open>The state when the timer thread has begun to wait, and the one before it.\<close>

definition run_states :: "cluster \<Rightarrow> cluster \<Rightarrow> bool" where
  "run_states c c' \<longleftrightarrow> cluster_reachable 1 1 0 c \<and> cluster_step 1 1 c c' \<and> cl_batches c = [] \<and>
    cl_batches c' = [(APPEND, 0, 7, 1, entry [65])] \<and> admissible c' \<and> cl_answers c' = [] \<and>
    (\<exists>r. cl_phase c' = Awaiting r False \<and> dr_participating r = {5}) \<and> healthy 0 c' \<and> feeding 0 0 c' \<and>
    px_shard (cl_proxy c') = 0 \<and> px_id (cl_proxy c') = 7"

lemma run_exists: "\<exists>c c'. run_states c c'"
proof -
  let ?junk = "replicate CAPACITY (0 :: byte)"
  obtain sv where sv: "new_server 0 (of_nat 0) 1000 1 1 ?junk = Inr sv"
    using new_server_ok by blast
  define c0 where "c0 = start_cluster run_proxy (\<lambda>_. sv) (\<lambda>_. new_subscriber 0 (of_nat 0) 0 [])"
  have "construct_known (new_proxy 0 7 [] 3 1000 1 0 ?junk) = Inr run_proxy"
    by (simp add: construct_known_def timer_start_def new_proxy_def run_proxy_def Let_def)
  moreover have "length ?junk = CAPACITY" by simp
  moreover have "\<forall>k < 1. new_server 0 (of_nat k) 1000 1 1 ?junk = Inr sv"
    using sv by simp
  moreover have "\<forall>j < 1. \<exists>clock. new_subscriber 0 (of_nat 0) 0 [] = new_subscriber 0 (of_nat j) 0 clock \<and> (\<forall>t \<in> set clock. unat t < 2 ^ 63)"
    by (auto intro!: exI [of _ "[]"])
  ultimately have r0: "cluster_reachable 1 1 0 c0"
    unfolding c0_def by (rule cr_start)
  obtain mem where mem: "proxy_handle 5 (- 1) (0, 0, 0) run_proxy mem (0 + 2) (length (plain (code APPEND) 0 0 0 [65])) = Inr ([], run_asked, True)"
    using run_request by blast
  define c1 where "c1 = c0\<lparr>cl_proxy := run_asked\<rparr>"
  have "cluster_step 1 1 c0 c1"
    unfolding c1_def by (rule cs_client) (use mem in \<open>simp add: c0_def start_cluster_def\<close>)
  with r0 have r1: "cluster_reachable 1 1 0 c1" by (rule cr_step)
  define c2 where "c2 = c1\<lparr>cl_proxy := run_due, cl_due := [1]\<rparr>"
  have "cluster_step 1 1 c1 c2"
    unfolding c2_def by (rule cs_epoch) (use run_epoch(1) in \<open>simp_all add: c1_def c0_def start_cluster_def\<close>)
  with r1 have r2: "cluster_reachable 1 1 0 c2" by (rule cr_step)
  define r where "r = fst (drain (px_buffer run_due))"
  define b where "b = snd (drain (px_buffer run_due))"
  define c21 where "c21 = c2\<lparr>cl_proxy := (cl_proxy c2)\<lparr>px_buffer := b\<rparr>, cl_due := [], cl_phase := Drained 1 r\<rparr>"
  have "cluster_step 1 1 c2 c21"
    unfolding c21_def by (rule cs_drain) (simp_all add: c2_def c1_def c0_def start_cluster_def r_def b_def)
  with r2 have r21: "cluster_reachable 1 1 0 c21" by (rule cr_step)
  define wire where "wire = batch_image (cl_proxy c21) 1 r (px_buffer (cl_proxy c21))"
  define e where "e = next_batch (cl_proxy c21) 1 r (px_buffer (cl_proxy c21))"
  define c22 where "c22 = c21\<lparr>cl_phase := Built r wire e\<rparr>"
  have "cluster_step 1 1 c21 c22"
    unfolding c22_def wire_def e_def by (rule cs_build) (simp add: c21_def)
  with r21 have r22: "cluster_reachable 1 1 0 c22" by (rule cr_step)
  define c23 where "c23 = c22\<lparr>cl_proxy := (cl_proxy c22)\<lparr>px_buffer := release (sent_length r) (px_buffer (cl_proxy c22))\<rparr>,
    cl_phase := Released r wire e\<rparr>"
  have "cluster_step 1 1 c22 c23"
    unfolding c23_def by (rule cs_release) (simp add: c22_def)
  with r22 have r23: "cluster_reachable 1 1 0 c23" by (rule cr_step)
  define c3 where "c3 = c23\<lparr>cl_proxy := (cl_proxy c23)\<lparr>px_replicator := enqueue_all wire (cl_replicator c23)\<rparr>,
    cl_batches := cl_batches c23 @ [e], cl_phase := Awaiting r False\<rparr>"
  note c_defs = c3_def c23_def c22_def c21_def c2_def c1_def c0_def start_cluster_def
  have "cluster_step 1 1 c23 c3"
    unfolding c3_def by (rule cs_submit) (simp add: c23_def)
  moreover have "cl_batches c23 = []"
    by (simp add: c_defs)
  moreover have e: "e = (APPEND, 0, 7, 1, entry [65])"
    using run_epoch(2,4,5) run_asked_buffer
    by (simp add: e_def c_defs next_batch_def payload_of_def r_def b_def drain_def contents_def)
  then have batches: "cl_batches c3 = [(APPEND, 0, 7, 1, entry [65])]"
    by (simp add: c_defs)
  moreover have "admissible c3"
    using well_stamped_sample by (simp add: admissible_def batches sized_def stamped_def entry_def safe_body_eq)
  moreover have "cl_answers c3 = []" "cl_phase c3 = Awaiting r False"
    by (simp_all add: c_defs)
  moreover have "dr_participating r = {5}"
    using run_asked_buffer(3) run_epoch(2) by (simp add: r_def drain_def)
  moreover have "healthy 0 c3"
    using run_epoch(3)
    by (simp add: healthy_def c_defs run_proxy_def new_proxy_def start_replicator_def enqueue_all_def new_worker_def Let_def)
  moreover have "feeding 0 0 c3"
    using new_server_inv(2) [OF sv, of 0] by (simp add: feeding_def c_defs new_bworker_def)
  moreover have "px_shard (cl_proxy c3) = 0" "px_id (cl_proxy c3) = 7"
    using run_epoch(4,5) by (simp_all add: c_defs)
  ultimately have "run_states c23 c3"
    using r23 batches unfolding run_states_def by blast
  then show ?thesis by blast
qed

lemma run_answered_exists:
  "\<exists>c c' c''. run_states c c' \<and> cluster_reachable 1 1 0 c'' \<and> admissible c'' \<and> cl_batches c'' = cl_batches c' \<and>
    (\<exists>resp. cl_answers c'' = [(0, True, resp)] \<and> resp = [(5, frame (log_body (SUCCESS, 0, 7, 0, [])))]) \<and> shown 0 c'' = 1"
proof -
  obtain c c' where r: "run_states c c'" using run_exists by blast
  then have reach: "cluster_reachable 1 1 0 c'" and adm: "admissible c'"
    unfolding run_states_def by (blast intro: cr_step)+
  obtain d where d: "cl_phase c' = Awaiting d False" "dr_participating d = {5}"
    using r by (auto simp: run_states_def)
  have inv: "cluster_inv 1 1 0 c'"
    by (rule inv_reachable [OF reach adm]) simp
  have up: "\<forall>i \<in> {0}. healthy i c' \<and> feeding i 0 c'"
    using r by (simp add: run_states_def)
  have "\<exists>c''. (cluster_step 1 1)\<^sup>*\<^sup>* c' c'' \<and> cl_batches c'' = cl_batches c' \<and>
      cl_answers c'' = cl_answers c' @ [(length (cl_batches c') - 1, True, batch_responses True d (cl_proxy c'))] \<and>
      shown 0 c'' = length (cl_batches c')"
    by (rule quorum_progress [OF inv adm _ _ _ _ up d(1)]) simp_all
  then obtain c'' where c'': "(cluster_step 1 1)\<^sup>*\<^sup>* c' c''" "cl_batches c'' = cl_batches c'"
    "cl_answers c'' = cl_answers c' @ [(length (cl_batches c') - 1, True, batch_responses True d (cl_proxy c'))]"
    "shown 0 c'' = length (cl_batches c')" by blast
  have "cluster_reachable 1 1 0 c''"
    using c''(1) reach by (induction rule: rtranclp_induct) (auto intro: cr_step)
  moreover have "batch_responses True d (cl_proxy c') = [(5, frame (log_body (SUCCESS, 0, 7, 0, [])))]"
    using r d(2) by (simp add: batch_responses_def run_states_def build_wire_plain_null log_body.simps)
  ultimately show ?thesis
    using c''(2-4) r adm by (intro exI [of _ c] exI [of _ c'] exI [of _ c'']) (simp add: run_states_def admissible_def)
qed

section \<open>Properties\<close>

definition kept :: "nat \<Rightarrow> nat \<Rightarrow> cluster \<Rightarrow> bool" where
  "kept k i c \<longleftrightarrow> k < length (stored (px_id (cl_proxy c)) (sv_store (cl_servers c i))) \<and>
    stored (px_id (cl_proxy c)) (sv_store (cl_servers c i)) ! k = frame (log_body (cl_batches c ! k))"

lemma stored_batches:
  assumes "cluster_inv n m f c" and "i < n"
  shows "stored (px_id (cl_proxy c)) (sv_store (cl_servers c i)) =
    map (frame \<circ> log_body) (take (handled (cl_links c) i) (cl_batches c))"
proof -
  have "sender e = px_id (cl_proxy c)" if "e \<in> set (cl_batches c)" for e
    using assms(1) that by (simp add: cluster_inv_def proxy_inv_def)
  then have "filter (\<lambda>e. sender e = px_id (cl_proxy c)) (take (handled (cl_links c) i) (cl_batches c))
      = take (handled (cl_links c) i) (cl_batches c)"
    by (auto simp: filter_id_conv dest: in_set_takeD)
  then show ?thesis
    using inv_servers(1) [OF assms] by (simp add: server_inv_def)
qed

lemma holders_keep:
  assumes "cluster_inv n m f c" and "k < length (cl_batches c)" and "i \<in> holders n k (abstract_log c)"
  shows "kept k i c"
  using assms stored_batches [OF assms(1), of i] by (simp add: kept_def holders_def abstract_log_def handled_def)







end
