(* ===== verification/Spec2Isabelle.thy ===== *)
theory Spec2Isabelle
  imports System Circular_Buffer Freeze_Protocol Program Earlier_Allocator Proxy_Shutdown Joining Node Zipper_Timer
    Earlier_Buffers Earlier_Store Zipper_Sending Freeze_Completion
    Server_Shutdown Zipper_Shutdown Cluster_Progress
begin

text \<open>
  Ziplog, a replicated log. A client appends a command through a proxy; the proxy collects the
  commands of its clients into a batch per slot, a slot being a point in time with a sequence
  number, and replicates the batch to \<open>2 f + 1\<close> servers; a server stores it and forwards it
  to the subscribers; a subscriber commits a number when \<open>f + 1\<close> servers have forwarded it.
  The Zipper divides each epoch into slots for the proxies and takes proxies that failed out
  of the system. This development models the program under \<^verbatim>\<open>api\<close>, \<^verbatim>\<open>include\<close> and \<^verbatim>\<open>impl\<close>; the names
  of definitions are those of the code where that is possible.

  \<^bold>\<open>Foundations.\<close> \<open>Prelude\<close>: machine words, results that may fault, lists. \<open>Bytes\<close>:
  byte order and reads at an offset (\<^verbatim>\<open>api/common.h\<close>). \<open>Double\<close>: rounding to a double as a
  function on rationals, for the arithmetic of slots and estimates. \<open>Queues\<close>: the interface of the
  queues as locales, interpreted on the ring (\<open>Circular_Buffer\<close>, \<^verbatim>\<open>include/circular_buffer.h\<close>)
  and on the workers' queues.

  \<^bold>\<open>Wire.\<close> \<open>Command_Batch\<close> (\<^verbatim>\<open>api/types.h\<close>) and \<open>Message\<close> (\<^verbatim>\<open>api/message.h\<close>, \<^verbatim>\<open>message.cpp\<close>):
  encodings with their round trips and the inputs on which the decoder faults. \<open>Framing\<close>
  (\<^verbatim>\<open>api/network_utils\<close>): sockets as lists of events, the receive buffer, and that reading
  gives back what was framed for every split of the stream. \<open>Connection\<close>: the loop of every
  connection as a locale \<open>frame_handler\<close>; a handler that agrees with a function on the body of a frame
  runs that function over the frames of the stream; interpreted for server, subscriber and the
  messages of the Zipper. \<open>Connection_Pool\<close> (\<^verbatim>\<open>include/connection_pool.h\<close>): sockets per
  peer over the descriptors of the process, request and response, listening sockets.

  \<^bold>\<open>Configuration and start.\<close> \<open>Address\<close>, \<open>Config\<close> (\<^verbatim>\<open>api/address.h\<close>, \<^verbatim>\<open>config\<close>,
  \<^verbatim>\<open>node_config.h\<close>): parser and well-formedness of what it accepts. \<open>Program\<close> (\<^verbatim>\<open>impl/main.cpp\<close>): what the
  program starts and the loops of the client. \<open>Node\<close> (\<^verbatim>\<open>include/base_node.h\<close>): accepting,
  connection threads and shutdown, every interleaving.

  \<^bold>\<open>Client and proxy.\<close> \<open>Client\<close>; \<open>Client_Buffer\<close> (the shared array of pending commands, with an
  inductive relation of pushes, drains and releases); \<open>Slot_Scheduler\<close>; \<open>Server_Replicator\<close> (the
  workers as a step relation \<open>worker_step\<close>, \<open>await\<close> the caller's loop); \<open>Proxy\<close> (handlers,
  batches, epoch timer); \<open>Proxy_Shutdown\<close> (its destructor against all threads); \<open>Earlier_Buffers\<close> (the client buffers
  as a ring per client, not built any more; on \<open>Circular_Buffer\<close>).

  \<^bold>\<open>Server and subscriber.\<close> \<open>Liveness\<close> (store and liveness tracker), \<open>Broadcaster\<close>,
  \<open>Server\<close>, \<open>Freeze_Handler\<close>, \<open>Earlier_Store\<close> (the store of decoded messages), \<open>Server_Shutdown\<close>
  (the destructor against workers and connections); \<open>Log_Tracker\<close> (votes, quorums and the log, with the log as a function of
  the history of observations as its specification), \<open>Subscriber\<close>, \<open>Joining\<close> (new nodes).

  \<^bold>\<open>Zipper.\<close> \<open>Slot_Allocator\<close> and its predecessor \<open>Earlier_Allocator\<close>; \<open>Reconfiguration\<close>
  (\<open>rc_reachable\<close>: reports, answers and the sections of the freezing threads in any order);
  \<open>Zipper\<close> (\<open>zipper_reachable\<close>: messages, epochs, admissions); \<open>Zipper_Timer\<close>;
  \<open>Zipper_Sending\<close> (the tasks of a broadcast over the shared connection pool, in any order); \<open>Zipper_Shutdown\<close>
  (the destructor against the timer and the detached threads).

  \<^bold>\<open>Composition.\<close> \<open>System\<close>: from the acknowledgement of a batch to the log of every subscriber, and the
  disagreement of two proxies that number their own slots. \<open>Allocation_Delivery\<close>: from the
  allocator over the wire to servers and proxy. \<open>Membership\<close>: the Zipper and a server on one
  connection. \<open>Freeze_Protocol\<close>: Zipper and servers in a freeze, any interleaving;
  \<open>Freeze_Completion\<close>: the course of a freeze on which the servers agree. \<open>Cluster\<close>: the threads of a proxy,
  its servers and the subscribers as one transition system over the byte streams between them, and
  an append-only log as its specification; \<open>Cluster_Invariant\<close>: what holds of every connection and every
  component in it; \<open>Cluster_Progress\<close>: the refinement of the log, that a success is durable, and that a
  working quorum of servers can always finish a batch.

  \<^bold>\<open>What the lemmas show.\<close> Each component has an invariant (\<open>rb_inv\<close>, \<open>cb_inv\<close>, \<open>slots_inv\<close>, \<open>rp_inv\<close>,
  \<open>tracker_inv\<close>, \<open>subscriber_inv\<close>, \<open>rc_inv\<close>, \<open>node_inv\<close>, \<open>pool_ok\<close>, \<open>ring_inv\<close>, and \<open>cluster_inv\<close> over all of them) that its operations keep,
  and its properties follow from it. Several properties state what the code does where its documentation
  promises something else; they hold of the code as it is.

  \<^bold>\<open>Bounds and waiting.\<close> No fuel is used. A loop that may wait for ever answers \<open>None\<close> (\<open>recv_spin\<close>,
  \<open>exchange\<close>, \<open>connection_loop\<close>) or takes no step; a theorem that a reader returns says so as
  \<open>Some\<close>. Sequence numbers, lengths and times have the width of the code; where a theorem needs
  that a counter has not wrapped the bound is a hypothesis. Frames are received reliably up to
  \<open>safe_body\<close> bytes, the size for which the receive buffer always finds room.

  \<^bold>\<open>Inputs of the model.\<close> Answers of the operating system, the bytes that arrive and how they are split,
  clocks, the iteration order of hash maps, uninitialised memory (\<open>junk\<close>), the JSON library (a
  record of accessors) and, where the Zipper admits nodes, the outcome of its sends.

  \<^bold>\<open>Not modelled.\<close> Output to the console and \<^verbatim>\<open>include/logger.h\<close>; the tests; signals
  and \<^verbatim>\<open>exit\<close>; weak memory: every access to shared state is taken to be sequentially consistent, also
  where the code has no lock (\<^verbatim>\<open>slot_allocator.cpp\<close> writes to the registry without it).
\<close>

end
